(* ===== verification/ML_Prelude.thy ===== *)
theory ML_Prelude
  imports Main "HOL-Library.Word"
begin

unbundle bit_operations_syntax

text \<open>
  Shared vocabulary of the development: the fixed-width integers of the C sources, the
  byte-addressed memory of the camera, the integer macros of \<^verbatim>\<open>src/src/imath.h\<close>,
  the pointer macros of \<^verbatim>\<open>src/src/mem_defs.h\<close> and \<^verbatim>\<open>src/src/mem.h\<close>,
  first-match array scans, and the generic facts on words, lists and memory that the component
  theories rely on. The collections \<open>mem_simps\<close> and \<open>c_int_simps\<close> carry them.
\<close>

named_theorems mem_simps "read-over-write facts of the byte memory"
named_theorems c_int_simps "facts on C integer arithmetic"

type_synonym u8 = "8 word"
type_synonym u16 = "16 word"
type_synonym u32 = "32 word"
type_synonym u64 = "64 word"
type_synonym memory = "u32 \<Rightarrow> u8"

section \<open>C integers\<close>

text \<open>
  A C \<^verbatim>\<open>int\<close> is an integer reduced to 32-bit two's complement; division and
  remainder truncate towards zero.
\<close>

definition s32 :: "int \<Rightarrow> int" where
  "s32 x = signed_take_bit 31 x"

text \<open>The values of \<^verbatim>\<open>int\<close>, for arithmetic whose overflow is an error of the model.\<close>

definition fits_int :: "int \<Rightarrow> bool" where
  "fits_int x \<longleftrightarrow> - (2 ^ 31) \<le> x \<and> x < 2 ^ 31"

definition c_div :: "int \<Rightarrow> int \<Rightarrow> int" where
  "c_div a b = sgn a * sgn b * (\<bar>a\<bar> div \<bar>b\<bar>)"

definition c_rem :: "int \<Rightarrow> int \<Rightarrow> int" where
  "c_rem a b = a - b * c_div a b"

text \<open>The macros \<^verbatim>\<open>MOD\<close>, \<^verbatim>\<open>MIN\<close>, \<^verbatim>\<open>MAX\<close>, \<^verbatim>\<open>SGNX\<close>, \<^verbatim>\<open>RSCALE\<close>,
  \<^verbatim>\<open>ABS\<close>, \<^verbatim>\<open>SGN\<close> and \<^verbatim>\<open>COERCE\<close>.\<close>

definition c_MOD :: "int \<Rightarrow> int \<Rightarrow> int" where
  "c_MOD x m = c_rem (c_rem x m + m) m"

definition c_MIN :: "int \<Rightarrow> int \<Rightarrow> int" where
  "c_MIN a b = (if a < b then a else b)"

definition c_MAX :: "int \<Rightarrow> int \<Rightarrow> int" where
  "c_MAX a b = (if a > b then a else b)"

definition SGNX :: "int \<Rightarrow> int" where
  "SGNX a = (if a > 0 then 1 else - 1)"

definition RSCALE :: "int \<Rightarrow> int \<Rightarrow> int \<Rightarrow> int" where
  "RSCALE x num den = c_div (x * num + c_div (SGNX x * den) 2) den"

definition c_ABS :: "int \<Rightarrow> int" where
  "c_ABS a = (if a > 0 then a else - a)"

definition c_SGN :: "int \<Rightarrow> int" where
  "c_SGN a = (if a > 0 then 1 else if a < 0 then - 1 else 0)"

definition COERCE :: "int \<Rightarrow> int \<Rightarrow> int \<Rightarrow> int" where
  "COERCE x lo hi = c_MAX (c_MIN x hi) lo"

section \<open>Pointers\<close>

definition UNCACHEABLE :: "u32 \<Rightarrow> u32" where
  "UNCACHEABLE x = x OR (if x < 0x40000000 then 0x40000000 else 0)"

definition CACHEABLE :: "u32 \<Rightarrow> u32" where
  "CACHEABLE x = x AND NOT 0x40000000"

definition IS_ROM_PTR :: "u32 \<Rightarrow> bool" where
  "IS_ROM_PTR v \<longleftrightarrow> v > 0xF0000000"

section \<open>Byte memory, little endian\<close>

definition rd16 :: "memory \<Rightarrow> u32 \<Rightarrow> u16" where
  "rd16 m a = ucast (m a) OR push_bit 8 (ucast (m (a + 1)))"

definition rd32 :: "memory \<Rightarrow> u32 \<Rightarrow> u32" where
  "rd32 m a = ucast (m a) OR push_bit 8 (ucast (m (a + 1)))
     OR push_bit 16 (ucast (m (a + 2))) OR push_bit 24 (ucast (m (a + 3)))"

definition wr16 :: "memory \<Rightarrow> u32 \<Rightarrow> u16 \<Rightarrow> memory" where
  "wr16 m a v = m(a := ucast v, a + 1 := ucast (drop_bit 8 v))"

definition wr32 :: "memory \<Rightarrow> u32 \<Rightarrow> u32 \<Rightarrow> memory" where
  "wr32 m a v = m(a := ucast v, a + 1 := ucast (drop_bit 8 v),
     a + 2 := ucast (drop_bit 16 v), a + 3 := ucast (drop_bit 24 v))"

section \<open>Array scans\<close>

text \<open>
  The loop \<^verbatim>\<open>for (i = 0; i < n; i++) if (P(a[i])) break;\<close> of the sources:
  the least index at which the test holds.
\<close>

fun find_index :: "('a \<Rightarrow> bool) \<Rightarrow> 'a list \<Rightarrow> nat option" where
  "find_index P [] = None"
| "find_index P (x # xs) = (if P x then Some 0 else map_option Suc (find_index P xs))"

section \<open>Facts\<close>

lemma find_index_Some:
  "find_index P xs = Some i \<longleftrightarrow> i < length xs \<and> P (xs ! i) \<and> (\<forall>j < i. \<not> P (xs ! j))"
proof (induction xs arbitrary: i)
  case Nil
  then show ?case by simp
next
  case (Cons x xs)
  show ?case
  proof (cases i)
    case 0
    then show ?thesis by auto
  next
    case (Suc k)
    then show ?thesis using Cons.IH by (auto simp: less_Suc_eq_0_disj)
  qed
qed

lemma find_index_None: "find_index P xs = None \<longleftrightarrow> (\<forall>x \<in> set xs. \<not> P x)"
  by (induction xs) auto

lemma find_index_SomeD:
  assumes "find_index P xs = Some i"
  shows "i < length xs" and "P (xs ! i)"
  using assms by (simp_all add: find_index_Some)

lemma find_index_append:
  "find_index P (xs @ ys) =
    (case find_index P xs of Some i \<Rightarrow> Some i | None \<Rightarrow> map_option (\<lambda>i. length xs + i) (find_index P ys))"
  by (induction xs; cases "find_index P ys") (auto split: option.splits)

lemma s32_id [c_int_simps]: "- (2 ^ 31) \<le> x \<Longrightarrow> x < 2 ^ 31 \<Longrightarrow> s32 x = x"
  by (simp add: s32_def signed_take_bit_int_eq_self)

lemma s32_range: "- (2 ^ 31) \<le> s32 x" "s32 x < 2 ^ 31"
  unfolding s32_def
  by (rule signed_take_bit_int_greater_eq_minus_exp signed_take_bit_int_less_exp)+

lemma c_div_nonneg [c_int_simps]: "0 \<le> a \<Longrightarrow> 0 < b \<Longrightarrow> c_div a b = a div b"
  by (cases "a = 0") (simp_all add: c_div_def)

lemma c_rem_nonneg [c_int_simps]: "0 \<le> a \<Longrightarrow> 0 < b \<Longrightarrow> c_rem a b = a mod b"
  by (simp add: c_rem_def c_div_nonneg minus_mult_div_eq_mod)

lemma c_div_neg: "a < 0 \<Longrightarrow> 0 < b \<Longrightarrow> c_div a b = - ((- a) div b)"
  by (simp add: c_div_def)

lemma c_rem_bounds: "0 < b \<Longrightarrow> - b < c_rem a b \<and> c_rem a b < b"
proof (cases "0 \<le> a")
  case True
  assume "0 < b"
  with True show ?thesis
    using pos_mod_bound [of b a] pos_mod_sign [of b a] by (simp add: c_rem_nonneg del: pos_mod_sign pos_mod_bound)
next
  case False
  assume b: "0 < b"
  with False have "c_rem a b = - ((- a) mod b)"
    by (simp add: c_rem_def c_div_neg minus_mult_div_eq_mod [symmetric])
  with b show ?thesis
    using pos_mod_bound [of b "- a"] pos_mod_sign [of b "- a"] by linarith
qed

lemma c_rem_cong: "0 < b \<Longrightarrow> c_rem a b mod b = a mod b"
  by (simp add: c_rem_def mod_diff_eq [symmetric])

lemma c_MOD_eq [c_int_simps]: "0 < m \<Longrightarrow> c_MOD x m = x mod m"
proof -
  assume m: "0 < m"
  then have "0 \<le> c_rem x m + m" using c_rem_bounds [of m x] by simp
  with m have "c_MOD x m = (c_rem x m + m) mod m"
    by (simp add: c_MOD_def c_rem_nonneg)
  also have "\<dots> = x mod m" using m by (simp add: c_rem_cong)
  finally show ?thesis .
qed

text \<open>One step towards the next multiple, or back from it.\<close>

lemma mod_step_down:
  assumes "0 < n" "(i :: int) mod n \<noteq> 0"
  shows "(i - 1) mod n = i mod n - 1" and "0 < i mod n"
proof -
  show pos: "0 < i mod n" using assms pos_mod_sign [OF assms(1), of i] by linarith
  then have "(i mod n - 1) mod n = i mod n - 1"
    using pos_mod_bound [OF assms(1), of i] by (intro mod_pos_pos_trivial) linarith+
  then show "(i - 1) mod n = i mod n - 1" by (simp add: mod_simps)
qed

lemma div_step_down:
  assumes "0 < n" "(i :: int) mod n \<noteq> 0"
  shows "(i - 1) div n = i div n"
proof (rule int_div_pos_eq)
  show "i - 1 = n * (i div n) + (i mod n - 1)" by simp
qed (use mod_step_down(2) [OF assms] pos_mod_bound [OF assms(1), of i] in linarith)+

lemma mod_step_up:
  assumes "0 < n" "(i :: int) mod n \<noteq> 0"
  shows "(- i - 1) mod n < (- i) mod n" and "0 < (- i) mod n"
proof -
  have "(- i) mod n \<noteq> 0" using assms(2) by (metis dvd_minus_iff mod_0_imp_dvd mod_eq_0_iff_dvd)
  from mod_step_down [OF assms(1) this] show "(- i - 1) mod n < (- i) mod n" and "0 < (- i) mod n" by simp_all
qed

lemma c_ABS_abs: "c_ABS a = \<bar>a\<bar>"
  by (simp add: c_ABS_def)

lemma COERCE_range: "lo \<le> hi \<Longrightarrow> lo \<le> COERCE x lo hi \<and> COERCE x lo hi \<le> hi"
  by (simp add: COERCE_def c_MAX_def c_MIN_def)

lemma COERCE_id: "lo \<le> x \<Longrightarrow> x \<le> hi \<Longrightarrow> COERCE x lo hi = x"
  by (simp add: COERCE_def c_MAX_def c_MIN_def)

lemma rd16_wr16 [mem_simps]: "rd16 (wr16 m a v) a = v"
  by (rule bit_word_eqI) (auto simp: rd16_def wr16_def bit_simps)

lemma rd32_wr32 [mem_simps]: "rd32 (wr32 m a v) a = v"
proof -
  have "a + 1 \<noteq> a" "a + 2 \<noteq> a" "a + 3 \<noteq> a" "a + 2 \<noteq> a + 1" "a + 3 \<noteq> a + 1" "a + 3 \<noteq> a + 2"
    by simp_all
  note ne = this
  show ?thesis
  proof (rule bit_word_eqI)
    fix n assume "n < LENGTH(32)"
    then consider "n < 8" | "8 \<le> n" "n < 16" | "16 \<le> n" "n < 24" | "24 \<le> n" "n < 32"
      by fastforce
    then show "bit (rd32 (wr32 m a v) a) n \<longleftrightarrow> bit v n"
      using ne by cases (auto simp: rd32_def wr32_def bit_simps)
  qed
qed

lemma unat_drop_bit_div: "unat (drop_bit n (x :: 'a :: len word)) = unat x div 2 ^ n"
  by (subst unat_drop_bit_eq) (rule drop_bit_eq_div)

lemma unat_div_less:
  assumes "(x :: 'a :: len word) \<noteq> 0" and "1 < k"
  shows "unat x div k < unat x"
  using assms by (simp add: unat_gt_0)

lemma unat_drop_bit_1_less:
  assumes "(x :: 'a :: len word) \<noteq> 0"
  shows "unat (drop_bit 1 x) < unat x"
  unfolding unat_drop_bit_div using unat_div_less [OF assms, of 2] by simp

lemma odd_unat: "odd (unat (p :: 'a :: len word)) \<longleftrightarrow> odd p"
  by (simp flip: bit_0) (simp add: bit_simps)

lemma and_1_odd: "((p :: 'a :: len word) AND 1 \<noteq> 0) \<longleftrightarrow> odd p"
  by (simp add: and_one_eq mod2_eq_if)

lemma bit_u32_ge: "32 \<le> n \<Longrightarrow> \<not> bit (w :: u32) n"
  by (auto dest: bit_imp_le_length)

lemma bit_u8_ge: "8 \<le> n \<Longrightarrow> \<not> bit (w :: u8) n"
  by (auto dest: bit_imp_le_length)

lemmas bit_ge = bit_u32_ge bit_u8_ge

lemma bit_u32_shift8: "bit (w :: u32) (8 + n) \<Longrightarrow> n < 24"
  using bit_u32_ge [of "8 + n" w] by linarith

lemma xor_right_cancel: "a XOR c = b XOR c \<longleftrightarrow> a = (b :: 'a :: len word)"
proof
  assume "a XOR c = b XOR c"
  then have "(a XOR c) XOR c = (b XOR c) XOR c" by simp
  then show "a = b" by (simp add: xor.assoc)
qed simp

lemma unat_less_power32: "unat (x :: u32) < 2 ^ 32"
  using unsigned_less [of x] by simp

lemma ucast_u8_u32: "ucast (ucast (d :: u8) :: u32) = d"
  by (rule bit_word_eqI) (simp add: bit_ucast_iff)

subsection \<open>Addresses\<close>

lemma unat_of_nat32: "k < 2 ^ 32 \<Longrightarrow> unat (of_nat k :: u32) = k"
  by (simp add: unsigned_of_nat take_bit_nat_eq_self)

lemma off_eq: "d < 2 ^ 32 \<Longrightarrow> e < 2 ^ 32 \<Longrightarrow> q + of_nat d = (q :: u32) + of_nat e \<longleftrightarrow> d = e"
  using unat_of_nat32 [of d] unat_of_nat32 [of e] by (metis add_left_cancel)

lemma wr32_off: "d < 2 ^ 32 \<Longrightarrow> e + 4 \<le> 2 ^ 32 \<Longrightarrow> d < e \<or> e + 4 \<le> d \<Longrightarrow>
    wr32 m (q + of_nat e) v (q + of_nat d) = m (q + of_nat d)"
proof -
  assume a: "d < 2 ^ 32" "e + 4 \<le> 2 ^ 32" "d < e \<or> e + 4 \<le> d"
  have "q + of_nat d \<noteq> q + of_nat (e + k)" if "k < 4" for k
    using a that off_eq [of d "e + k" q] by auto
  from this [of 0] this [of 1] this [of 2] this [of 3] show ?thesis
    by (simp add: wr32_def ac_simps)
qed

lemma wr16_off: "d < 2 ^ 32 \<Longrightarrow> e + 2 \<le> 2 ^ 32 \<Longrightarrow> d < e \<or> e + 2 \<le> d \<Longrightarrow>
    wr16 m (q + of_nat e) v (q + of_nat d) = m (q + of_nat d)"
proof -
  assume a: "d < 2 ^ 32" "e + 2 \<le> 2 ^ 32" "d < e \<or> e + 2 \<le> d"
  have "q + of_nat d \<noteq> q + of_nat (e + k)" if "k < 2" for k
    using a that off_eq [of d "e + k" q] by auto
  from this [of 0] this [of 1] show ?thesis
    by (simp add: wr16_def ac_simps)
qed

lemma rd32_cong: "(\<And>k. k < 4 \<Longrightarrow> m (q + of_nat (e + k)) = m' (q + of_nat (e + k))) \<Longrightarrow>
    rd32 m (q + of_nat e) = rd32 m' (q + of_nat e)"
proof -
  assume a: "\<And>k. k < 4 \<Longrightarrow> m (q + of_nat (e + k)) = m' (q + of_nat (e + k))"
  from a [of 0] a [of 1] a [of 2] a [of 3] show ?thesis by (simp add: rd32_def ac_simps)
qed

lemma rd16_cong: "(\<And>k. k < 2 \<Longrightarrow> m (q + of_nat (e + k)) = m' (q + of_nat (e + k))) \<Longrightarrow>
    rd16 m (q + of_nat e) = rd16 m' (q + of_nat e)"
proof -
  assume a: "\<And>k. k < 2 \<Longrightarrow> m (q + of_nat (e + k)) = m' (q + of_nat (e + k))"
  from a [of 0] a [of 1] show ?thesis by (simp add: rd16_def ac_simps)
qed

text \<open>Cacheable and uncacheable aliases of RAM addresses.\<close>

lemma not_bit_high: "unat (p :: u32) < 2 ^ k \<Longrightarrow> k \<le> n \<Longrightarrow> \<not> bit p n"
proof -
  assume a: "unat p < 2 ^ k" "k \<le> n"
  have "take_bit k (unat p) = unat p" using a(1) by (simp add: take_bit_nat_eq_self)
  then have "\<not> bit (unat p) n" using a(2) by (metis bit_take_bit_iff not_le)
  then show ?thesis by (simp add: bit_unsigned_iff)
qed

lemma bit_const30: "bit (0x40000000 :: u32) n \<longleftrightarrow> n = 30"
proof -
  have "(0x40000000 :: u32) = 2 ^ 30" by simp
  then show ?thesis by (simp only: bit_exp_iff possible_bit_word) auto
qed

lemma CACHEABLE_take_bit: "unat p < 2 ^ 31 \<Longrightarrow> CACHEABLE p = take_bit 30 p"
proof (rule bit_word_eqI)
  fix n assume a: "unat p < 2 ^ 31" "n < LENGTH(32)"
  then show "bit (CACHEABLE p) n = bit (take_bit 30 p) n"
    using not_bit_high [OF a(1), of n] unfolding CACHEABLE_def bit_and_iff bit_not_iff bit_const30 bit_take_bit_iff
    by (cases "n < 30"; cases "n = 30") auto
qed

lemma unat_CACHEABLE: "unat p < 2 ^ 31 \<Longrightarrow> unat (CACHEABLE p) = unat p mod 2 ^ 30"
  by (simp only: CACHEABLE_take_bit unsigned_take_bit_eq take_bit_eq_mod [of 30 "unat p"])

lemma UNCACHEABLE_low: "unat p < 2 ^ 30 \<Longrightarrow> UNCACHEABLE p = p + 2 ^ 30"
proof -
  assume a: "unat p < 2 ^ 30"
  then have "p < 0x40000000" by (simp add: word_less_nat_alt)
  moreover have "p AND 2 ^ 30 = 0"
  proof (rule bit_word_eqI)
    fix n show "bit (p AND 2 ^ 30) n = bit 0 n"
      using not_bit_high [OF a, of 30] unfolding bit_and_iff bit_exp_iff by auto
  qed
  ultimately show ?thesis
    using disjunctive_add_eq_or [of p "2 ^ 30"] by (simp add: UNCACHEABLE_def)
qed

lemma UNCACHEABLE_high: "2 ^ 30 \<le> unat p \<Longrightarrow> UNCACHEABLE p = p"
  by (simp add: UNCACHEABLE_def word_less_nat_alt)

lemma UNCACHEABLE_ram: "\<not> IS_ROM_PTR a \<Longrightarrow> \<not> IS_ROM_PTR (UNCACHEABLE a)"
proof (cases "unat a < 2 ^ 30")
  case True
  then have "unat (a + 2 ^ 30) = unat a + 2 ^ 30" by (subst unat_plus_simple [THEN iffD1]) (simp_all add: word_le_nat_alt unat_word_ariths)
  then show ?thesis using True by (simp add: IS_ROM_PTR_def UNCACHEABLE_low word_less_nat_alt)
qed (simp add: UNCACHEABLE_high)

text \<open>Writing a value back over what replaced it.\<close>

lemma rd32_bytes:
  "(ucast (rd32 m a) :: u8) = m a" "(ucast (drop_bit 8 (rd32 m a)) :: u8) = m (a + 1)"
  "(ucast (drop_bit 16 (rd32 m a)) :: u8) = m (a + 2)" "(ucast (drop_bit 24 (rd32 m a)) :: u8) = m (a + 3)"
  unfolding rd32_def by (rule bit_word_eqI; auto simp: bit_simps dest: bit_imp_le_length)+

lemma rd16_bytes: "(ucast (rd16 m a) :: u8) = m a" "(ucast (drop_bit 8 (rd16 m a)) :: u8) = m (a + 1)"
  unfolding rd16_def by (rule bit_word_eqI; auto simp: bit_simps dest: bit_imp_le_length)+

lemma wr32_restore [mem_simps]: "wr32 (wr32 m a v) a (rd32 m a) = m"
  by (rule ext) (simp add: wr32_def rd32_bytes)

lemma wr16_restore [mem_simps]: "wr16 (wr16 m a v) a (rd16 m a) = m"
  by (rule ext) (simp add: wr16_def rd16_bytes)

text \<open>Aligned addresses.\<close>

lemma and_3_aligned: "(a :: u32) AND 3 = 0 \<Longrightarrow> a AND NOT 3 = a"
proof -
  assume "a AND 3 = 0"
  moreover have "(a AND NOT 3) OR (a AND 3) = a" by (rule bit_word_eqI) (auto simp: bit_simps)
  ultimately show ?thesis by simp
qed

lemma word_rotr_0: "word_rotr 0 w = (w :: u32)"
  by (rule bit_word_eqI) (simp add: bit_word_rotr_iff)

lemma and_3_unat: "(a :: u32) AND 3 = 0 \<longleftrightarrow> unat a mod 4 = 0"
proof -
  have "a AND 3 = take_bit 2 a" by (simp add: take_bit_eq_mask mask_eq_exp_minus_1)
  moreover have "unat (take_bit 2 a) = unat a mod 4" by (simp only: unsigned_take_bit_eq) (simp add: take_bit_eq_mod)
  ultimately show ?thesis by (metis unat_eq_zero)
qed

lemma and_3_add: "(a :: u32) AND 3 = 0 \<Longrightarrow> (a + of_nat (4 * k)) AND 3 = 0"
proof -
  assume "a AND 3 = 0"
  then have a: "unat a mod 4 = 0" by (simp only: and_3_unat)
  have "a + of_nat (4 * k) = of_nat (unat a + 4 * k)" by simp
  then have "unat (a + of_nat (4 * k)) = (unat a + 4 * k) mod 2 ^ 32"
    by (simp only: unat_of_nat) simp
  moreover have "(unat a + 4 * k) mod 2 ^ 32 mod 4 = (unat a + 4 * k) mod 4" by (rule mod_mod_cancel) simp
  moreover have "(unat a + 4 * k) mod 4 = 0" using a by presburger
  ultimately show ?thesis unfolding and_3_unat by simp
qed
end
