(* ===== verification/ML_Math.thy ===== *)
theory ML_Math
  imports ML_Prelude
begin

text \<open>
  Integer mathematics (\<^verbatim>\<open>src/src/imath.c\<close>), the CRC-32 checksum
  (\<^verbatim>\<open>src/src/crc32.c\<close>) and the LFSR113 pseudo random generator
  (\<^verbatim>\<open>src/src/rand.c\<close>). The functions work on 32-bit unsigned values that wrap.
  The lemmas show that the loops terminate with the intended value, that the table-driven
  checksum is the bitwise one, and that the generator never falls into a degenerate state.
\<close>

section \<open>imath.c\<close>

function powi_loop :: "u32 \<Rightarrow> u32 \<Rightarrow> u32 \<Rightarrow> u32" where
  "powi_loop result base pow =
     (if pow \<noteq> 0
      then powi_loop (if pow AND 1 \<noteq> 0 then result * base else result)
             (base * base) (drop_bit 1 pow)
      else result)"
  by pat_completeness auto
termination
  by (relation "measure (\<lambda>(result, base, pow). unat pow)")
     (simp_all only: in_measure wf_measure prod.case unat_drop_bit_1_less not_False_eq_True)

declare powi_loop.simps [simp del]

definition powi_c :: "u32 \<Rightarrow> u32 \<Rightarrow> u32" where
  "powi_c base pow = powi_loop 1 base pow"

text \<open>The loop \<^verbatim>\<open>while (x >>= 1) result++\<close>.\<close>

function log2i_loop :: "u32 \<Rightarrow> u32 \<Rightarrow> u32" where
  "log2i_loop x result =
     (let x' = drop_bit 1 x in if x' \<noteq> 0 then log2i_loop x' (result + 1) else result)"
  by pat_completeness auto
termination
proof (relation "measure (\<lambda>(x, result). unat x)")
  fix x result x' :: u32
  assume x': "x' = drop_bit 1 x" and "x' \<noteq> 0"
  then have "x \<noteq> 0" by (metis drop_bit_of_0)
  then show "((x', result + 1), x, result) \<in> measure (\<lambda>(x, result). unat x)"
    unfolding x' by (simp only: in_measure prod.case unat_drop_bit_1_less not_False_eq_True)
qed simp

declare log2i_loop.simps [simp del]

definition log2i :: "u32 \<Rightarrow> u32" where
  "log2i x = log2i_loop x 0"

text \<open>The loop \<^verbatim>\<open>while (x /= 10) result++\<close>.\<close>

function log10i_loop :: "u32 \<Rightarrow> u32 \<Rightarrow> u32" where
  "log10i_loop x result =
     (let x' = x div 10 in if x' \<noteq> 0 then log10i_loop x' (result + 1) else result)"
  by pat_completeness auto
termination
proof (relation "measure (\<lambda>(x, result). unat x)")
  fix x result x' :: u32
  assume x': "x' = x div 10" and "x' \<noteq> 0"
  then have "x \<noteq> 0" by (metis div_0)
  then have "unat x div 10 < unat x" by (rule unat_div_less) simp
  then show "((x', result + 1), x, result) \<in> measure (\<lambda>(x, result). unat x)"
    unfolding x' by (simp add: unat_div_distrib)
qed simp

declare log10i_loop.simps [simp del]

definition log10i :: "u32 \<Rightarrow> u32" where
  "log10i x = log10i_loop x 0"

section \<open>crc32.c\<close>

definition crc_poly :: u32 where
  "crc_poly = 0xEDB88320"

definition crc_bit :: "u32 \<Rightarrow> u32" where
  "crc_bit crc = drop_bit 1 crc XOR (if crc AND 1 \<noteq> 0 then crc_poly else 0)"

definition crc32_init :: "u32 list" where
  "crc32_init = map (\<lambda>i. (crc_bit ^^ 8) (word_of_nat i)) [0..<256]"

fun crc32 :: "u32 list \<Rightarrow> u8 list \<Rightarrow> u32 \<Rightarrow> u32" where
  "crc32 table [] seed = seed"
| "crc32 table (d # ds) seed =
     crc32 table ds
       ((drop_bit 8 seed AND 0x00FFFFFF) XOR table ! unat ((seed XOR ucast d) AND 0xFF))"

text \<open>The bitwise checksum that the table stands for.\<close>

fun crc32_bitwise :: "u8 list \<Rightarrow> u32 \<Rightarrow> u32" where
  "crc32_bitwise [] seed = seed"
| "crc32_bitwise (d # ds) seed = crc32_bitwise ds ((crc_bit ^^ 8) (seed XOR ucast d))"

section \<open>rand.c\<close>

type_synonym lfsr113 = "u32 \<times> u32 \<times> u32 \<times> u32"

definition lfsr113_init :: lfsr113 where
  "lfsr113_init = (0x00009821, 0x00098722, 0x00986332, 0x961FEFA7)"

definition lfsr0 :: "u32 \<Rightarrow> u32" where
  "lfsr0 z = push_bit 18 (z AND 0xFFFFFFFE) XOR drop_bit 13 (push_bit 6 z XOR z)"

definition lfsr1 :: "u32 \<Rightarrow> u32" where
  "lfsr1 z = push_bit 2 (z AND 0xFFFFFFF8) XOR drop_bit 27 (push_bit 2 z XOR z)"

definition lfsr2 :: "u32 \<Rightarrow> u32" where
  "lfsr2 z = push_bit 7 (z AND 0xFFFFFFF0) XOR drop_bit 21 (push_bit 13 z XOR z)"

definition lfsr3 :: "u32 \<Rightarrow> u32 \<Rightarrow> u32" where
  "lfsr3 timer z = push_bit 13 (z AND 0xFFFFFF80) XOR drop_bit 12 (push_bit 3 z XOR z) XOR timer"

text \<open>One round of \<^verbatim>\<open>rand_fill\<close>: the timer is read once, before the loop.\<close>

definition rand_round :: "u32 \<Rightarrow> lfsr113 \<Rightarrow> lfsr113" where
  "rand_round timer z = (case z of (z0, z1, z2, z3) \<Rightarrow> (lfsr0 z0, lfsr1 z1, lfsr2 z2, lfsr3 timer z3))"

definition rand_output :: "lfsr113 \<Rightarrow> u32" where
  "rand_output z = (case z of (z0, z1, z2, z3) \<Rightarrow> z0 XOR z1 XOR z2 XOR z3)"

fun rand_fill :: "u32 \<Rightarrow> nat \<Rightarrow> lfsr113 \<Rightarrow> u32 list \<times> lfsr113" where
  "rand_fill timer 0 z = ([], z)"
| "rand_fill timer (Suc n) z =
     (let z' = rand_round timer z; (buffer, z'') = rand_fill timer n z'
      in (rand_output z' # buffer, z''))"

definition xor_component :: "nat \<Rightarrow> u32 \<Rightarrow> lfsr113 \<Rightarrow> lfsr113" where
  "xor_component i v z = (case z of (z0, z1, z2, z3) \<Rightarrow>
     if i = 0 then (z0 XOR v, z1, z2, z3)
     else if i = 1 then (z0, z1 XOR v, z2, z3)
     else if i = 2 then (z0, z1, z2 XOR v, z3)
     else (z0, z1, z2, z3 XOR v))"

text \<open>
  \<^verbatim>\<open>rand_seed\<close> reads the timer twice per loop: \<open>t1\<close> in the loop itself and
  \<open>t2\<close> in the call of \<^verbatim>\<open>rand_fill\<close>.
\<close>

fun rand_seed_loop :: "u32 \<Rightarrow> (nat \<Rightarrow> u32) \<Rightarrow> (nat \<Rightarrow> u32) \<Rightarrow> nat \<Rightarrow> nat \<Rightarrow> lfsr113 \<Rightarrow> lfsr113" where
  "rand_seed_loop seed t1 t2 loops 0 z = z"
| "rand_seed_loop seed t1 t2 loops (Suc n) z =
     rand_seed_loop seed t1 t2 (Suc loops) n
       (snd (rand_fill (t2 loops) 1 (xor_component (loops mod 4) (seed + t1 loops) z)))"

definition rand_seed :: "u32 \<Rightarrow> (nat \<Rightarrow> u32) \<Rightarrow> (nat \<Rightarrow> u32) \<Rightarrow> lfsr113 \<Rightarrow> lfsr113" where
  "rand_seed seed t1 t2 z = rand_seed_loop seed t1 t2 0 128 z"

section \<open>Facts\<close>

subsection \<open>RSCALE and the loops of imath.c\<close>

lemma RSCALE_pos: "0 < x \<Longrightarrow> 0 < num \<Longrightarrow> 0 < den \<Longrightarrow> RSCALE x num den = (x * num + den div 2) div den"
  by (simp add: RSCALE_def SGNX_def c_div_nonneg)

lemma RSCALE_neg:
  assumes "0 < x" "0 < num" "0 < den"
  shows "RSCALE (- x) num den = - RSCALE x num den"
proof -
  have "0 < x * num" "0 \<le> den div 2" using assms by simp_all
  then have "0 < x * num + den div 2" by linarith
  then have "c_div (- (x * num + den div 2)) den = - ((x * num + den div 2) div den)"
    using assms by (simp only: c_div_neg neg_less_0_iff_less minus_minus)
  moreover have "c_div (- den) 2 = - (den div 2)" using assms by (simp add: c_div_neg)
  ultimately show ?thesis using assms by (simp add: RSCALE_pos) (simp add: RSCALE_def SGNX_def)
qed

lemma RSCALE_zero: "0 < num \<Longrightarrow> 0 < den \<Longrightarrow> RSCALE 0 num den = 0"
  by (simp add: RSCALE_def SGNX_def c_div_def)

lemma RSCALE_ge_1:
  assumes "0 < x" "0 < den" "den < num"
  shows "0 < RSCALE x num den"
proof -
  have "1 * num \<le> x * num" using assms by (intro mult_right_mono) simp_all
  then have "den \<le> x * num + den div 2" using assms by linarith
  then show ?thesis using assms by (simp add: RSCALE_pos pos_imp_zdiv_pos_iff)
qed

lemma RSCALE_back_pos:
  assumes "0 < x" "0 < den" "den < num"
  shows "RSCALE (RSCALE x num den) den num = x"
proof -
  define q where "q = (x * num + den div 2) div den * den"
  have q: "q = x * num + den div 2 - (x * num + den div 2) mod den"
    unfolding q_def by (simp add: minus_mod_eq_div_mult)
  have m: "0 \<le> (x * num + den div 2) mod den" "(x * num + den div 2) mod den < den"
    using assms by simp_all
  define e where "e = q - x * num + num div 2"
  have "0 \<le> e" "e < num" using m assms unfolding e_def q by linarith+
  moreover have "q + num div 2 = e + x * num" by (simp add: e_def)
  ultimately have "(q + num div 2) div num = x" by simp
  then show ?thesis
    using assms RSCALE_ge_1 [OF assms] by (simp add: RSCALE_pos q_def)
qed

lemma powi_loop_eq: "powi_loop r b p = r * b ^ unat p"
proof (induction r b p rule: powi_loop.induct)
  case (1 r b p)
  show ?case
  proof (cases "p = 0")
    case True
    then show ?thesis by (simp add: powi_loop.simps)
  next
    case False
    have half: "unat (drop_bit 1 p) = unat p div 2"
      using unat_drop_bit_div [of 1 p] by (simp only: power_one_right)
    have par: "(p AND 1 \<noteq> 0) \<longleftrightarrow> odd (unat p)"
      by (simp only: and_1_odd odd_unat)
    have "powi_loop r b p = (if odd (unat p) then r * b else r) * (b * b) ^ (unat p div 2)"
      using "1.IH" [OF False] False unfolding half par
      by (subst powi_loop.simps) (simp only: par if_True not_False_eq_True)
    also have "\<dots> = r * b ^ unat p"
    proof (cases "odd (unat p)")
      case True
      then have "unat p = Suc (2 * (unat p div 2))" by presburger
      then have "b ^ unat p = b * (b * b) ^ (unat p div 2)"
        by (metis power_Suc power_mult power2_eq_square)
      with True show ?thesis by (simp add: mult.assoc)
    next
      case False
      then have "unat p = 2 * (unat p div 2)" by presburger
      then have "b ^ unat p = (b * b) ^ (unat p div 2)"
        by (metis power_mult power2_eq_square)
      with False show ?thesis by simp
    qed
    finally show ?thesis .
  qed
qed

lemma log2i_loop_bounds:
  assumes "x \<noteq> 0"
  shows "\<exists>k. log2i_loop x r = r + word_of_nat k \<and> 2 ^ k \<le> unat x \<and> unat x < 2 ^ Suc k"
  using assms
proof (induction x r rule: log2i_loop.induct)
  case (1 x r)
  have half: "unat (drop_bit 1 x) = unat x div 2"
    using unat_drop_bit_div [of 1 x] by (simp only: power_one_right)
  show ?case
  proof (cases "drop_bit 1 x = 0")
    case True
    with half have "unat x div 2 = 0" by simp
    moreover have "unat x \<noteq> 0" using 1 by (simp add: unat_gt_0)
    ultimately have "2 ^ 0 \<le> unat x \<and> unat x < 2 ^ Suc 0" by auto
    moreover have "log2i_loop x r = r + word_of_nat 0"
      using True by (subst log2i_loop.simps) simp
    ultimately show ?thesis by blast
  next
    case False
    then obtain k where k: "log2i_loop (drop_bit 1 x) (r + 1) = r + 1 + word_of_nat k"
        "2 ^ k \<le> unat (drop_bit 1 x)" "unat (drop_bit 1 x) < 2 ^ Suc k"
      using "1.IH" [OF refl False] by blast
    have "2 ^ Suc k \<le> unat x \<and> unat x < 2 ^ Suc (Suc k)"
      using k(2,3) unfolding half by auto
    moreover have "log2i_loop x r = r + word_of_nat (Suc k)"
      using False k(1) by (subst log2i_loop.simps) (simp add: Let_def algebra_simps)
    ultimately show ?thesis by blast
  qed
qed

subsection \<open>The checksum\<close>

lemma bit_crc_poly_31: "bit crc_poly 31"
  by (simp add: crc_poly_def)

lemma crc_bit_alt: "crc_bit a = drop_bit 1 a XOR (if odd a then crc_poly else 0)"
  by (simp only: crc_bit_def and_1_odd)

lemma crc_bit_xor: "crc_bit (a XOR b) = crc_bit a XOR crc_bit b"
proof -
  have "odd (a XOR b) \<longleftrightarrow> odd a \<noteq> odd b"
    by (simp flip: bit_0 add: bit_xor_iff)
  then show ?thesis
    by (intro bit_word_eqI) (auto simp: crc_bit_alt bit_simps)
qed

lemma crc_bits_xor: "(crc_bit ^^ n) (a XOR b) = (crc_bit ^^ n) a XOR (crc_bit ^^ n) b"
  by (induction n) (simp_all add: crc_bit_xor)

lemma crc_bits_high: "take_bit n a = 0 \<Longrightarrow> (crc_bit ^^ n) a = drop_bit n a"
proof (induction n arbitrary: a)
  case 0
  then show ?case by simp
next
  case (Suc n)
  have bits: "\<not> bit a i" if "i < Suc n" for i
    using Suc.prems that by (metis bit_0_eq bit_take_bit_iff bot_apply bot_bool_def)
  then have "even a" using bits [of 0] by (simp add: bit_0)
  then have "crc_bit a = drop_bit 1 a" by (simp only: crc_bit_alt if_False xor.right_neutral) simp
  moreover have "take_bit n (drop_bit 1 a) = 0"
    using bits by (intro bit_word_eqI) (auto simp: bit_take_bit_iff bit_drop_bit_eq)
  ultimately have "(crc_bit ^^ n) (crc_bit a) = drop_bit n (drop_bit 1 a)"
    using Suc.IH by metis
  then show ?case by (simp only: funpow_Suc_right comp_apply drop_bit_drop_bit) simp
qed

lemma crc_bits_8_split: "(crc_bit ^^ 8) x = drop_bit 8 x XOR (crc_bit ^^ 8) (x AND 0xFF)"
proof -
  have "x = (x AND NOT 0xFF) XOR (x AND 0xFF)"
    by (intro bit_word_eqI) (auto simp: bit_simps)
  then have "(crc_bit ^^ 8) x = (crc_bit ^^ 8) (x AND NOT 0xFF) XOR (crc_bit ^^ 8) (x AND 0xFF)"
    by (metis crc_bits_xor)
  moreover have "(0xFF :: u32) = mask 8" by (simp add: mask_eq_exp_minus_1)
  then have "take_bit 8 (x AND NOT 0xFF) = 0"
    by (intro bit_word_eqI) (auto simp: bit_simps)
  then have "(crc_bit ^^ 8) (x AND NOT 0xFF) = drop_bit 8 (x AND NOT 0xFF)"
    by (rule crc_bits_high)
  moreover have "drop_bit 8 (x AND NOT 0xFF) = drop_bit 8 x"
    unfolding \<open>(0xFF :: u32) = mask 8\<close>
    by (intro bit_word_eqI) (auto simp: bit_drop_bit_eq bit_and_iff bit_not_iff bit_mask_iff dest: bit_u32_shift8)
  ultimately show ?thesis by simp
qed

lemma crc32_init_nth: "n < 256 \<Longrightarrow> crc32_init ! n = (crc_bit ^^ 8) (word_of_nat n)"
  by (simp add: crc32_init_def)

lemma crc32_table_step:
  "(drop_bit 8 seed AND 0x00FFFFFF) XOR crc32_init ! unat ((seed XOR ucast (d :: u8)) AND 0xFF)
   = (crc_bit ^^ 8) (seed XOR ucast d)"
proof -
  let ?x = "seed XOR ucast d :: u32"
  have ff: "(0xFF :: u32) = mask 8" by (simp add: mask_eq_exp_minus_1)
  have ffffff: "(0xFFFFFF :: u32) = mask 24" by (simp add: mask_eq_exp_minus_1)
  have "unat (?x AND 0xFF) < 256"
    using word_and_le1 [of ?x "0xFF"] by (simp add: word_le_nat_alt and.commute)
  then have "crc32_init ! unat (?x AND 0xFF) = (crc_bit ^^ 8) (?x AND 0xFF)"
    by (simp add: crc32_init_nth)
  moreover have "drop_bit 8 seed AND 0x00FFFFFF = drop_bit 8 ?x"
    unfolding ffffff by (intro bit_word_eqI) (auto simp: bit_simps bit_ge dest: bit_u32_shift8)
  ultimately show ?thesis by (simp only: crc_bits_8_split [of ?x])
qed

lemma crc32_eq_bitwise: "crc32 crc32_init ds seed = crc32_bitwise ds seed"
  by (induction ds arbitrary: seed) (simp_all only: crc32.simps crc32_bitwise.simps crc32_table_step)

lemma crc_bit_inj: "crc_bit a = crc_bit b \<Longrightarrow> a = b"
proof -
  assume eq: "crc_bit a = crc_bit b"
  have msb: "bit (crc_bit x) 31 \<longleftrightarrow> odd x" for x
    by (auto simp: crc_bit_alt bit_simps bit_crc_poly_31 bit_ge)
  have par: "odd a \<longleftrightarrow> odd b" using eq msb by metis
  then have "drop_bit 1 a = drop_bit 1 b"
    using eq by (simp only: crc_bit_alt xor_right_cancel)
  then have "bit a (Suc n) \<longleftrightarrow> bit b (Suc n)" for n
    by (metis bit_drop_bit_eq comp_apply plus_1_eq_Suc)
  then show "a = b"
    using par by (intro bit_word_eqI) (metis bit_0 not0_implies_Suc)
qed

lemma crc_bits_inj: "(crc_bit ^^ n) a = (crc_bit ^^ n) b \<Longrightarrow> a = b"
  by (induction n) (auto dest: crc_bit_inj)

lemma crc32_bitwise_inj: "crc32_bitwise ds a = crc32_bitwise ds b \<Longrightarrow> a = b"
proof (induction ds arbitrary: a b)
  case Nil
  then show ?case by simp
next
  case (Cons d ds)
  then have "(crc_bit ^^ 8) (a XOR ucast d) = (crc_bit ^^ 8) (b XOR ucast d)" by simp
  then have "a XOR ucast d = b XOR ucast d" by (rule crc_bits_inj)
  then show ?case by (simp only: xor_right_cancel)
qed

lemma crc32_bitwise_append: "crc32_bitwise (xs @ ys) s = crc32_bitwise ys (crc32_bitwise xs s)"
  by (induction xs arbitrary: s) simp_all

subsection \<open>The generator\<close>

lemma drop_bit_eq_0_iff_bits: "drop_bit k (z :: u32) = 0 \<longleftrightarrow> (\<forall>i. k \<le> i \<and> i < 32 \<longrightarrow> \<not> bit z i)"
proof
  assume "drop_bit k z = 0"
  then have "\<not> bit (drop_bit k z) (i - k)" for i by simp
  then show "\<forall>i. k \<le> i \<and> i < 32 \<longrightarrow> \<not> bit z i"
    by (metis bit_drop_bit_eq comp_apply le_add_diff_inverse)
next
  assume "\<forall>i. k \<le> i \<and> i < 32 \<longrightarrow> \<not> bit z i"
  then show "drop_bit k z = 0"
    by (intro bit_word_eqI) (metis bit_0_eq bit_drop_bit_eq bit_u32_ge bot_apply bot_bool_def comp_apply le_add1 not_le)
qed

lemma masks:
  "(0xFFFFFFFE :: u32) = NOT (mask 1)" "(0xFFFFFFF8 :: u32) = NOT (mask 3)" "(0xFFFFFFF0 :: u32) = NOT (mask 4)"
  by (simp_all add: mask_eq_exp_minus_1)

lemma lfsr0_low: "n < 18 \<Longrightarrow> bit (lfsr0 z) n \<longleftrightarrow> bit z (n + 7) \<noteq> bit z (n + 13)"
  and lfsr0_18: "bit (lfsr0 z) 18 \<longleftrightarrow> bit z 25 \<noteq> bit z 31"
  and lfsr0_high: "19 \<le> n \<Longrightarrow> n < 32 \<Longrightarrow> bit (lfsr0 z) n \<longleftrightarrow> bit z (n - 18)"
  unfolding lfsr0_def masks bit_xor_iff bit_push_bit_iff possible_bit_word bit_drop_bit_eq comp_apply bit_and_iff bit_not_iff bit_mask_iff
  by (auto simp: bit_ge algebra_simps)

lemma lfsr1_low: "n < 5 \<Longrightarrow> bit (lfsr1 z) n \<longleftrightarrow> bit z (n + 25) \<noteq> bit z (n + 27)"
  and lfsr1_high: "5 \<le> n \<Longrightarrow> n < 32 \<Longrightarrow> bit (lfsr1 z) n \<longleftrightarrow> bit z (n - 2)"
  unfolding lfsr1_def masks bit_xor_iff bit_push_bit_iff possible_bit_word bit_drop_bit_eq comp_apply bit_and_iff bit_not_iff bit_mask_iff
  by (auto simp: bit_ge algebra_simps)

lemma lfsr2_low: "n < 11 \<Longrightarrow> bit (lfsr2 z) n \<longleftrightarrow> bit z (n + 8) \<noteq> bit z (n + 21)"
  and lfsr2_high: "11 \<le> n \<Longrightarrow> n < 32 \<Longrightarrow> bit (lfsr2 z) n \<longleftrightarrow> bit z (n - 7)"
  unfolding lfsr2_def masks bit_xor_iff bit_push_bit_iff possible_bit_word bit_drop_bit_eq comp_apply bit_and_iff bit_not_iff bit_mask_iff
  by (auto simp: bit_ge algebra_simps)

lemma lfsr0_alive: "drop_bit 1 z \<noteq> 0 \<Longrightarrow> drop_bit 1 (lfsr0 z) \<noteq> 0"
proof (rule notI, erule notE)
  assume "drop_bit 1 (lfsr0 z) = 0"
  then have zero: "\<not> bit (lfsr0 z) n" if "1 \<le> n" "n < 32" for n
    using that by (simp add: drop_bit_eq_0_iff_bits)
  have "1 \<le> i \<Longrightarrow> i < 32 \<Longrightarrow> \<not> bit z i" for i
  proof (induction i rule: less_induct)
    case (less i)
    consider "i < 14" | "14 \<le> i" "i < 31" | "i = 31" using less.prems by linarith
    then show ?case
    proof cases
      case 1
      then show ?thesis using zero [of "i + 18"] lfsr0_high [of "i + 18" z] less.prems by simp
    next
      case 2
      then have "\<not> bit z (i - 6)" using less by simp
      moreover have "bit z (i - 13 + 7) = bit z (i - 13 + 13)"
        using zero [of "i - 13"] lfsr0_low [of "i - 13" z] 2 by simp
      moreover have "i - 13 + 7 = i - 6" "i - 13 + 13 = i" using 2 by linarith+
      ultimately show ?thesis by simp
    next
      case 3
      then have "\<not> bit z 25" using less by simp
      then show ?thesis using zero [of 18] lfsr0_18 [of z] 3 by simp
    qed
  qed
  then show "drop_bit 1 z = 0" by (simp add: drop_bit_eq_0_iff_bits)
qed

lemma lfsr1_alive: "drop_bit 3 z \<noteq> 0 \<Longrightarrow> drop_bit 3 (lfsr1 z) \<noteq> 0"
proof (rule notI, erule notE)
  assume "drop_bit 3 (lfsr1 z) = 0"
  then have zero: "\<not> bit (lfsr1 z) n" if "3 \<le> n" "n < 32" for n
    using that by (simp add: drop_bit_eq_0_iff_bits)
  have low: "\<not> bit z i" if "3 \<le> i" "i < 30" for i
    using that zero [of "i + 2"] lfsr1_high [of "i + 2" z] by simp
  moreover have "\<not> bit z 30" "\<not> bit z 31"
    using zero [of 3] zero [of 4] lfsr1_low [of 3 z] lfsr1_low [of 4 z] low [of 28] low [of 29] by simp_all
  ultimately have "\<not> bit z i" if "3 \<le> i" "i < 32" for i
    using that by (cases "i < 30"; cases "i = 30"; cases "i = 31") auto
  then show "drop_bit 3 z = 0" by (simp add: drop_bit_eq_0_iff_bits)
qed

lemma lfsr2_alive: "drop_bit 4 z \<noteq> 0 \<Longrightarrow> drop_bit 4 (lfsr2 z) \<noteq> 0"
proof (rule notI, erule notE)
  assume "drop_bit 4 (lfsr2 z) = 0"
  then have zero: "\<not> bit (lfsr2 z) n" if "4 \<le> n" "n < 32" for n
    using that by (simp add: drop_bit_eq_0_iff_bits)
  have low: "\<not> bit z i" if "4 \<le> i" "i < 25" for i
    using that zero [of "i + 7"] lfsr2_high [of "i + 7" z] by simp
  have high: "\<not> bit z i" if "25 \<le> i" "i < 32" for i
    using that zero [of "i - 21"] lfsr2_low [of "i - 21" z] low [of "i - 21 + 8"] by simp
  have "\<not> bit z i" if "4 \<le> i" "i < 32" for i
    using that low high by (cases "i < 25") auto
  then show "drop_bit 4 z = 0" by (simp add: drop_bit_eq_0_iff_bits)
qed

text \<open>
  The three timer-independent components stay above the seeds for which LFSR113 degenerates.
\<close>

fun lfsr_ok :: "lfsr113 \<Rightarrow> bool" where
  "lfsr_ok (z0, z1, z2, z3) \<longleftrightarrow> drop_bit 1 z0 \<noteq> 0 \<and> drop_bit 3 z1 \<noteq> 0 \<and> drop_bit 4 z2 \<noteq> 0"

lemma rand_round_ok: "lfsr_ok z \<Longrightarrow> lfsr_ok (rand_round timer z)"
  by (cases z) (simp only: rand_round_def prod.case lfsr_ok.simps lfsr0_alive lfsr1_alive lfsr2_alive simp_thms)

lemma rand_fill_ok: "lfsr_ok z \<Longrightarrow> lfsr_ok (snd (rand_fill timer n z))"
  by (induction n arbitrary: z) (simp_all add: Let_def split_beta rand_round_ok)

lemma rand_fill_length: "length (fst (rand_fill timer n z)) = n"
  by (induction n arbitrary: z) (simp_all add: Let_def split_beta)

section \<open>Properties\<close>

text \<open>
  square-and-multiply computes the power modulo \<open>2 ^ 32\<close>: \<^verbatim>\<open>powi\<close>
  returns \<open>base\<close> raised to \<open>pow\<close> in 32-bit arithmetic, for all arguments.
\<close>

theorem powi_correct: "powi_c base pow = base ^ unat pow"
  by (simp add: powi_c_def powi_loop_eq)

text \<open>
  for a non-zero argument \<^verbatim>\<open>log2i\<close> is the integer part of the binary
  logarithm, so its result is below 32.
\<close>

theorem log2i_floor_log:
  assumes "x \<noteq> 0"
  shows "2 ^ unat (log2i x) \<le> unat x \<and> unat x < 2 ^ Suc (unat (log2i x)) \<and> unat (log2i x) < 32"
proof -
  obtain k where k: "log2i_loop x 0 = 0 + word_of_nat k" "2 ^ k \<le> unat x" "unat x < 2 ^ Suc k"
    using log2i_loop_bounds [OF assms] by blast
  have "(2 :: nat) ^ k < 2 ^ 32" using k(2) unat_less_power32 [of x] by (rule le_less_trans)
  then have "k < 32" by (simp only: power_strict_increasing_iff one_less_numeral_iff semiring_norm)
  then have "unat (log2i x) = k"
    using k(1) by (simp add: log2i_def unat_of_nat take_bit_nat_eq_self)
  with k \<open>k < 32\<close> show ?thesis by simp
qed

theorem log2i_floor_log_witness:
  "(4096 :: u32) \<noteq> 0 \<and> 2 ^ unat (log2i 4096) \<le> unat (4096 :: u32) \<and>
   unat (4096 :: u32) < 2 ^ Suc (unat (log2i 4096)) \<and> unat (log2i 4096) < 32"
  using log2i_floor_log [of 4096] by simp

text \<open>
  \<^verbatim>\<open>RSCALE\<close> up by \<open>num / den\<close> and back down is the identity, the
  reversibility that the header's comment claims (in the absence of overflow).
\<close>

theorem RSCALE_reversible:
  assumes "0 < den" and "den < num"
  shows "RSCALE (RSCALE x num den) den num = x"
proof -
  consider "x = 0" | "0 < x" | "x < 0" by linarith
  then show ?thesis
  proof cases
    case 1
    then show ?thesis using assms by (simp add: RSCALE_zero)
  next
    case 2
    then show ?thesis using assms by (rule RSCALE_back_pos)
  next
    case 3
    then have "0 < - x" "0 < num" using assms by simp_all
    then show ?thesis
      using assms RSCALE_neg [of "- x" num den] RSCALE_neg [of "RSCALE (- x) num den" den num]
        RSCALE_ge_1 [of "- x" den num] RSCALE_back_pos [of "- x" den num] by simp
  qed
qed

theorem RSCALE_reversible_witness:
  "(0 :: int) < 5 \<and> (5 :: int) < 7 \<and> RSCALE (RSCALE (- 12) 7 5) 5 7 = - 12"
  using RSCALE_reversible [of 5 7 "- 12"] by simp

text \<open>
  C39: the table-driven \<^verbatim>\<open>crc32\<close>, with the table that
  \<^verbatim>\<open>crc32_init\<close> fills, equals the checksum computed bit by bit, for every
  seed and every byte string.
\<close>

theorem crc32_table_is_bitwise: "crc32 crc32_init ds seed = crc32_bitwise ds seed"
  by (rule crc32_eq_bitwise)

text \<open>
  C40: the checksum detects every change of a single byte: two messages that differ in exactly
  one byte have different checksums.
\<close>

theorem crc32_detects_byte_change:
  assumes "d \<noteq> d'"
  shows "crc32 crc32_init (xs @ d # ys) seed \<noteq> crc32 crc32_init (xs @ d' # ys) seed"
proof
  assume "crc32 crc32_init (xs @ d # ys) seed = crc32 crc32_init (xs @ d' # ys) seed"
  then have "crc32_bitwise ys ((crc_bit ^^ 8) (crc32_bitwise xs seed XOR ucast d)) =
      crc32_bitwise ys ((crc_bit ^^ 8) (crc32_bitwise xs seed XOR ucast d'))"
    by (simp only: crc32_eq_bitwise crc32_bitwise_append crc32_bitwise.simps)
  then have "(crc_bit ^^ 8) (crc32_bitwise xs seed XOR ucast d) = (crc_bit ^^ 8) (crc32_bitwise xs seed XOR ucast d')"
    by (rule crc32_bitwise_inj)
  then have "crc32_bitwise xs seed XOR ucast d = crc32_bitwise xs seed XOR ucast d'"
    by (rule crc_bits_inj)
  then have "(ucast d :: u32) XOR crc32_bitwise xs seed = ucast d' XOR crc32_bitwise xs seed"
    by (simp only: xor.commute)
  then have "(ucast d :: u32) = ucast d'" by (simp only: xor_right_cancel)
  then have "(ucast (ucast d :: u32) :: u8) = ucast (ucast d' :: u32)" by simp
  then have "d = d'" by (simp only: ucast_u8_u32)
  with assms show False ..
qed

theorem crc32_detects_byte_change_witness:
  "(1 :: u8) \<noteq> 2 \<and> crc32 crc32_init ([7] @ 1 # [9]) 0 \<noteq> crc32 crc32_init ([7] @ 2 # [9]) 0"
  using crc32_detects_byte_change [of 1 2 "[7]" "[9]" 0] by simp

text \<open>
  \<^verbatim>\<open>rand_fill\<close> fills exactly the requested number of words and keeps the
  first three generator components out of the degenerate range (below 2, 8 and 16), from which
  LFSR113 would only produce constants, whatever the timer reads.
\<close>

theorem rand_fill_not_degenerate:
  assumes "lfsr_ok z"
  shows "length (fst (rand_fill timer n z)) = n \<and> lfsr_ok (snd (rand_fill timer n z))"
  using assms by (simp add: rand_fill_length rand_fill_ok)

theorem rand_fill_not_degenerate_witness:
  "lfsr_ok lfsr113_init \<and> length (fst (rand_fill 5 3 lfsr113_init)) = 3 \<and>
   lfsr_ok (snd (rand_fill 5 3 lfsr113_init))"
proof -
  have ok: "lfsr_ok lfsr113_init" by (simp add: lfsr113_init_def)
  show ?thesis using ok rand_fill_not_degenerate [OF ok, of 5 3] by blast
qed

end
