(* ===== verification/ML_Codec.thy ===== *)
theory ML_Codec
  imports ML_Prelude
begin

text \<open>
  The contract of a record format that is written back to back into a buffer or a file and read
  again record by record: PTP packets (\<^verbatim>\<open>src/src/ptpbuf.c\<close>) and the lines of a
  configuration file (\<^verbatim>\<open>src/src/config.c\<close>) both fulfil it. The locale
  \<open>stream_codec\<close> states what the writer and the reader promise each other; its lemmas
  say that reading a whole stream returns the records that were written.
\<close>

text \<open>Reading records until the reader refuses.\<close>

function decode_stream :: "('b list \<Rightarrow> ('a \<times> 'b list) option) \<Rightarrow> 'b list \<Rightarrow> 'a list" where
  "decode_stream dec bs =
     (case dec bs of
        None \<Rightarrow> []
      | Some (x, rest) \<Rightarrow> if length rest < length bs then x # decode_stream dec rest else [])"
  by pat_completeness auto
termination
  by (relation "measure (\<lambda>(dec, bs). length bs)") auto

declare decode_stream.simps [simp del]

locale stream_codec =
  fixes enc :: "'a \<Rightarrow> 'b list"
    and dec :: "'b list \<Rightarrow> ('a \<times> 'b list) option"
    and valid :: "'a \<Rightarrow> bool"
  assumes dec_enc: "valid x \<Longrightarrow> dec (enc x @ rest) = Some (x, rest)"
    and enc_nonempty: "valid x \<Longrightarrow> enc x \<noteq> []"
begin

lemma decode_stream_cons:
  assumes "valid x"
  shows "decode_stream dec (enc x @ rest) = x # decode_stream dec rest"
  using assms enc_nonempty [OF assms] by (subst decode_stream.simps) (simp add: dec_enc)

lemma decode_stream_append:
  assumes "list_all valid xs"
  shows "decode_stream dec (concat (map enc xs) @ rest) = xs @ decode_stream dec rest"
  using assms by (induction xs) (simp_all add: decode_stream_cons)

lemma decode_stream_concat:
  assumes "list_all valid xs" and "dec [] = None"
  shows "decode_stream dec (concat (map enc xs)) = xs"
proof -
  have "decode_stream dec [] = []" using assms(2) by (subst decode_stream.simps) simp
  then show ?thesis using decode_stream_append [OF assms(1), of "[]"] by simp
qed

lemma decode_stream_snoc:
  assumes "list_all valid xs" and "valid x" and "dec [] = None"
  shows "decode_stream dec (concat (map enc xs) @ enc x) = xs @ [x]"
proof -
  have "decode_stream dec (concat (map enc (xs @ [x]))) = xs @ [x]"
    using assms by (intro decode_stream_concat) simp_all
  then show ?thesis by simp
qed

end

text \<open>The little-endian image of a 32-bit word, as the C code lays it out in memory.\<close>

definition le32 :: "u32 \<Rightarrow> u8 list" where
  "le32 v = [ucast v, ucast (drop_bit 8 v), ucast (drop_bit 16 v), ucast (drop_bit 24 v)]"

fun of_le32 :: "u8 list \<Rightarrow> (u32 \<times> u8 list) option" where
  "of_le32 (a # b # c # d # rest) =
     Some (ucast a OR push_bit 8 (ucast b) OR push_bit 16 (ucast c) OR push_bit 24 (ucast d), rest)"
| "of_le32 _ = None"

lemma length_le32 [simp]: "length (le32 v) = 4"
  by (simp add: le32_def)

lemma le32_join:
  "(ucast (ucast v :: u8) :: u32) OR push_bit 8 (ucast (ucast (drop_bit 8 v) :: u8))
    OR push_bit 16 (ucast (ucast (drop_bit 16 v) :: u8)) OR push_bit 24 (ucast (ucast (drop_bit 24 v) :: u8)) = v"
proof (rule bit_word_eqI)
  fix n assume "n < LENGTH(32)"
  then consider "n < 8" | "8 \<le> n" "n < 16" | "16 \<le> n" "n < 24" | "24 \<le> n" "n < 32"
    by fastforce
  then show "bit ((ucast (ucast v :: u8) :: u32) OR push_bit 8 (ucast (ucast (drop_bit 8 v) :: u8))
    OR push_bit 16 (ucast (ucast (drop_bit 16 v) :: u8)) OR push_bit 24 (ucast (ucast (drop_bit 24 v) :: u8))) n = bit v n"
    by cases (auto simp: bit_simps)
qed

lemma of_le32_le32 [simp]: "of_le32 (le32 v @ rest) = Some (v, rest)"
  by (simp add: le32_def le32_join)

interpretation le32: stream_codec le32 of_le32 "\<lambda>_. True"
  by unfold_locales (simp_all add: le32_def le32_join)

end
