(* ===== verification/ML_Ptpbuf.thy ===== *)
theory ML_Ptpbuf
  imports ML_Codec
begin

text \<open>
  The PTP packet buffers of \<^verbatim>\<open>src/src/ptpbuf.c\<close> and
  \<^verbatim>\<open>src/src/ptpbuf.h\<close>: a ring of sixteen 256-byte buffers that the camera fills
  with packets and a PTP client fetches. A write outside a buffer's data array, which C leaves
  undefined, is the error \<open>Buffer_overrun\<close>. The lemmas show when packets fit, that a
  packet that fits is found again by a client that walks the buffer, and what the overflow and
  commit branches do.
\<close>

section \<open>Data\<close>

definition PTPBUF_BUFS :: u32 where
  "PTPBUF_BUFS = 16"

definition PTPBUF_BUFSIZE :: u32 where
  "PTPBUF_BUFSIZE = 256"

record ptpbuf_buffer =
  bytes_used :: u32
  data :: "u8 list"

record ptpbuf_packet =
  p_type :: u32
  p_length :: u32

record ptpbuf =
  magic :: u32
  commit :: u32
  buffer_count :: u32
  buffer_size :: u32
  current_buffer :: u32
  overflow :: u32
  buffers :: "ptpbuf_buffer list"
  fetchable :: "u32 list"

definition ptpbuf_data :: ptpbuf where
  "ptpbuf_data = \<lparr>magic = 0xEAEA3388, commit = 0, buffer_count = PTPBUF_BUFS, buffer_size = PTPBUF_BUFSIZE,
     current_buffer = 0, overflow = 0,
     buffers = replicate 16 \<lparr>bytes_used = 0, data = replicate 256 0\<rparr>, fetchable = replicate 16 0\<rparr>"

datatype ptpbuf_error = Buffer_overrun

section \<open>Operations\<close>

text \<open>\<^verbatim>\<open>sizeof(ptpbuf_packet_t)\<close>: two 32-bit fields.\<close>

definition sizeof_packet :: u32 where
  "sizeof_packet = 8"

definition packet_bytes :: "ptpbuf_packet \<Rightarrow> u8 list" where
  "packet_bytes p = le32 (p_type p) @ le32 (p_length p)"

definition set_bytes_used :: "nat \<Rightarrow> u32 \<Rightarrow> ptpbuf \<Rightarrow> ptpbuf" where
  "set_bytes_used i v s = s\<lparr>buffers := (buffers s)[i := (buffers s ! i)\<lparr>bytes_used := v\<rparr>]\<rparr>"

definition get_free_buffer :: "ptpbuf \<Rightarrow> u32 \<times> ptpbuf" where
  "get_free_buffer s =
     (case find_index (\<lambda>f. f = 0) (take (unat (buffer_count s)) (fetchable s)) of
        Some buf \<Rightarrow> (word_of_nat buf, set_bytes_used buf 0 s)
      | None \<Rightarrow> (0xFFFFFFFF, s))"

text \<open>\<^verbatim>\<open>memcpy(&buffer->data[bytes_used], src, n); bytes_used += n\<close> on buffer \<open>i\<close>.\<close>

definition buffer_append :: "nat \<Rightarrow> u8 list \<Rightarrow> ptpbuf \<Rightarrow> ptpbuf_error + ptpbuf" where
  "buffer_append i bs s =
     (let b = buffers s ! i; off = unat (bytes_used b) in
      if length (data b) < off + length bs then Inl Buffer_overrun
      else Inr (s\<lparr>buffers := (buffers s)[i :=
             \<lparr>bytes_used = bytes_used b + word_of_nat (length bs),
              data = take off (data b) @ bs @ drop (off + length bs) (data b)\<rparr>]\<rparr>))"

definition store_packet :: "u32 \<Rightarrow> u8 list \<Rightarrow> ptpbuf \<Rightarrow> ptpbuf_error + ptpbuf" where
  "store_packet ty dat s =
     (let i = unat (current_buffer s) in
      case buffer_append i (packet_bytes \<lparr>p_type = ty, p_length = word_of_nat (length dat)\<rparr>) s of
        Inl e \<Rightarrow> Inl e
      | Inr s' \<Rightarrow> buffer_append i dat s')"

definition ptpbuf_commit :: "ptpbuf \<Rightarrow> u32 \<times> ptpbuf" where
  "ptpbuf_commit s =
     (if commit s \<noteq> 0 then
        let (next_buffer, s1) = get_free_buffer (s\<lparr>commit := 0\<rparr>) in
        if buffer_count s1 \<le> next_buffer then (1, s1)
        else (1, set_bytes_used (unat next_buffer) 0
               (s1\<lparr>fetchable := (fetchable s1)[unat (current_buffer s1) := 1],
                   overflow := 0, current_buffer := next_buffer\<rparr>))
      else (1, s))"

definition ptpbuf_add :: "u32 \<Rightarrow> u8 list \<Rightarrow> ptpbuf \<Rightarrow> ptpbuf_error + u32 \<times> ptpbuf" where
  "ptpbuf_add ty dat s =
     (let b = buffers s ! unat (current_buffer s) in
      if buffer_size s \<le> bytes_used b + sizeof_packet + word_of_nat (length dat) then
        let s0 = s\<lparr>fetchable := (fetchable s)[unat (current_buffer s) := 1]\<rparr>;
            (next_buffer, s1) = get_free_buffer s0 in
        if buffer_count s1 \<le> next_buffer then Inr (0, s1\<lparr>overflow := 1\<rparr>)
        else
          let s2 = set_bytes_used (unat next_buffer) 0
                     (s1\<lparr>overflow := 0, current_buffer := next_buffer\<rparr>) in
          (case store_packet ty dat s2 of Inl e \<Rightarrow> Inl e | Inr s3 \<Rightarrow> Inr (ptpbuf_commit s3))
      else
        (case store_packet ty dat s of Inl e \<Rightarrow> Inl e | Inr s3 \<Rightarrow> Inr (ptpbuf_commit s3)))"

section \<open>What a client reads\<close>

text \<open>A packet is a header of type and length followed by that many bytes.\<close>

definition enc_packet :: "u32 \<times> u8 list \<Rightarrow> u8 list" where
  "enc_packet p = le32 (fst p) @ le32 (word_of_nat (length (snd p))) @ snd p"

definition dec_packet :: "u8 list \<Rightarrow> ((u32 \<times> u8 list) \<times> u8 list) option" where
  "dec_packet bs =
     (case of_le32 bs of None \<Rightarrow> None
      | Some (ty, r1) \<Rightarrow> (case of_le32 r1 of None \<Rightarrow> None
         | Some (len, r2) \<Rightarrow> if length r2 < unat len then None
             else Some ((ty, take (unat len) r2), drop (unat len) r2)))"

definition packet_ok :: "u32 \<times> u8 list \<Rightarrow> bool" where
  "packet_ok p \<longleftrightarrow> length (snd p) < 2 ^ 32"

definition buffer_packets :: "ptpbuf_buffer \<Rightarrow> (u32 \<times> u8 list) list" where
  "buffer_packets b = decode_stream dec_packet (take (unat (bytes_used b)) (data b))"

text \<open>The shape every operation keeps.\<close>

definition ptpbuf_wf :: "ptpbuf \<Rightarrow> bool" where
  "ptpbuf_wf s \<longleftrightarrow> buffer_count s = 16 \<and> buffer_size s = 256 \<and> unat (current_buffer s) < 16
     \<and> length (buffers s) = 16 \<and> length (fetchable s) = 16
     \<and> list_all (\<lambda>b. length (data b) = 256 \<and> bytes_used b \<le> 256) (buffers s)"

section \<open>Facts\<close>

interpretation packets: stream_codec enc_packet dec_packet packet_ok
proof unfold_locales
  fix x rest assume "packet_ok x"
  then show "dec_packet (enc_packet x @ rest) = Some (x, rest)"
    by (cases x) (simp add: enc_packet_def dec_packet_def packet_ok_def unat_of_nat take_bit_nat_eq_self)
next
  fix x show "enc_packet x \<noteq> []" by (simp add: enc_packet_def le32_def)
qed

lemma dec_packet_Nil [simp]: "dec_packet [] = None"
  by (simp add: dec_packet_def)

lemma packet_bytes_enc:
  "packet_bytes \<lparr>p_type = ty, p_length = word_of_nat (length dat)\<rparr> @ dat = enc_packet (ty, dat)"
  by (simp add: packet_bytes_def enc_packet_def)

lemma length_packet_bytes [simp]: "length (packet_bytes p) = 8"
  by (simp add: packet_bytes_def)

lemma ptpbuf_wfD:
  assumes "ptpbuf_wf s" and "i < 16"
  shows "length (data (buffers s ! i)) = 256" and "unat (bytes_used (buffers s ! i)) \<le> 256"
  using assms by (auto simp: ptpbuf_wf_def list_all_length word_le_nat_alt)

lemma store_packet_ok:
  fixes dat :: "u8 list"
  assumes wf: "ptpbuf_wf s"
    and i: "i = unat (current_buffer s)" and b: "b = buffers s ! i" and used: "used = unat (bytes_used b)"
    and fits: "used + 8 + length dat \<le> 256"
  shows "store_packet ty dat s = Inr (s\<lparr>buffers := (buffers s)[i :=
      \<lparr>bytes_used = word_of_nat (used + 8 + length dat),
       data = take used (data b) @ enc_packet (ty, dat) @ drop (used + 8 + length dat) (data b)\<rparr>]\<rparr>)"
proof -
  have i16: "i < 16" "length (buffers s) = 16" using wf i by (simp_all add: ptpbuf_wf_def)
  have len: "length (data b) = 256" using ptpbuf_wfD(1) [OF wf i16(1)] b by simp
  have u: "bytes_used b = word_of_nat used" using used by simp
  have u8: "unat (word_of_nat (used + 8) :: u32) = used + 8"
    using fits by (simp add: unat_of_nat take_bit_nat_eq_self del: of_nat_add)
  have uu: "unat (word_of_nat used :: u32) = used"
    using fits by (simp add: unat_of_nat take_bit_nat_eq_self)
  show ?thesis
    using i16 len fits unfolding store_packet_def buffer_append_def Let_def packet_bytes_enc [symmetric]
    by (simp add: i [symmetric] b [symmetric] used [symmetric] u uu u8 [simplified] ac_simps)
qed
lemma packets_extend:
  assumes "list_all packet_ok xs" and "packet_ok (ty, dat)" and "take used dt = concat (map enc_packet xs)"
    and "length dt = 256" and "used + 8 + length dat \<le> 256"
  shows "buffer_packets \<lparr>bytes_used = word_of_nat (used + 8 + length dat),
       data = take used dt @ enc_packet (ty, dat) @ drop (used + 8 + length dat) dt\<rparr> = xs @ [(ty, dat)]"
proof -
  have n: "unat (word_of_nat (used + 8 + length dat) :: u32) = used + 8 + length dat"
    using assms(5) by (simp add: unat_of_nat take_bit_nat_eq_self del: of_nat_add)
  have l: "length (enc_packet (ty, dat)) = 8 + length dat" by (simp add: enc_packet_def)
  have "take (used + 8 + length dat) (take used dt @ enc_packet (ty, dat) @ drop (used + 8 + length dat) dt)
      = take used dt @ enc_packet (ty, dat)"
    using assms(4,5) l by simp
  then show ?thesis
    unfolding buffer_packets_def ptpbuf_buffer.simps n assms(3)
    by (simp add: packets.decode_stream_snoc assms(1,2))
qed

lemma set_bytes_used_wf: "ptpbuf_wf s \<Longrightarrow> v \<le> 256 \<Longrightarrow> i < 16 \<Longrightarrow> ptpbuf_wf (set_bytes_used i v s)"
  by (auto simp: ptpbuf_wf_def set_bytes_used_def list_all_length nth_list_update)

lemma get_free_buffer_wf: "ptpbuf_wf s \<Longrightarrow> ptpbuf_wf (snd (get_free_buffer s))"
  by (auto simp: get_free_buffer_def find_index_Some split: option.splits intro!: set_bytes_used_wf)
     (auto simp: ptpbuf_wf_def)

lemma get_free_buffer_fst:
  assumes "ptpbuf_wf s" and "fst (get_free_buffer s) < 16"
  shows "unat (fst (get_free_buffer s)) < 16"
  using assms(2) by (simp add: word_less_nat_alt)

lemma get_free_buffer_fields [simp]:
  "buffer_count (snd (get_free_buffer s)) = buffer_count s" "buffer_size (snd (get_free_buffer s)) = buffer_size s"
  "current_buffer (snd (get_free_buffer s)) = current_buffer s" "fetchable (snd (get_free_buffer s)) = fetchable s"
  by (auto simp: get_free_buffer_def set_bytes_used_def split: option.splits)

lemma ptpbuf_commit_wf: "ptpbuf_wf s \<Longrightarrow> ptpbuf_wf (snd (ptpbuf_commit s))"
proof -
  assume wf: "ptpbuf_wf s"
  obtain nb s1 where g: "get_free_buffer (s\<lparr>commit := 0\<rparr>) = (nb, s1)" by fastforce
  have wf1: "ptpbuf_wf s1"
    using get_free_buffer_wf [of "s\<lparr>commit := 0\<rparr>"] wf g by (simp add: ptpbuf_wf_def)
  show ?thesis
  proof (cases "nb < 16")
    case True
    then have "unat nb < 16" by (simp add: word_less_nat_alt)
    then show ?thesis
      using wf wf1 by (auto simp: ptpbuf_commit_def g Let_def intro!: set_bytes_used_wf) (auto simp: ptpbuf_wf_def)
  next
    case False
    then have "buffer_count s1 \<le> nb" using wf1 by (simp add: ptpbuf_wf_def)
    then show ?thesis using wf wf1 by (simp add: ptpbuf_commit_def g Let_def)
  qed
qed

lemma store_packet_wf:
  assumes "ptpbuf_wf s" and "unat (bytes_used (buffers s ! unat (current_buffer s))) + 8 + length dat \<le> 256"
  shows "\<exists>s'. store_packet ty dat s = Inr s' \<and> ptpbuf_wf s'"
proof -
  let ?i = "unat (current_buffer s)"
  let ?b = "buffers s ! ?i"
  let ?n = "unat (bytes_used ?b) + 8 + length dat"
  have "length (data ?b) = 256" using ptpbuf_wfD(1) [OF assms(1)] assms(1) by (simp add: ptpbuf_wf_def)
  moreover have "(word_of_nat ?n :: u32) \<le> 256"
    using assms(2) by (simp add: word_le_nat_alt unat_of_nat take_bit_nat_eq_self del: of_nat_add)
  moreover have "length (take (unat (bytes_used ?b)) (data ?b) @ enc_packet (ty, dat) @ drop ?n (data ?b)) = 256"
    using assms(2) \<open>length (data ?b) = 256\<close> by (simp add: enc_packet_def)
  ultimately have "ptpbuf_wf (s\<lparr>buffers := (buffers s)[?i := \<lparr>bytes_used = word_of_nat ?n,
      data = take (unat (bytes_used ?b)) (data ?b) @ enc_packet (ty, dat) @ drop ?n (data ?b)\<rparr>]\<rparr>)"
    using assms(1) by (auto simp: ptpbuf_wf_def list_all_length nth_list_update simp del: of_nat_add)
  then show ?thesis using store_packet_ok [OF assms(1) refl refl refl assms(2)] by blast
qed
text \<open>The guard of \<^verbatim>\<open>ptpbuf_add\<close> in natural numbers, where nothing wraps.\<close>

lemma ptpbuf_guard:
  assumes "ptpbuf_wf s" and "b = buffers s ! unat (current_buffer s)" and "n < 2 ^ 31"
  shows "buffer_size s \<le> bytes_used b + sizeof_packet + word_of_nat n \<longleftrightarrow> 256 \<le> unat (bytes_used b) + 8 + n"
proof -
  have "unat (bytes_used b) \<le> 256" using ptpbuf_wfD(2) [OF assms(1)] assms(1,2) by (simp add: ptpbuf_wf_def)
  then have "unat (bytes_used b + 8 + word_of_nat n) = unat (bytes_used b) + 8 + n"
    using assms(3) by (simp add: unat_word_ariths unat_of_nat take_bit_nat_eq_self)
  then show ?thesis using assms(1) by (simp add: sizeof_packet_def ptpbuf_wf_def word_le_nat_alt)
qed

lemma ptpbuf_add_here:
  assumes "ptpbuf_wf s" and "unat (bytes_used (buffers s ! unat (current_buffer s))) + 8 + length dat < 256"
  shows "ptpbuf_add ty dat s = (case store_packet ty dat s of Inl e \<Rightarrow> Inl e | Inr s3 \<Rightarrow> Inr (ptpbuf_commit s3))"
  using ptpbuf_guard [OF assms(1) refl, of "length dat"] assms(2) by (simp add: ptpbuf_add_def Let_def)

lemma ptpbuf_add_next:
  assumes "ptpbuf_wf s" and "256 \<le> unat (bytes_used (buffers s ! unat (current_buffer s))) + 8 + length dat"
    and "length dat < 2 ^ 31"
    and g: "get_free_buffer (s\<lparr>fetchable := (fetchable s)[unat (current_buffer s) := 1]\<rparr>) = (nb, s1)"
  shows "ptpbuf_add ty dat s =
    (if 16 \<le> nb then Inr (0, s1\<lparr>overflow := 1\<rparr>)
     else case store_packet ty dat (set_bytes_used (unat nb) 0 (s1\<lparr>overflow := 0, current_buffer := nb\<rparr>)) of
            Inl e \<Rightarrow> Inl e | Inr s3 \<Rightarrow> Inr (ptpbuf_commit s3))"
proof -
  have "buffer_count s1 = 16"
    using get_free_buffer_fields(1) [of "s\<lparr>fetchable := (fetchable s)[unat (current_buffer s) := 1]\<rparr>"] g assms(1)
    by (simp add: ptpbuf_wf_def)
  then show ?thesis
    using ptpbuf_guard [OF assms(1) refl assms(3)] assms(2) by (simp add: ptpbuf_add_def Let_def g)
qed

lemma next_buffer_wf:
  assumes "ptpbuf_wf s"
    and g: "get_free_buffer (s\<lparr>fetchable := (fetchable s)[unat (current_buffer s) := 1]\<rparr>) = (nb, s1)"
  shows "ptpbuf_wf s1" and "nb < 16 \<Longrightarrow> ptpbuf_wf (set_bytes_used (unat nb) 0 (s1\<lparr>overflow := 0, current_buffer := nb\<rparr>))"
    and "nb < 16 \<Longrightarrow> bytes_used (buffers (set_bytes_used (unat nb) 0 (s1\<lparr>overflow := 0, current_buffer := nb\<rparr>)) ! unat nb) = 0"
proof -
  show wf1: "ptpbuf_wf s1"
    using get_free_buffer_wf [of "s\<lparr>fetchable := (fetchable s)[unat (current_buffer s) := 1]\<rparr>"] assms
    by (simp add: ptpbuf_wf_def)
  assume "nb < 16"
  then have "unat nb < 16" by (simp add: word_less_nat_alt)
  with wf1 show "ptpbuf_wf (set_bytes_used (unat nb) 0 (s1\<lparr>overflow := 0, current_buffer := nb\<rparr>))"
    by (intro set_bytes_used_wf) (simp_all add: ptpbuf_wf_def)
  from wf1 \<open>unat nb < 16\<close> show "bytes_used (buffers (set_bytes_used (unat nb) 0 (s1\<lparr>overflow := 0, current_buffer := nb\<rparr>)) ! unat nb) = 0"
    by (simp add: ptpbuf_wf_def set_bytes_used_def)
qed

lemma buffer_packets_concat:
  "list_all packet_ok xs \<Longrightarrow> take (unat (bytes_used b)) (data b) = concat (map enc_packet xs) \<Longrightarrow> buffer_packets b = xs"
  unfolding buffer_packets_def by (simp add: packets.decode_stream_concat)

text \<open>The buffer that is chosen when the current one is full.\<close>

lemma next_free:
  assumes "ptpbuf_wf s" and "cur = unat (current_buffer s)"
    and g: "get_free_buffer (s\<lparr>fetchable := (fetchable s)[cur := 1]\<rparr>) = (nb, s1)"
  shows "if \<exists>i < 16. i \<noteq> cur \<and> fetchable s ! i = 0
    then unat nb < 16 \<and> unat nb \<noteq> cur \<and> fetchable s ! unat nb = 0
      \<and> s1 = set_bytes_used (unat nb) 0 (s\<lparr>fetchable := (fetchable s)[cur := 1]\<rparr>)
    else nb = 0xFFFFFFFF \<and> s1 = s\<lparr>fetchable := (fetchable s)[cur := 1]\<rparr>"
proof -
  let ?f = "(fetchable s)[cur := 1]"
  have w: "length (fetchable s) = 16" "buffer_count s = 16" "cur < 16" using assms(1,2) by (simp_all add: ptpbuf_wf_def)
  have free: "?f ! i = 0 \<longleftrightarrow> i \<noteq> cur \<and> fetchable s ! i = 0" if "i < 16" for i
    using w that by (cases "i = cur") simp_all
  show ?thesis
  proof (cases "find_index (\<lambda>f. f = 0) ?f")
    case None
    then have "\<not> (\<exists>i < 16. i \<noteq> cur \<and> fetchable s ! i = 0)"
      using free w unfolding find_index_None by (metis length_list_update nth_mem)
    then show ?thesis using g None w by (simp add: get_free_buffer_def)
  next
    case (Some i)
    then have i: "i < 16" "?f ! i = 0" using find_index_SomeD [OF Some] w by simp_all
    then have "\<exists>i < 16. i \<noteq> cur \<and> fetchable s ! i = 0" using free by blast
    moreover have "unat (word_of_nat i :: u32) = i" using i(1) by (simp add: unat_of_nat take_bit_nat_eq_self)
    ultimately show ?thesis using g Some w free [OF i(1)] i by (auto simp: get_free_buffer_def)
  qed
qed

lemma ptpbuf_add_switches:
  assumes "ptpbuf_wf s" and "commit s = 0" and "cur = unat (current_buffer s)" and "b = buffers s ! cur"
    and "length dat \<le> 248" and "256 \<le> unat (bytes_used b) + 8 + length dat"
    and g: "get_free_buffer (s\<lparr>fetchable := (fetchable s)[cur := 1]\<rparr>) = (nb, s1)"
    and free: "\<exists>i < 16. i \<noteq> cur \<and> fetchable s ! i = 0"
  shows "\<exists>s'. ptpbuf_add ty dat s = Inr (1, s') \<and> fetchable s' = (fetchable s)[cur := 1] \<and> buffers s' ! cur = b
    \<and> current_buffer s' = nb \<and> unat nb < 16 \<and> unat nb \<noteq> cur \<and> fetchable s ! unat nb = 0
    \<and> buffer_packets (buffers s' ! unat nb) = [(ty, dat)]"
proof -
  have cur: "cur < 16" "length (buffers s) = 16" using assms(1,3) by (simp_all add: ptpbuf_wf_def)
  have ok: "packet_ok (ty, dat)" using assms(5) by (simp add: packet_ok_def)
  have "length dat < 2 ^ 31" using assms(5) by simp
  note add = ptpbuf_add_next [OF assms(1) _ this, of nb s1 ty, folded assms(3), folded assms(4), OF assms(6) g]
  have nb: "unat nb < 16" "unat nb \<noteq> cur" "fetchable s ! unat nb = 0"
    and s1: "s1 = set_bytes_used (unat nb) 0 (s\<lparr>fetchable := (fetchable s)[cur := 1]\<rparr>)"
    using next_free [OF assms(1,3) g] free by simp_all
  define s2 where "s2 = set_bytes_used (unat nb) 0 (s1\<lparr>overflow := 0, current_buffer := nb\<rparr>)"
  have n: "nb < 16" "\<not> 16 \<le> nb" using nb(1) by (simp_all add: word_less_nat_alt word_le_nat_alt)
  have wf2: "ptpbuf_wf s2" and z: "bytes_used (buffers s2 ! unat nb) = 0"
    using next_buffer_wf [OF assms(1), folded assms(3), OF g] n(1) by (simp_all add: s2_def)
  have c2: "current_buffer s2 = nb" "commit s2 = 0" "fetchable s2 = (fetchable s)[cur := 1]" "length (buffers s2) = 16"
    "buffers s2 ! cur = b"
    using assms(2,4) nb(2) cur by (simp_all add: s2_def s1 set_bytes_used_def)
  have "unat nb = unat (current_buffer s2)" using c2 by simp
  from store_packet_ok [OF wf2 this refl refl, of dat ty] z assms(5)
  have st: "store_packet ty dat s2 = Inr (s2\<lparr>buffers := (buffers s2)[unat nb :=
      \<lparr>bytes_used = word_of_nat (0 + 8 + length dat),
       data = take 0 (data (buffers s2 ! unat nb)) @ enc_packet (ty, dat) @ drop (0 + 8 + length dat) (data (buffers s2 ! unat nb))\<rparr>]\<rparr>)"
    by simp
  have l2: "length (data (buffers s2 ! unat nb)) = 256" by (rule ptpbuf_wfD(1) [OF wf2 nb(1)])
  have "buffer_packets \<lparr>bytes_used = word_of_nat (0 + 8 + length dat),
       data = take 0 (data (buffers s2 ! unat nb)) @ enc_packet (ty, dat) @ drop (0 + 8 + length dat) (data (buffers s2 ! unat nb))\<rparr>
      = [] @ [(ty, dat)]"
    by (rule packets_extend [OF _ ok _ l2]) (use assms(5) in simp_all)
  then show ?thesis
    using add n st c2 nb cur by (simp add: s2_def [symmetric] ptpbuf_commit_def)
qed

section \<open>Properties\<close>

text \<open>
  C27: a packet with at most 248 bytes of payload never writes outside a buffer: from a well-formed
  state \<^verbatim>\<open>ptpbuf_add\<close> returns, and the state it leaves is well-formed, on every
  path through the buffer switch and the commit.
\<close>

theorem ptpbuf_add_in_bounds:
  assumes "ptpbuf_wf s" and "length dat \<le> 248"
  shows "\<exists>r s'. ptpbuf_add ty dat s = Inr (r, s') \<and> ptpbuf_wf s'"
proof (cases "unat (bytes_used (buffers s ! unat (current_buffer s))) + 8 + length dat < 256")
  case True
  then obtain s3 where s3: "store_packet ty dat s = Inr s3" "ptpbuf_wf s3"
    using store_packet_wf [OF assms(1), of dat ty] by auto
  obtain r s' where "ptpbuf_commit s3 = (r, s')" by fastforce
  then show ?thesis
    using ptpbuf_add_here [OF assms(1) True, of ty] s3 ptpbuf_commit_wf [of s3] by simp
next
  case False
  obtain nb s1 where g: "get_free_buffer (s\<lparr>fetchable := (fetchable s)[unat (current_buffer s) := 1]\<rparr>) = (nb, s1)"
    by fastforce
  note next_eq = ptpbuf_add_next [OF assms(1) _ _ g, of dat ty]
  show ?thesis
  proof (cases "nb < 16")
    case True
    define s2 where "s2 = set_bytes_used (unat nb) 0 (s1\<lparr>overflow := 0, current_buffer := nb\<rparr>)"
    have "ptpbuf_wf s2" "bytes_used (buffers s2 ! unat (current_buffer s2)) = 0"
      using next_buffer_wf [OF assms(1) g] True by (simp_all add: s2_def set_bytes_used_def)
    then obtain s3 where s3: "store_packet ty dat s2 = Inr s3" "ptpbuf_wf s3"
      using store_packet_wf [of s2 dat ty] assms(2) by auto
    obtain r s' where "ptpbuf_commit s3 = (r, s')" by fastforce
    moreover have "\<not> 16 \<le> nb" using True by simp
    ultimately show ?thesis
      using next_eq False assms(2) s3 ptpbuf_commit_wf [of s3] by (simp add: s2_def)
  next
    case False2: False
    have "ptpbuf_wf (s1\<lparr>overflow := 1\<rparr>)" using next_buffer_wf(1) [OF assms(1) g] by (simp add: ptpbuf_wf_def)
    moreover have "16 \<le> nb" using False2 by simp
    ultimately show ?thesis using next_eq False assms(2) by simp
  qed
qed

lemma ptpbuf_data_wf: "ptpbuf_wf ptpbuf_data"
  by (simp add: ptpbuf_wf_def ptpbuf_data_def PTPBUF_BUFS_def PTPBUF_BUFSIZE_def list_all_length)

theorem ptpbuf_add_in_bounds_witness:
  "ptpbuf_wf ptpbuf_data \<and> length (replicate 248 (1 :: u8)) \<le> 248 \<and>
   (\<exists>r s'. ptpbuf_add 7 (replicate 248 1) ptpbuf_data = Inr (r, s') \<and> ptpbuf_wf s')"
  using ptpbuf_add_in_bounds [OF ptpbuf_data_wf, of "replicate 248 1" 7] ptpbuf_data_wf by simp

text \<open>
  C26: What a client finds after \<^verbatim>\<open>ptpbuf_add\<close>, with no commit pending and a payload of at most 248
  bytes. If the packet fits behind the packets \<open>xs\<close> of the current buffer, that buffer holds \<open>xs\<close>
  followed by the new packet. Otherwise the current buffer is offered to the client, and if another one is free,
  it becomes the current one and holds the new packet alone, while the full one keeps \<open>xs\<close>. If none is
  free, the call reports 0 and the overflow, and no buffer changes.
\<close>

theorem ptpbuf_add_client_reads_back:
  assumes "ptpbuf_wf s" and "commit s = 0" and "cur = unat (current_buffer s)" and "b = buffers s ! cur"
    and "list_all packet_ok xs" and "take (unat (bytes_used b)) (data b) = concat (map enc_packet xs)"
    and "length dat \<le> 248"
  shows "\<exists>r s'. ptpbuf_add ty dat s = Inr (r, s') \<and>
    (if unat (bytes_used b) + 8 + length dat < 256
     then r = 1 \<and> current_buffer s' = current_buffer s \<and> fetchable s' = fetchable s
       \<and> buffer_packets (buffers s' ! cur) = xs @ [(ty, dat)]
     else fetchable s' ! cur = 1 \<and> buffer_packets (buffers s' ! cur) = xs
       \<and> (if \<exists>i < 16. i \<noteq> cur \<and> fetchable s ! i = 0
          then r = 1 \<and> unat (current_buffer s') < 16 \<and> fetchable s ! unat (current_buffer s') = 0
            \<and> unat (current_buffer s') \<noteq> cur \<and> buffer_packets (buffers s' ! unat (current_buffer s')) = [(ty, dat)]
          else r = 0 \<and> overflow s' = 1 \<and> buffers s' = buffers s))"
proof -
  have cur: "cur < 16" "length (buffers s) = 16" "length (fetchable s) = 16" using assms(1,3) by (simp_all add: ptpbuf_wf_def)
  have len: "length (data b) = 256" using ptpbuf_wfD(1) [OF assms(1) cur(1)] assms(4) by simp
  have ok: "packet_ok (ty, dat)" using assms(7) by (simp add: packet_ok_def)
  have bp: "buffer_packets b = xs" by (rule buffer_packets_concat [OF assms(5,6)])
  show ?thesis
  proof (cases "unat (bytes_used b) + 8 + length dat < 256")
    case True
    then show ?thesis
      using ptpbuf_add_here [OF assms(1), of dat ty] store_packet_ok [OF assms(1,3,4) refl, of dat ty]
        packets_extend [OF assms(5) ok assms(6) len] assms(2-4) cur by (simp add: ptpbuf_commit_def)
  next
    case False
    obtain nb s1 where g: "get_free_buffer (s\<lparr>fetchable := (fetchable s)[cur := 1]\<rparr>) = (nb, s1)" by fastforce
    show ?thesis
    proof (cases "\<exists>i < 16. i \<noteq> cur \<and> fetchable s ! i = 0")
      case True
      have "256 \<le> unat (bytes_used b) + 8 + length dat" using False by simp
      from ptpbuf_add_switches [OF assms(1-4,7) this g True, of ty] show ?thesis using False True bp cur by auto
    next
      case none: False
      have "nb = 0xFFFFFFFF" "s1 = s\<lparr>fetchable := (fetchable s)[cur := 1]\<rparr>"
        using next_free [OF assms(1,3) g] none by simp_all
      then show ?thesis
        using ptpbuf_add_next [OF assms(1), folded assms(3), folded assms(4), OF _ _ g, of dat ty] False none cur bp assms(4,7)
        by simp
    qed
  qed
qed

theorem ptpbuf_add_client_reads_back_witness:
  "\<exists>r s'. ptpbuf_add 7 [1, 2, 3] ptpbuf_data = Inr (r, s') \<and> r = 1 \<and> buffer_packets (buffers s' ! 0) = [] @ [(7, [1, 2, 3])]"
  using ptpbuf_add_client_reads_back [OF ptpbuf_data_wf _ refl refl, of "[]" "[1, 2, 3]" 7] by (auto simp: ptpbuf_data_def)

text \<open>
  The size of a packet is only compared with the room left in the current buffer, never with
  the size of a whole buffer. A payload of more than 248 bytes is copied over the end of the next
  free buffer.
\<close>

theorem ptpbuf_add_overruns_large_packet:
  assumes "ptpbuf_wf s" and "248 < length dat" and "length dat < 2 ^ 31"
    and "fst (get_free_buffer (s\<lparr>fetchable := (fetchable s)[unat (current_buffer s) := 1]\<rparr>)) < 16"
  shows "ptpbuf_add ty dat s = Inl Buffer_overrun"
proof -
  obtain nb s1 where g: "get_free_buffer (s\<lparr>fetchable := (fetchable s)[unat (current_buffer s) := 1]\<rparr>) = (nb, s1)"
    by fastforce
  define s2 where "s2 = set_bytes_used (unat nb) 0 (s1\<lparr>overflow := 0, current_buffer := nb\<rparr>)"
  have nb: "nb < 16" "\<not> 16 \<le> nb" using assms(4) g by simp_all
  have cur: "current_buffer s2 = nb" by (simp add: s2_def set_bytes_used_def)
  have "unat nb < 16" using nb by (simp add: word_less_nat_alt)
  have wf2: "ptpbuf_wf s2" and zero: "bytes_used (buffers s2 ! unat nb) = 0"
    using next_buffer_wf [OF assms(1) g] nb by (simp_all add: s2_def)
  have "length (buffers s2) = 16" "length (data (buffers s2 ! unat nb)) = 256"
    using wf2 ptpbuf_wfD(1) [OF wf2 \<open>unat nb < 16\<close>] by (simp_all add: ptpbuf_wf_def)
  then have "store_packet ty dat s2 = Inl Buffer_overrun"
    using assms(2) zero \<open>unat nb < 16\<close> by (simp add: store_packet_def buffer_append_def Let_def cur)
  then show ?thesis
    using ptpbuf_add_next [OF assms(1) _ assms(3) g] assms(2) nb by (simp add: s2_def)
qed

theorem ptpbuf_add_overruns_large_packet_witness:
  "ptpbuf_add 7 (replicate 249 1) ptpbuf_data = Inl Buffer_overrun"
proof (rule ptpbuf_add_overruns_large_packet [OF ptpbuf_data_wf])
  show "fst (get_free_buffer (ptpbuf_data\<lparr>fetchable := (fetchable ptpbuf_data)[unat (current_buffer ptpbuf_data) := 1]\<rparr>)) < 16"
    by code_simp
qed simp_all

text \<open>
  The commit branch looks for a free buffer before it marks the current one as fetchable, so
  the current buffer itself can be chosen. Then the packet just stored, and everything stored
  before it in that buffer, is discarded: the client is offered an empty buffer.
\<close>

theorem ptpbuf_commit_discards_packets:
  assumes "ptpbuf_wf s" and "commit s \<noteq> 0"
    and "unat (bytes_used (buffers s ! unat (current_buffer s))) + 8 + length dat < 256"
    and "find_index (\<lambda>f. f = 0) (fetchable s) = Some (unat (current_buffer s))"
  shows "\<exists>s'. ptpbuf_add ty dat s = Inr (1, s') \<and> fetchable s' ! unat (current_buffer s) = 1 \<and>
    current_buffer s' = current_buffer s \<and> buffer_packets (buffers s' ! unat (current_buffer s)) = []"
proof -
  let ?i = "unat (current_buffer s)"
  obtain s3 where s3: "store_packet ty dat s = Inr s3" "ptpbuf_wf s3"
    using store_packet_wf [OF assms(1), of dat ty] assms(3) by auto
  have fields: "commit s3 = commit s" "fetchable s3 = fetchable s" "current_buffer s3 = current_buffer s"
    using store_packet_ok [OF assms(1) refl refl refl, of dat ty] assms(3) s3 by auto
  have free: "get_free_buffer (s3\<lparr>commit := 0\<rparr>) = (current_buffer s, set_bytes_used ?i 0 (s3\<lparr>commit := 0\<rparr>))"
    using s3(2) assms(4) fields by (simp add: get_free_buffer_def ptpbuf_wf_def)
  have i16: "?i < 16" "\<not> 16 \<le> current_buffer s" using assms(1) by (simp_all add: ptpbuf_wf_def word_le_nat_alt)
  have "buffer_packets \<lparr>bytes_used = 0, data = d\<rparr> = []" for d
    by (simp add: buffer_packets_def decode_stream.simps)
  then show ?thesis
    using ptpbuf_add_here [OF assms(1,3), of ty] s3 i16 assms(2) fields
    by (simp add: ptpbuf_commit_def free Let_def set_bytes_used_def ptpbuf_wf_def buffer_packets_def decode_stream.simps)
qed

theorem ptpbuf_commit_discards_packets_witness:
  "\<exists>s'. ptpbuf_add 7 [1, 2, 3] (ptpbuf_data\<lparr>commit := 1\<rparr>) = Inr (1, s') \<and>
    fetchable s' ! unat (current_buffer (ptpbuf_data\<lparr>commit := 1\<rparr>)) = 1 \<and>
    current_buffer s' = current_buffer (ptpbuf_data\<lparr>commit := 1\<rparr>) \<and>
    buffer_packets (buffers s' ! unat (current_buffer (ptpbuf_data\<lparr>commit := 1\<rparr>))) = []"
proof (rule ptpbuf_commit_discards_packets)
  show "ptpbuf_wf (ptpbuf_data\<lparr>commit := 1\<rparr>)" using ptpbuf_data_wf by (simp add: ptpbuf_wf_def)
qed (simp_all add: ptpbuf_data_def numeral_eq_Suc)

end
