(* ===== verification/ML_Cbr.thy ===== *)
theory ML_Cbr
  imports ML_Prelude
begin

text \<open>
  The callback registry of \<^verbatim>\<open>src/src/ml-cbr.c\<close>: named events, each with a singly
  linked list of callbacks in descending priority. The arenas of 255 nodes and 255 records are
  flattened into lists, in the order in which the code scans them; a pointer to a node or record is
  its index. A callback is the 32-bit address of its function, 0 being \<^verbatim>\<open>NULL\<close>. A call of
  \<^verbatim>\<open>malloc\<close> that creates an arena succeeds or fails as the argument \<open>malloc_ok\<close>
  says. Walks along \<^verbatim>\<open>next\<close> pointers carry fuel; running out is the error
  \<open>Endless_loop\<close>, and the lemmas show that a well-formed registry never runs out. The lock
  is held during each operation, so operations are atomic here.
\<close>

section \<open>Data\<close>

record cbr_node =
  cbr :: u32
  priority :: u32
  nxt :: "nat option"

record cbr_record =
  rname :: string
  rfirst :: "nat option"

record cbr_state =
  nodes :: "cbr_node list"
  records :: "cbr_record list"

datatype cbr_error = Null_deref | Name_overread | Endless_loop

definition NODE_POOL_SIZE :: nat where
  "NODE_POOL_SIZE = 255"

definition RECORD_POOL_SIZE :: nat where
  "RECORD_POOL_SIZE = 255"

abbreviation NUL :: char where
  "NUL \<equiv> CHR 0x00"

definition node_zero :: cbr_node where
  "node_zero = \<lparr>cbr = 0, priority = 0, nxt = None\<rparr>"

definition record_zero :: cbr_record where
  "record_zero = \<lparr>rname = replicate 16 NUL, rfirst = None\<rparr>"

section \<open>Operations\<close>

definition create_node_arena :: "bool \<Rightarrow> cbr_node list" where
  "create_node_arena malloc_ok = (if malloc_ok then replicate NODE_POOL_SIZE node_zero else [])"

definition create_record_arena :: "bool \<Rightarrow> cbr_record list" where
  "create_record_arena malloc_ok = (if malloc_ok then replicate RECORD_POOL_SIZE record_zero else [])"

definition ml_cbr_init :: "bool \<Rightarrow> bool \<Rightarrow> cbr_state" where
  "ml_cbr_init node_ok rec_ok =
     \<lparr>nodes = create_node_arena node_ok, records = create_record_arena rec_ok\<rparr>"

text \<open>
  \<^verbatim>\<open>strcmp(event, name) == 0\<close> on the 16-byte array \<open>name\<close>. \<open>None\<close>: the array
  has no terminator and agrees with \<open>event\<close>, so \<^verbatim>\<open>strcmp\<close> reads past its end.
\<close>

definition fast_compare :: "string \<Rightarrow> string \<Rightarrow> bool option" where
  "fast_compare event name =
     (let s = takeWhile (\<lambda>c. c \<noteq> NUL) name in
      if length s < length name then Some (event = s)
      else if take (length name) event = name then None else Some False)"

text \<open>\<^verbatim>\<open>strncpy(name, event, 16)\<close>\<close>

definition strncpy16 :: "string \<Rightarrow> string" where
  "strncpy16 event = take 16 (event @ replicate 16 NUL)"

fun scan_records :: "string \<Rightarrow> bool \<Rightarrow> nat \<Rightarrow> nat option \<Rightarrow> cbr_record list \<Rightarrow>
    cbr_error + nat option \<times> nat option" where
  "scan_records event return_new i first_free [] = Inr (None, first_free)"
| "scan_records event return_new i first_free (r # rs) =
     (if rname r ! 0 = NUL
      then scan_records event return_new (Suc i)
             (if return_new \<and> first_free = None then Some i else first_free) rs
      else case fast_compare event (rname r) of
             None \<Rightarrow> Inl Name_overread
           | Some True \<Rightarrow> Inr (Some i, first_free)
           | Some False \<Rightarrow> scan_records event return_new (Suc i) first_free rs)"

definition find_record :: "string \<Rightarrow> bool \<Rightarrow> cbr_state \<Rightarrow> cbr_error + nat option \<times> cbr_state" where
  "find_record event return_new st =
     (case scan_records event return_new 0 None (records st) of
        Inl e \<Rightarrow> Inl e
      | Inr (Some i, _) \<Rightarrow> Inr (Some i, st)
      | Inr (None, Some i) \<Rightarrow>
          Inr (Some i, st\<lparr>records := (records st)[i := \<lparr>rname = strncpy16 event, rfirst = None\<rparr>]\<rparr>)
      | Inr (None, None) \<Rightarrow> Inr (None, st))"

definition find_free_node :: "cbr_state \<Rightarrow> nat option" where
  "find_free_node st = find_index (\<lambda>n. cbr n = 0) (nodes st)"

definition expand_cbr_node_pool :: "bool \<Rightarrow> cbr_state \<Rightarrow> cbr_error + nat option \<times> cbr_state" where
  "expand_cbr_node_pool malloc_ok st =
     (if nodes st = [] then Inl Null_deref
      else Inr (if malloc_ok then Some (length (nodes st)) else None,
                st\<lparr>nodes := nodes st @ create_node_arena malloc_ok\<rparr>))"

definition expand_cbr_record_pool :: "bool \<Rightarrow> cbr_state \<Rightarrow> cbr_error + nat option \<times> cbr_state" where
  "expand_cbr_record_pool malloc_ok st =
     (if records st = [] then Inl Null_deref
      else Inr (if malloc_ok then Some (length (records st)) else None,
                st\<lparr>records := records st @ create_record_arena malloc_ok\<rparr>))"

definition set_next :: "nat \<Rightarrow> nat option \<Rightarrow> cbr_state \<Rightarrow> cbr_state" where
  "set_next i p st = st\<lparr>nodes := (nodes st)[i := (nodes st ! i)\<lparr>nxt := p\<rparr>]\<rparr>"

definition set_first :: "nat \<Rightarrow> nat option \<Rightarrow> cbr_state \<Rightarrow> cbr_state" where
  "set_first r p st = st\<lparr>records := (records st)[r := (records st ! r)\<lparr>rfirst := p\<rparr>]\<rparr>"

text \<open>The loop of \<^verbatim>\<open>insert_cbr\<close> over \<open>current\<close> and \<open>prev\<close>.\<close>

fun insert_walk :: "nat \<Rightarrow> nat \<Rightarrow> nat \<Rightarrow> u32 \<Rightarrow> nat \<Rightarrow> nat option \<Rightarrow> cbr_state \<Rightarrow> cbr_error + int \<times> cbr_state" where
  "insert_walk 0 r new_node prio current prev st = Inl Endless_loop"
| "insert_walk (Suc fuel) r new_node prio current prev st =
     (if priority (nodes st ! current) < prio then
        (case prev of
           None \<Rightarrow> Inr (0, set_next new_node (Some current) (set_first r (Some new_node) st))
         | Some p \<Rightarrow> Inr (0, set_next new_node (Some current) (set_next p (Some new_node) st)))
      else case nxt (nodes st ! current) of
             None \<Rightarrow> Inr (0, set_next current (Some new_node) st)
           | Some c \<Rightarrow> insert_walk fuel r new_node prio c (Some current) st)"

definition insert_cbr :: "bool \<Rightarrow> nat \<Rightarrow> u32 \<Rightarrow> u32 \<Rightarrow> cbr_state \<Rightarrow> cbr_error + int \<times> cbr_state" where
  "insert_cbr malloc_ok r f prio st =
     (case (case find_free_node st of Some n \<Rightarrow> Inr (Some n, st) | None \<Rightarrow> expand_cbr_node_pool malloc_ok st) of
        Inl e \<Rightarrow> Inl e
      | Inr (None, st1) \<Rightarrow> Inr (- 1, st1)
      | Inr (Some n, st1) \<Rightarrow>
          let st2 = st1\<lparr>nodes := (nodes st1)[n := (nodes st1 ! n)\<lparr>cbr := f, priority := prio\<rparr>]\<rparr> in
          case rfirst (records st2 ! r) of
            None \<Rightarrow> Inr (0, set_first r (Some n) st2)
          | Some c \<Rightarrow> insert_walk (length (nodes st2)) r n prio c None st2)"

definition ml_register_cbr :: "bool \<Rightarrow> bool \<Rightarrow> string \<Rightarrow> u32 \<Rightarrow> u32 \<Rightarrow> cbr_state \<Rightarrow> cbr_error + int \<times> cbr_state" where
  "ml_register_cbr rec_ok node_ok event f prio st =
     (case find_record event True st of
        Inl e \<Rightarrow> Inl e
      | Inr (Some r, st1) \<Rightarrow> insert_cbr node_ok r f prio st1
      | Inr (None, st1) \<Rightarrow>
          (case expand_cbr_record_pool rec_ok st1 of
             Inl e \<Rightarrow> Inl e
           | Inr (None, st2) \<Rightarrow> Inr (- 1, st2)
           | Inr (Some r, st2) \<Rightarrow> insert_cbr node_ok r f prio st2))"

text \<open>
  The loop of \<^verbatim>\<open>ml_unregister_cbr\<close>. A removed node's \<^verbatim>\<open>next\<close> is cleared before the
  loop reads it to go on.
\<close>

fun unregister_walk :: "nat \<Rightarrow> nat \<Rightarrow> u32 \<Rightarrow> nat option \<Rightarrow> nat option \<Rightarrow> cbr_state \<Rightarrow> cbr_error + cbr_state" where
  "unregister_walk fuel r f None prev st = Inr st"
| "unregister_walk 0 r f (Some current) prev st = Inl Endless_loop"
| "unregister_walk (Suc fuel) r f (Some current) prev st =
     (let st1 =
        (if cbr (nodes st ! current) = f then
           let after = nxt (nodes st ! current);
               st' = (case prev of None \<Rightarrow> set_first r after st | Some p \<Rightarrow> set_next p after st) in
           st'\<lparr>nodes := (nodes st')[current := (nodes st' ! current)\<lparr>cbr := 0, nxt := None\<rparr>]\<rparr>
         else st)
      in unregister_walk fuel r f (nxt (nodes st1 ! current)) (Some current) st1)"

definition ml_unregister_cbr :: "string \<Rightarrow> u32 \<Rightarrow> cbr_state \<Rightarrow> cbr_error + int \<times> cbr_state" where
  "ml_unregister_cbr event f st =
     (case find_record event False st of
        Inl e \<Rightarrow> Inl e
      | Inr (None, st1) \<Rightarrow> Inr (- 1, st1)
      | Inr (Some r, st1) \<Rightarrow>
          (case unregister_walk (Suc (length (nodes st1))) r f (rfirst (records st1 ! r)) None st1 of
             Inl e \<Rightarrow> Inl e
           | Inr st2 \<Rightarrow> Inr (0, st2)))"

text \<open>
  The loop of \<^verbatim>\<open>ml_notify_cbr\<close>: \<open>stops f\<close> says that the callback \<open>f\<close> returns
  \<^verbatim>\<open>ML_CBR_STOP\<close>; the result is the list of callbacks called. A node without a callback
  is looked at forever.
\<close>

fun notify_walk :: "(u32 \<Rightarrow> bool) \<Rightarrow> nat \<Rightarrow> cbr_state \<Rightarrow> nat option \<Rightarrow> cbr_error + u32 list" where
  "notify_walk stops fuel st None = Inr []"
| "notify_walk stops 0 st (Some call) = Inl Endless_loop"
| "notify_walk stops (Suc fuel) st (Some call) =
     (let f = cbr (nodes st ! call) in
      if f \<noteq> 0 then
        if stops f then Inr [f]
        else map_sum id (\<lambda>fs. f # fs) (notify_walk stops fuel st (nxt (nodes st ! call)))
      else notify_walk stops fuel st (Some call))"

definition ml_notify_cbr :: "(u32 \<Rightarrow> bool) \<Rightarrow> string \<Rightarrow> cbr_state \<Rightarrow> cbr_error + u32 list" where
  "ml_notify_cbr stops event st =
     (case find_record event False st of
        Inl e \<Rightarrow> Inl e
      | Inr (None, _) \<Rightarrow> Inr []
      | Inr (Some r, st1) \<Rightarrow> notify_walk stops (Suc (length (nodes st1))) st1 (rfirst (records st1 ! r)))"

text \<open>\<^verbatim>\<open>debug_cbr_tree\<close> prints priority and address of each callback, without checking that the event exists.\<close>

fun debug_walk :: "nat \<Rightarrow> cbr_state \<Rightarrow> nat option \<Rightarrow> cbr_error + (u32 \<times> u32) list" where
  "debug_walk fuel st None = Inr []"
| "debug_walk 0 st (Some n) = Inl Endless_loop"
| "debug_walk (Suc fuel) st (Some n) =
     map_sum id (\<lambda>xs. (priority (nodes st ! n), cbr (nodes st ! n)) # xs) (debug_walk fuel st (nxt (nodes st ! n)))"

definition debug_cbr_tree :: "string \<Rightarrow> cbr_state \<Rightarrow> cbr_error + (u32 \<times> u32) list" where
  "debug_cbr_tree event st =
     (case find_record event False st of
        Inl e \<Rightarrow> Inl e
      | Inr (None, _) \<Rightarrow> Inl Null_deref
      | Inr (Some r, st1) \<Rightarrow> debug_walk (Suc (length (nodes st1))) st1 (rfirst (records st1 ! r)))"

section \<open>Specification vocabulary\<close>

text \<open>The nodes reached from a pointer along \<^verbatim>\<open>next\<close>.\<close>

primrec path :: "cbr_node list \<Rightarrow> nat option \<Rightarrow> nat list \<Rightarrow> bool" where
  "path ns p [] \<longleftrightarrow> p = None"
| "path ns p (i # is) \<longleftrightarrow> p = Some i \<and> i < length ns \<and> path ns (nxt (ns ! i)) is"

definition payload :: "cbr_node \<Rightarrow> u32 \<times> u32" where
  "payload n = (priority n, cbr n)"

definition event_ok :: "string \<Rightarrow> bool" where
  "event_ok event \<longleftrightarrow> event \<noteq> [] \<and> length event \<le> 15 \<and> NUL \<notin> set event"

definition record_ok :: "cbr_record \<Rightarrow> bool" where
  "record_ok r \<longleftrightarrow> (\<exists>s. (s = [] \<or> event_ok s) \<and> rname r = strncpy16 s)"

text \<open>
  The registry \<open>st\<close> represents the lists \<open>cs\<close> of node indices, one per record: the lists are the
  chains of the records, no node is in two places, exactly the linked nodes hold a callback, free
  nodes are unlinked, chains are in descending priority, and used names are distinct.
\<close>

definition cbr_inv :: "cbr_state \<Rightarrow> nat list list \<Rightarrow> bool" where
  "cbr_inv st cs \<longleftrightarrow>
     length cs = length (records st)
   \<and> (\<forall>r < length cs. path (nodes st) (rfirst (records st ! r)) (cs ! r))
   \<and> (\<forall>r < length cs. distinct (cs ! r))
   \<and> (\<forall>r < length cs. \<forall>q < length cs. r \<noteq> q \<longrightarrow> set (cs ! r) \<inter> set (cs ! q) = {})
   \<and> (\<forall>i < length (nodes st). cbr (nodes st ! i) \<noteq> 0 \<longleftrightarrow> (\<exists>r < length cs. i \<in> set (cs ! r)))
   \<and> (\<forall>i < length (nodes st). cbr (nodes st ! i) = 0 \<longrightarrow> nxt (nodes st ! i) = None)
   \<and> (\<forall>r < length cs. sorted_wrt (\<lambda>i j. priority (nodes st ! i) \<ge> priority (nodes st ! j)) (cs ! r))
   \<and> (\<forall>r < length cs. record_ok (records st ! r))
   \<and> (\<forall>r < length cs. rname (records st ! r) ! 0 = NUL \<longrightarrow> cs ! r = [])
   \<and> (\<forall>r < length cs. \<forall>q < length cs. rname (records st ! r) = rname (records st ! q) \<longrightarrow>
        rname (records st ! r) ! 0 \<noteq> NUL \<longrightarrow> r = q)"

definition cbr_wf :: "cbr_state \<Rightarrow> bool" where
  "cbr_wf st \<longleftrightarrow> (\<exists>cs. cbr_inv st cs)"

text \<open>The callbacks of an event with their priorities, as the debug listing walks them.\<close>

definition handlers :: "cbr_state \<Rightarrow> string \<Rightarrow> (u32 \<times> u32) list" where
  "handlers st event = (case debug_cbr_tree event st of Inl _ \<Rightarrow> [] | Inr hs \<Rightarrow> hs)"

text \<open>The abstract list operations: insertion after all entries of at least the priority, removal of the first entry, and a run up to the first callback that stops.\<close>

fun prio_insert :: "u32 \<times> u32 \<Rightarrow> (u32 \<times> u32) list \<Rightarrow> (u32 \<times> u32) list" where
  "prio_insert h [] = [h]"
| "prio_insert h (x # xs) = (if fst x < fst h then h # x # xs else x # prio_insert h xs)"

fun remove_first :: "u32 \<Rightarrow> (u32 \<times> u32) list \<Rightarrow> (u32 \<times> u32) list" where
  "remove_first f [] = []"
| "remove_first f (x # xs) = (if snd x = f then xs else x # remove_first f xs)"

fun run_handlers :: "(u32 \<Rightarrow> bool) \<Rightarrow> u32 list \<Rightarrow> u32 list" where
  "run_handlers stops [] = []"
| "run_handlers stops (f # fs) = (if stops f then [f] else f # run_handlers stops fs)"

definition lookup_record :: "cbr_state \<Rightarrow> string \<Rightarrow> nat option" where
  "lookup_record st ev = find_index (\<lambda>r. rname r = strncpy16 ev) (records st)"

text \<open>Where \<^verbatim>\<open>insert_cbr\<close> links a new node: after \<open>xs\<close>, before \<open>ys\<close>.\<close>

definition link_node :: "nat \<Rightarrow> nat \<Rightarrow> nat list \<Rightarrow> nat list \<Rightarrow> cbr_state \<Rightarrow> cbr_state" where
  "link_node r n xs ys st =
     (let st1 = (if xs = [] then set_first r (Some n) st else set_next (last xs) (Some n) st)
      in if ys = [] then st1 else set_next n (Some (hd ys)) st1)"

text \<open>Storing a callback in a free node and linking it into one chain.\<close>

definition store_node :: "nat \<Rightarrow> u32 \<Rightarrow> u32 \<Rightarrow> cbr_state \<Rightarrow> cbr_state" where
  "store_node n f prio st = st\<lparr>nodes := (nodes st)[n := (nodes st ! n)\<lparr>cbr := f, priority := prio\<rparr>]\<rparr>"

abbreviation payloads :: "cbr_state \<Rightarrow> nat list \<Rightarrow> (u32 \<times> u32) list" where
  "payloads st is \<equiv> map (\<lambda>i. payload (nodes st ! i)) is"

text \<open>What an insertion does: the node goes into the chain of record \<open>r\<close>, everything else stays.\<close>

definition inserted :: "nat \<Rightarrow> u32 \<Rightarrow> u32 \<Rightarrow> cbr_state \<Rightarrow> nat list list \<Rightarrow> cbr_state \<Rightarrow> nat list list \<Rightarrow> bool" where
  "inserted r f prio st cs st' cs' \<longleftrightarrow>
     cbr_inv st' cs' \<and> map rname (records st') = map rname (records st)
   \<and> payloads st' (cs' ! r) = prio_insert (prio, f) (payloads st (cs ! r))
   \<and> (\<forall>q < length cs. q \<noteq> r \<longrightarrow> payloads st' (cs' ! q) = payloads st (cs ! q))"

definition unlink_node :: "nat \<Rightarrow> nat list \<Rightarrow> nat \<Rightarrow> cbr_state \<Rightarrow> cbr_state" where
  "unlink_node r xs c st =
     (let after = nxt (nodes st ! c);
          st' = (if xs = [] then set_first r after st else set_next (last xs) after st)
      in st'\<lparr>nodes := (nodes st')[c := (nodes st' ! c)\<lparr>cbr := 0, nxt := None\<rparr>]\<rparr>)"

text \<open>The event has a record, or one is free.\<close>

definition has_record :: "cbr_state \<Rightarrow> string \<Rightarrow> bool" where
  "has_record st ev \<longleftrightarrow> lookup_record st ev \<noteq> None \<or> find_index (\<lambda>r. rname r ! 0 = NUL) (records st) \<noteq> None"

definition has_node :: "bool \<Rightarrow> cbr_state \<Rightarrow> bool" where
  "has_node node_ok st \<longleftrightarrow> find_free_node st \<noteq> None \<or> node_ok \<and> nodes st \<noteq> []"

text \<open>An event \<^verbatim>\<open>a\<close> with two entries, no free record, one free node.\<close>

definition sample_registry :: cbr_state where
  "sample_registry =
     \<lparr>nodes = [\<lparr>cbr = 7, priority = 9, nxt = Some 1\<rparr>, \<lparr>cbr = 7, priority = 4, nxt = None\<rparr>, node_zero],
      records = [\<lparr>rname = strncpy16 ''a'', rfirst = Some 0\<rparr>]\<rparr>"

section \<open>Facts\<close>

subsection \<open>Names\<close>

lemma length_strncpy16 [simp]: "length (strncpy16 s) = 16"
  by (simp add: strncpy16_def)

lemma strncpy16_short: "length s \<le> 15 \<Longrightarrow> strncpy16 s = s @ replicate (16 - length s) NUL"
  by (simp add: strncpy16_def)

lemma takeWhile_strncpy16:
  assumes "length s \<le> 15" and "NUL \<notin> set s"
  shows "takeWhile (\<lambda>c. c \<noteq> NUL) (strncpy16 s) = s"
proof -
  have "16 - length s = Suc (15 - length s)" using assms(1) by simp
  moreover have "takeWhile (\<lambda>c. c \<noteq> NUL) (s @ NUL # t) = s" for t
    using assms(2) by (induction s) auto
  ultimately show ?thesis using assms(1) by (simp add: strncpy16_short)
qed

lemma event_okD:
  assumes "event_ok s"
  shows "length s \<le> 15" and "NUL \<notin> set s" and "s \<noteq> []"
  using assms by (simp_all add: event_ok_def)

lemma name_ok_takeWhile:
  assumes "s = [] \<or> event_ok s"
  shows "takeWhile (\<lambda>c. c \<noteq> NUL) (strncpy16 s) = s" and "length s < 16"
proof -
  have "length s \<le> 15" "NUL \<notin> set s" using assms event_okD by fastforce+
  then show "takeWhile (\<lambda>c. c \<noteq> NUL) (strncpy16 s) = s" "length s < 16"
    by (simp_all add: takeWhile_strncpy16)
qed

lemma strncpy16_inj:
  assumes "s = [] \<or> event_ok s" and "t = [] \<or> event_ok t" and "strncpy16 s = strncpy16 t"
  shows "s = t"
  using name_ok_takeWhile(1) [OF assms(1)] name_ok_takeWhile(1) [OF assms(2)] assms(3) by metis

lemma fast_compare_ok:
  assumes "event_ok ev" and "record_ok r"
  shows "fast_compare ev (rname r) = Some (rname r = strncpy16 ev)"
proof -
  obtain s where s: "s = [] \<or> event_ok s" "rname r = strncpy16 s"
    using assms(2) by (auto simp: record_ok_def)
  have "fast_compare ev (rname r) = Some (ev = s)"
    using name_ok_takeWhile [OF s(1)] s(2) by (simp add: fast_compare_def)
  moreover have "ev = s \<longleftrightarrow> rname r = strncpy16 ev"
    using s strncpy16_inj [of s ev] assms(1) by auto
  ultimately show ?thesis by simp
qed

lemma strncpy16_nonfree: "event_ok ev \<Longrightarrow> strncpy16 ev ! 0 \<noteq> NUL"
  by (cases ev) (auto simp: event_ok_def strncpy16_def)

lemma scan_records_found:
  assumes "event_ok ev" and "list_all record_ok rs" and "find_index (\<lambda>r. rname r = strncpy16 ev) rs = Some k"
  shows "\<exists>ff'. scan_records ev return_new i ff rs = Inr (Some (i + k), ff')"
  using assms(2,3)
proof (induction rs arbitrary: i ff k)
  case Nil
  then show ?case by simp
next
  case (Cons r rs)
  show ?case
  proof (cases "rname r = strncpy16 ev")
    case True
    then show ?thesis
      using Cons.prems fast_compare_ok [OF assms(1), of r] strncpy16_nonfree [OF assms(1)] by simp
  next
    case False
    then obtain k' where k: "find_index (\<lambda>r. rname r = strncpy16 ev) rs = Some k'" "k = Suc k'"
      using Cons.prems by auto
    have rs: "list_all record_ok rs" using Cons.prems by simp
    show ?thesis
      using False Cons.prems(1) fast_compare_ok [OF assms(1), of r] Cons.IH [OF rs k(1), of "Suc i"] k(2) by simp
  qed
qed

lemma scan_records_missing:
  assumes "event_ok ev" and "list_all record_ok rs" and "find_index (\<lambda>r. rname r = strncpy16 ev) rs = None"
  shows "scan_records ev return_new i ff rs = Inr (None,
    if return_new \<and> ff = None then map_option (\<lambda>k. i + k) (find_index (\<lambda>r. rname r ! 0 = NUL) rs) else ff)"
  using assms(2,3)
proof (induction rs arbitrary: i ff)
  case Nil
  then show ?case by simp
next
  case (Cons r rs)
  have rs: "list_all record_ok rs" "find_index (\<lambda>r. rname r = strncpy16 ev) rs = None" "rname r \<noteq> strncpy16 ev"
    using Cons.prems by (auto split: if_splits)
  show ?case
    using rs(3) Cons.prems(1) fast_compare_ok [OF assms(1), of r] Cons.IH [OF rs(1,2)]
    by (cases "find_index (\<lambda>r. rname r ! 0 = NUL) rs") auto
qed

lemma find_record_eq:
  assumes "event_ok ev" and "list_all record_ok (records st)"
  shows "find_record ev return_new st =
    (case lookup_record st ev of
       Some r \<Rightarrow> Inr (Some r, st)
     | None \<Rightarrow> (case (if return_new then find_index (\<lambda>r. rname r ! 0 = NUL) (records st) else None) of
         Some k \<Rightarrow> Inr (Some k, st\<lparr>records := (records st)[k := \<lparr>rname = strncpy16 ev, rfirst = None\<rparr>]\<rparr>)
       | None \<Rightarrow> Inr (None, st)))"
proof (cases "lookup_record st ev")
  case None
  then have "scan_records ev return_new 0 None (records st) = Inr (None,
      if return_new then find_index (\<lambda>r. rname r ! 0 = NUL) (records st) else None)"
    using scan_records_missing [OF assms, of return_new 0 None]
    by (cases "find_index (\<lambda>r. rname r ! 0 = NUL) (records st)") (simp_all add: lookup_record_def)
  with None show ?thesis by (auto simp: find_record_def split: option.splits)
next
  case (Some r)
  then obtain ff where "scan_records ev return_new 0 None (records st) = Inr (Some r, ff)"
    using scan_records_found [OF assms, of r return_new 0 None] by (auto simp: lookup_record_def)
  with Some show ?thesis by (simp add: find_record_def)
qed

subsection \<open>Chains\<close>

lemma path_upd: "i \<notin> set is \<Longrightarrow> path (ns[i := x]) p is = path ns p is"
  by (induction "is" arbitrary: p) auto

lemma path_append: "path ns p is \<Longrightarrow> path (ns @ ms) p is"
  by (induction "is" arbitrary: p) (auto simp: nth_append)

lemma path_bound: "path ns p is \<Longrightarrow> set is \<subseteq> {..<length ns}"
  by (induction "is" arbitrary: p) auto

lemma path_length: "path ns p is \<Longrightarrow> distinct is \<Longrightarrow> length is \<le> length ns"
  using path_bound [of ns p "is"] card_mono [of "{..<length ns}" "set is"] by (simp add: distinct_card)

lemma path_last: "path ns p (is @ [i]) \<Longrightarrow> nxt (ns ! i) = None"
  by (induction "is" arbitrary: p) auto


text \<open>Redirecting the last pointer of a prefix splices another tail.\<close>

lemma path_splice:
  assumes "path ns p (xs @ ys)" and "distinct (xs @ ys)" and "xs \<noteq> []"
    and "last xs \<notin> set zs" and "path ns q zs"
  shows "path (ns[last xs := (ns ! last xs)\<lparr>nxt := q\<rparr>]) p (xs @ zs)"
  using assms(1-4)
proof (induction xs arbitrary: p)
  case Nil
  then show ?case by simp
next
  case (Cons x xs)
  show ?case
  proof (cases "xs = []")
    case True
    then show ?thesis using Cons.prems assms(5) by (simp add: path_upd)
  next
    case False
    have "x \<noteq> last xs" using Cons.prems False last_in_set [OF False] by auto
    then show ?thesis using Cons.IH [of "nxt (ns ! x)"] Cons.prems False by simp
  qed
qed

lemma debug_walk_path:
  "path (nodes st) p is \<Longrightarrow> length is \<le> fuel \<Longrightarrow>
   debug_walk fuel st p = Inr (map (\<lambda>i. payload (nodes st ! i)) is)"
proof (induction "is" arbitrary: p fuel)
  case Nil
  then show ?case by simp
next
  case (Cons i "is")
  then obtain f where "fuel = Suc f" by (cases fuel) auto
  then show ?case using Cons by (simp add: payload_def)
qed

lemma notify_walk_path:
  "path (nodes st) p is \<Longrightarrow> length is \<le> fuel \<Longrightarrow> (\<forall>i \<in> set is. cbr (nodes st ! i) \<noteq> 0) \<Longrightarrow>
   notify_walk stops fuel st p = Inr (run_handlers stops (map (\<lambda>i. cbr (nodes st ! i)) is))"
proof (induction "is" arbitrary: p fuel)
  case Nil
  then show ?case by simp
next
  case (Cons i "is")
  then obtain f where "fuel = Suc f" by (cases fuel) auto
  then show ?case using Cons by simp
qed

lemma insert_walk_links:
  assumes "path (nodes st) (Some c) (c # suf)" and "length suf < fuel"
    and "\<forall>i \<in> set pre. \<not> priority (nodes st ! i) < prio"
    and "prev = (if pre = [] then None else Some (last pre))"
  shows "\<exists>xs ys. pre @ c # suf = xs @ ys \<and> (\<forall>i \<in> set xs. \<not> priority (nodes st ! i) < prio)
    \<and> (ys \<noteq> [] \<longrightarrow> priority (nodes st ! hd ys) < prio)
    \<and> insert_walk fuel r n prio c prev st = Inr (0, link_node r n xs ys st)"
  using assms
proof (induction suf arbitrary: c pre prev fuel)
  case Nil
  then obtain f where f: "fuel = Suc f" by (cases fuel) auto
  show ?case
  proof (cases "priority (nodes st ! c) < prio")
    case True
    have "insert_walk fuel r n prio c prev st = Inr (0, link_node r n pre [c] st)"
      using True f Nil.prems(4) by (simp add: link_node_def)
    with True Nil.prems(3) show ?thesis by (intro exI [of _ pre] exI [of _ "[c]"]) simp
  next
    case False
    have "insert_walk fuel r n prio c prev st = Inr (0, link_node r n (pre @ [c]) [] st)"
      using False f Nil.prems(1) by (simp add: link_node_def)
    with False Nil.prems(3) show ?thesis by (intro exI [of _ "pre @ [c]"] exI [of _ "[]"]) auto
  qed
next
  case (Cons d suf)
  then obtain f where f: "fuel = Suc f" by (cases fuel) auto
  show ?case
  proof (cases "priority (nodes st ! c) < prio")
    case True
    have "insert_walk fuel r n prio c prev st = Inr (0, link_node r n pre (c # d # suf) st)"
      using True f Cons.prems(4) by (simp add: link_node_def)
    with True Cons.prems(3) show ?thesis by (intro exI [of _ pre] exI [of _ "c # d # suf"]) simp
  next
    case False
    have nx: "nxt (nodes st ! c) = Some d" and p: "path (nodes st) (Some d) (d # suf)"
      using Cons.prems(1) by simp_all
    have "insert_walk fuel r n prio c prev st = insert_walk f r n prio d (Some c) st"
      using False f nx by simp
    then show ?thesis
      using Cons.IH [of d f "pre @ [c]" "Some c"] p Cons.prems False f by auto
  qed
qed

lemma nth_update_if: "xs[i := x] ! j = (if i = j \<and> j < length xs then x else xs ! j)"
  by (cases "i = j"; cases "j < length xs") (simp_all add: list_update_beyond)

lemma path_suffix: "path ns p (xs @ ys) \<Longrightarrow> xs \<noteq> [] \<Longrightarrow> path ns (nxt (ns ! last xs)) ys"
  by (induction xs arbitrary: p) (auto split: if_splits)

lemma path_cong:
  "path ns p is \<Longrightarrow> (\<forall>i \<in> set is. i < length ms \<and> nxt (ms ! i) = nxt (ns ! i)) \<Longrightarrow> path ms p is"
  by (induction "is" arbitrary: p) auto

lemma link_node_path:
  assumes "path (nodes st) (rfirst (records st ! r)) (xs @ ys)" and "distinct (xs @ ys)"
    and "n \<notin> set (xs @ ys)" and "n < length (nodes st)" and "nxt (nodes st ! n) = None" and "r < length (records st)"
  shows "path (nodes (link_node r n xs ys st)) (rfirst (records (link_node r n xs ys st) ! r)) (xs @ n # ys)"
proof -
  define ms where "ms = (if ys = [] then nodes st else (nodes st)[n := (nodes st ! n)\<lparr>nxt := Some (hd ys)\<rparr>])"
  have n: "n < length ms" "nxt (ms ! n) = (if ys = [] then None else Some (hd ys))"
    using assms(4,5) by (simp_all add: ms_def)
  have upd: "path ms p zs \<longleftrightarrow> path (nodes st) p zs" if "n \<notin> set zs" for p zs
    using that by (simp add: ms_def path_upd)
  have tail: "path ms (Some n) (n # ys)" if "path (nodes st) q ys" for q
    using that n assms(3) upd [of ys] by (cases ys) auto
  show ?thesis
  proof (cases "xs = []")
    case True
    then show ?thesis
      using tail [of "rfirst (records st ! r)"] assms(1,4,6)
      by (simp add: link_node_def set_first_def set_next_def ms_def Let_def split: if_splits)
  next
    case False
    have "n \<noteq> last xs" using assms(3) False last_in_set [OF False] by auto
    then have eq: "nodes (link_node r n xs ys st) = ms[last xs := (ms ! last xs)\<lparr>nxt := Some n\<rparr>]"
      using False by (auto simp: link_node_def set_next_def ms_def Let_def list_update_swap)
    have rec: "records (link_node r n xs ys st) = records st"
      using False by (simp add: link_node_def set_next_def Let_def)
    have "path ms (Some n) (n # ys)" using tail path_suffix [OF assms(1) False] by blast
    moreover have "path ms (rfirst (records st ! r)) (xs @ ys)" using upd assms(1,3) by blast
    moreover have "last xs \<notin> set (n # ys)"
      using \<open>n \<noteq> last xs\<close> assms(2) last_in_set [OF False] by auto
    ultimately show ?thesis
      unfolding eq rec using path_splice [OF _ assms(2) False] by blast
  qed
qed

lemma link_node_frame:
  "length (nodes (link_node r n xs ys st)) = length (nodes st)"
  "cbr (nodes (link_node r n xs ys st) ! i) = cbr (nodes st ! i)"
  "priority (nodes (link_node r n xs ys st) ! i) = priority (nodes st ! i)"
  "i \<noteq> n \<Longrightarrow> i \<notin> set xs \<Longrightarrow> nodes (link_node r n xs ys st) ! i = nodes st ! i"
  "length (records (link_node r n xs ys st)) = length (records st)"
  "rname (records (link_node r n xs ys st) ! q) = rname (records st ! q)"
  "q \<noteq> r \<Longrightarrow> records (link_node r n xs ys st) ! q = records st ! q"
  by (auto simp: link_node_def set_first_def set_next_def Let_def nth_update_if last_in_set)

lemma cbr_invD:
  assumes "cbr_inv st cs" and "r < length (records st)"
  shows "path (nodes st) (rfirst (records st ! r)) (cs ! r)" "distinct (cs ! r)"
    "sorted_wrt (\<lambda>i j. priority (nodes st ! i) \<ge> priority (nodes st ! j)) (cs ! r)"
    "record_ok (records st ! r)" "i \<in> set (cs ! r) \<Longrightarrow> i < length (nodes st) \<and> cbr (nodes st ! i) \<noteq> 0"
proof -
  show p: "path (nodes st) (rfirst (records st ! r)) (cs ! r)" and "distinct (cs ! r)" and
    "sorted_wrt (\<lambda>i j. priority (nodes st ! i) \<ge> priority (nodes st ! j)) (cs ! r)" and
    "record_ok (records st ! r)"
    using assms by (simp_all add: cbr_inv_def)
  show "i < length (nodes st) \<and> cbr (nodes st ! i) \<noteq> 0" if "i \<in> set (cs ! r)"
  proof -
    have "i < length (nodes st)" using path_bound [OF p] that by auto
    moreover have "r < length cs" using assms by (simp add: cbr_inv_def)
    ultimately show ?thesis using assms(1) that by (auto simp: cbr_inv_def)
  qed
qed

lemma cbr_inv_names: "cbr_inv st cs \<Longrightarrow> \<forall>r \<in> set (records st). record_ok r"
  by (auto simp: cbr_inv_def in_set_conv_nth)

lemma store_node_simps [simp]:
  "records (store_node n f prio st) = records st"
  "length (nodes (store_node n f prio st)) = length (nodes st)"
  "nxt (nodes (store_node n f prio st) ! i) = nxt (nodes st ! i)"
  "i \<noteq> n \<Longrightarrow> nodes (store_node n f prio st) ! i = nodes st ! i"
  "n < length (nodes st) \<Longrightarrow> cbr (nodes (store_node n f prio st) ! n) = f"
  "n < length (nodes st) \<Longrightarrow> priority (nodes (store_node n f prio st) ! n) = prio"
  by (auto simp: store_node_def nth_update_if)

lemma ex_chain_insert:
  assumes "r < length cs" and "set zs = insert n (set (cs ! r))"
  shows "(\<exists>q < length cs. i \<in> set (cs[r := zs] ! q)) \<longleftrightarrow> i = n \<or> (\<exists>q < length cs. i \<in> set (cs ! q))"
    (is "?L \<longleftrightarrow> ?R")
proof
  assume ?L
  then obtain q where "q < length cs" "i \<in> set (cs[r := zs] ! q)" by blast
  then show ?R using assms by (cases "q = r") auto
next
  assume ?R
  then consider "i = n" | q where "q < length cs" "i \<in> set (cs ! q)" by blast
  then show ?L
  proof cases
    case 1
    then have "i \<in> set (cs[r := zs] ! r)" using assms by simp
    then show ?thesis using assms(1) by blast
  next
    case 2
    then have "i \<in> set (cs[r := zs] ! q)" using assms by (cases "q = r") auto
    then show ?thesis using 2 by blast
  qed
qed

lemma inv_link:
  assumes inv: "cbr_inv st cs" and r: "r < length (records st)" and xy: "cs ! r = xs @ ys"
    and n: "n < length (nodes st)" "cbr (nodes st ! n) = 0" and f: "f \<noteq> 0"
    and used: "rname (records st ! r) ! 0 \<noteq> NUL"
    and ge: "\<forall>i \<in> set xs. priority (nodes st ! i) \<ge> prio" and le: "\<forall>i \<in> set ys. priority (nodes st ! i) \<le> prio"
  shows "cbr_inv (link_node r n xs ys (store_node n f prio st)) (cs[r := xs @ n # ys])"
proof -
  let ?s = "store_node n f prio st" and ?t = "link_node r n xs ys (store_node n f prio st)"
  have len: "length cs = length (records st)" using inv by (simp add: cbr_inv_def)
  have nn: "n \<notin> set (cs ! q)" if "q < length cs" for q
    using cbr_invD(5) [OF inv, of q n] that n len by auto
  have nn_r: "n \<notin> set (xs @ ys)" using nn [of r] r len xy by simp
  have disj: "set (cs ! r) \<inter> set (cs ! q) = {}" if "q < length cs" "q \<noteq> r" for q
    using inv that r len unfolding cbr_inv_def by metis
  have dist: "distinct (xs @ ys)" using cbr_invD(2) [OF inv r] xy by simp
  have pay: "cbr (nodes ?t ! i) = (if i = n then f else cbr (nodes st ! i))"
    "priority (nodes ?t ! i) = (if i = n then prio else priority (nodes st ! i))" for i
    using n by (simp_all add: link_node_frame)
  have path0: "path (nodes ?s) (rfirst (records st ! q)) (cs ! q)" if "q < length cs" for q
    using cbr_invD(1,5) [OF inv, of q] that len by (auto intro: path_cong)
  have paths: "path (nodes ?t) (rfirst (records ?t ! q)) (cs[r := xs @ n # ys] ! q)" if q: "q < length cs" for q
  proof (cases "q = r")
    case True
    have "nxt (nodes st ! n) = None" using inv n by (auto simp: cbr_inv_def)
    then show ?thesis
      using True link_node_path [of ?s r xs ys n] path0 [OF q] xy dist nn_r n r len by simp
  next
    case False
    have "nodes ?t ! i = nodes ?s ! i" if "i \<in> set (cs ! q)" for i
      using that nn [OF q] disj [OF q False] xy by (intro link_node_frame) auto
    then have "path (nodes ?t) (rfirst (records st ! q)) (cs ! q)"
      using path_cong [OF path0 [OF q]] cbr_invD(5) [OF inv, of q] q len by (simp add: link_node_frame)
    then show ?thesis using False by (simp add: link_node_frame)
  qed
  have mem: "(\<exists>q < length cs. i \<in> set (cs[r := xs @ n # ys] ! q)) \<longleftrightarrow> i = n \<or> (\<exists>q < length cs. i \<in> set (cs ! q))" for i
    using ex_chain_insert [of r cs "xs @ n # ys" n i] r len xy by auto
  have sorted: "sorted_wrt (\<lambda>i j. priority (nodes ?t ! i) \<ge> priority (nodes ?t ! j)) (cs[r := xs @ n # ys] ! q)"
    if q: "q < length cs" for q
  proof -
    have old: "sorted_wrt (\<lambda>i j. priority (nodes ?t ! i) \<ge> priority (nodes ?t ! j)) (cs ! q)"
    proof (rule sorted_wrt_mono_rel)
      show "sorted_wrt (\<lambda>i j. priority (nodes st ! i) \<ge> priority (nodes st ! j)) (cs ! q)"
        using cbr_invD(3) [OF inv, of q] q len by simp
    qed (use nn [OF q] in \<open>auto simp: pay\<close>)
    have "\<forall>i \<in> set xs. priority (nodes ?t ! n) \<le> priority (nodes ?t ! i)"
      "\<forall>i \<in> set ys. priority (nodes ?t ! i) \<le> priority (nodes ?t ! n)"
      using ge le by (simp_all add: pay)
    then show ?thesis
      using old xy q by (cases "q = r") (simp_all add: sorted_wrt_append)
  qed
  have disj': "set (cs[r := xs @ n # ys] ! p) \<inter> set (cs[r := xs @ n # ys] ! q) = {}"
    if "p < length cs" "q < length cs" "p \<noteq> q" for p q
  proof -
    have "set (cs ! p) \<inter> set (cs ! q) = {}" using inv that by (simp add: cbr_inv_def)
    then show ?thesis using that nn xy by (auto simp: nth_update_if)
  qed
  have free: "nxt (nodes ?t ! i) = None" if "i < length (nodes st)" "i \<noteq> n" "cbr (nodes st ! i) = 0" for i
  proof -
    have "i \<notin> set xs" using cbr_invD(5) [OF inv r, of i] that xy by auto
    then show ?thesis using inv that by (simp add: link_node_frame cbr_inv_def)
  qed
  show ?thesis
    unfolding cbr_inv_def
  proof (intro conjI allI impI)
    show "length (cs[r := xs @ n # ys]) = length (records ?t)" using len by (simp add: link_node_frame)
  next
    fix q assume "q < length (cs[r := xs @ n # ys])"
    then show "distinct (cs[r := xs @ n # ys] ! q)"
      using inv dist nn_r by (auto simp: nth_update_if cbr_inv_def)
  next
    fix i assume "i < length (nodes ?t)"
    then show "(cbr (nodes ?t ! i) \<noteq> 0) = (\<exists>q < length (cs[r := xs @ n # ys]). i \<in> set (cs[r := xs @ n # ys] ! q))"
      using inv f mem [of i] pay(1) [of i] by (simp add: link_node_frame cbr_inv_def)
  next
    fix i assume "i < length (nodes ?t)" "cbr (nodes ?t ! i) = 0"
    then show "nxt (nodes ?t ! i) = None"
      using free f pay(1) [of i] by (simp add: link_node_frame split: if_splits)
  next
    fix q assume "q < length (cs[r := xs @ n # ys])"
    then show "record_ok (records ?t ! q)"
      using cbr_invD(4) [OF inv, of q] len by (simp add: link_node_frame record_ok_def)
  next
    fix q assume "q < length (cs[r := xs @ n # ys])" "rname (records ?t ! q) ! 0 = NUL"
    then show "cs[r := xs @ n # ys] ! q = []"
      using inv used by (auto simp: link_node_frame nth_update_if cbr_inv_def)
  next
    fix p q assume "p < length (cs[r := xs @ n # ys])" "q < length (cs[r := xs @ n # ys])"
      "rname (records ?t ! p) = rname (records ?t ! q)" "rname (records ?t ! p) ! 0 \<noteq> NUL"
    then show "p = q"
      using inv by (simp add: link_node_frame cbr_inv_def)
  qed (use paths disj' sorted in simp_all)
qed

lemma cbr_inv_records: "cbr_inv st cs \<Longrightarrow> list_all record_ok (records st) \<and> length cs = length (records st)"
  by (auto simp: cbr_inv_def list_all_length)

lemma lookup_recordD:
  assumes "lookup_record st ev = Some r"
  shows "r < length (records st)" and "rname (records st ! r) = strncpy16 ev"
  using find_index_SomeD [OF assms [unfolded lookup_record_def]] by simp_all

lemma cbr_inv_chain_length:
  "cbr_inv st cs \<Longrightarrow> r < length (records st) \<Longrightarrow> length (cs ! r) \<le> Suc (length (nodes st))"
  using path_length [OF cbr_invD(1,2)] by fastforce

lemma debug_cbr_tree_eq:
  assumes "cbr_inv st cs" and "event_ok ev"
  shows "debug_cbr_tree ev st = (case lookup_record st ev of None \<Rightarrow> Inl Null_deref | Some r \<Rightarrow> Inr (payloads st (cs ! r)))"
proof (cases "lookup_record st ev")
  case None
  then show ?thesis using find_record_eq assms cbr_inv_records by (simp add: debug_cbr_tree_def)
next
  case (Some r)
  note r = lookup_recordD(1) [OF Some]
  show ?thesis
    using Some find_record_eq assms cbr_inv_records
      debug_walk_path [OF cbr_invD(1) [OF assms(1) r] cbr_inv_chain_length [OF assms(1) r]]
    by (simp add: debug_cbr_tree_def)
qed

lemma handlers_eq:
  assumes "cbr_inv st cs" and "event_ok ev"
  shows "handlers st ev = (case lookup_record st ev of None \<Rightarrow> [] | Some r \<Rightarrow> payloads st (cs ! r))"
  using debug_cbr_tree_eq [OF assms] by (simp add: handlers_def split: option.splits)

lemma notify_eq:
  assumes "cbr_inv st cs" and "event_ok ev"
  shows "ml_notify_cbr stops ev st = Inr (run_handlers stops (map snd (handlers st ev)))"
proof (cases "lookup_record st ev")
  case None
  then show ?thesis
    using find_record_eq handlers_eq assms cbr_inv_records by (simp add: ml_notify_cbr_def)
next
  case (Some r)
  note r = lookup_recordD(1) [OF Some]
  have "map snd (handlers st ev) = map (\<lambda>i. cbr (nodes st ! i)) (cs ! r)"
    using Some handlers_eq [OF assms] by (simp add: payload_def o_def)
  then show ?thesis
    using Some find_record_eq assms cbr_inv_records cbr_invD(5) [OF assms(1) r]
      notify_walk_path [OF cbr_invD(1) [OF assms(1) r] cbr_inv_chain_length [OF assms(1) r]]
    by (simp add: ml_notify_cbr_def)
qed

subsection \<open>Registering\<close>

lemma inv_more_nodes:
  assumes "cbr_inv st cs"
  shows "cbr_inv (st\<lparr>nodes := nodes st @ replicate k node_zero\<rparr>) cs"
proof -
  let ?s = "st\<lparr>nodes := nodes st @ replicate k node_zero\<rparr>"
  have old: "nodes ?s ! i = nodes st ! i" if "i \<in> set (cs ! r)" "r < length cs" for i r
    using cbr_invD(5) [OF assms, of r i] that assms by (simp add: nth_append cbr_inv_def)
  have new: "nodes ?s ! i = node_zero" if "\<not> i < length (nodes st)" "i < length (nodes ?s)" for i
    using that by (simp add: nth_append)
  have srt: "sorted_wrt (\<lambda>i j. priority (nodes ?s ! i) \<ge> priority (nodes ?s ! j)) (cs ! r)" if "r < length cs" for r
  proof (rule sorted_wrt_mono_rel)
    show "sorted_wrt (\<lambda>i j. priority (nodes st ! i) \<ge> priority (nodes st ! j)) (cs ! r)"
      using assms that by (simp add: cbr_inv_def)
  qed (use old that in auto)
  have used: "(cbr (nodes ?s ! i) \<noteq> 0) = (\<exists>r < length cs. i \<in> set (cs ! r))"
    "cbr (nodes ?s ! i) = 0 \<longrightarrow> nxt (nodes ?s ! i) = None" if "i < length (nodes ?s)" for i
  proof -
    have "\<not> (\<exists>r < length cs. i \<in> set (cs ! r))" if "\<not> i < length (nodes st)"
      using that cbr_invD(5) [OF assms, of _ i] assms unfolding cbr_inv_def by auto
    then show "(cbr (nodes ?s ! i) \<noteq> 0) = (\<exists>r < length cs. i \<in> set (cs ! r))"
      "cbr (nodes ?s ! i) = 0 \<longrightarrow> nxt (nodes ?s ! i) = None"
      using new [of i] that assms
      by (cases "i < length (nodes st)"; simp add: node_zero_def nth_append cbr_inv_def)+
  qed
  have "\<forall>r < length cs. path (nodes ?s) (rfirst (records ?s ! r)) (cs ! r)"
    using assms path_append by (simp add: cbr_inv_def)
  then show ?thesis
    using assms srt used unfolding cbr_inv_def by simp
qed

lemma inv_more_records:
  assumes "cbr_inv st cs"
  shows "cbr_inv (st\<lparr>records := records st @ replicate k record_zero\<rparr>) (cs @ replicate k [])"
proof -
  have ok: "record_ok record_zero"
    by (auto simp: record_ok_def record_zero_def strncpy16_def intro!: exI [of _ "[]"])
  have mem: "(\<exists>r < length cs + k. i \<in> set ((cs @ replicate k []) ! r)) \<longleftrightarrow> (\<exists>r < length cs. i \<in> set (cs ! r))" for i
  proof
    assume "\<exists>r < length cs + k. i \<in> set ((cs @ replicate k []) ! r)"
    then obtain r where "r < length cs + k" "i \<in> set ((cs @ replicate k []) ! r)" by blast
    then show "\<exists>r < length cs. i \<in> set (cs ! r)" by (cases "r < length cs") (auto simp: nth_append)
  next
    assume "\<exists>r < length cs. i \<in> set (cs ! r)"
    then obtain r where "r < length cs" "i \<in> set (cs ! r)" by blast
    then show "\<exists>r < length cs + k. i \<in> set ((cs @ replicate k []) ! r)"
      by (intro exI [of _ r]) (simp add: nth_append)
  qed
  show ?thesis
    unfolding cbr_inv_def
  proof (intro conjI allI impI)
    fix i assume "i < length (nodes (st\<lparr>records := records st @ replicate k record_zero\<rparr>))"
    then show "(cbr (nodes (st\<lparr>records := records st @ replicate k record_zero\<rparr>) ! i) \<noteq> 0) =
        (\<exists>r < length (cs @ replicate k []). i \<in> set ((cs @ replicate k []) ! r))"
      using assms mem [of i] by (simp add: cbr_inv_def)
  next
    fix p q
    assume "p < length (cs @ replicate k [])" "q < length (cs @ replicate k [])" "p \<noteq> q"
    then show "set ((cs @ replicate k []) ! p) \<inter> set ((cs @ replicate k []) ! q) = {}"
      using assms by (cases "p < length cs"; cases "q < length cs") (simp_all add: nth_append cbr_inv_def)
  next
    fix p q
    assume *: "p < length (cs @ replicate k [])" "q < length (cs @ replicate k [])"
      "rname (records (st\<lparr>records := records st @ replicate k record_zero\<rparr>) ! p) =
       rname (records (st\<lparr>records := records st @ replicate k record_zero\<rparr>) ! q)"
      "rname (records (st\<lparr>records := records st @ replicate k record_zero\<rparr>) ! p) ! 0 \<noteq> NUL"
    have "length cs = length (records st)" using assms by (simp add: cbr_inv_def)
    then have named: "i < length cs" if "i < length (cs @ replicate k [])"
      "rname (records (st\<lparr>records := records st @ replicate k record_zero\<rparr>) ! i) ! 0 \<noteq> NUL" for i
      using that by (simp add: nth_append record_zero_def split: if_splits)
    have "p < length cs" "q < length cs"
      using named [of p] named [of q] * by simp_all
    then show "p = q" using * assms by (simp add: nth_append cbr_inv_def)
  next
    fix r assume "r < length (cs @ replicate k [])" "rname (records (st\<lparr>records := records st @ replicate k record_zero\<rparr>) ! r) ! 0 = NUL"
    then show "(cs @ replicate k []) ! r = []"
      using assms by (cases "r < length cs") (simp_all add: nth_append cbr_inv_def)
  qed (use assms ok in \<open>simp_all add: nth_append cbr_inv_def record_zero_def\<close>)
qed

lemma inv_name_record:
  assumes "cbr_inv st cs" and "event_ok ev" and "lookup_record st ev = None"
    and "k < length (records st)" and "rname (records st ! k) ! 0 = NUL"
  shows "cbr_inv (st\<lparr>records := (records st)[k := \<lparr>rname = strncpy16 ev, rfirst = None\<rparr>]\<rparr>) cs"
proof -
  have k: "cs ! k = []" using assms by (simp add: cbr_inv_def)
  have no: "rname (records st ! q) \<noteq> strncpy16 ev" if "q < length (records st)" for q
    using assms(3) that by (simp add: lookup_record_def find_index_None)
  have ok: "record_ok \<lparr>rname = strncpy16 ev, rfirst = None\<rparr>" using assms(2) by (auto simp: record_ok_def)
  show ?thesis
    using assms(1) k no ok strncpy16_nonfree [OF assms(2)] unfolding cbr_inv_def
    by (simp add: nth_update_if) metis
qed

lemma prio_insert_split:
  assumes "\<forall>x \<in> set xs. \<not> fst x < fst h" and "ys \<noteq> [] \<longrightarrow> fst (hd ys) < fst h"
  shows "prio_insert h (xs @ ys) = xs @ h # ys"
  using assms(1)
proof (induction xs)
  case Nil
  then show ?case using assms(2) by (cases ys) simp_all
next
  case (Cons x xs)
  then show ?case by simp
qed

lemma inserted_link:
  assumes inv: "cbr_inv st cs" and r: "r < length (records st)" and xy: "cs ! r = xs @ ys"
    and n: "n < length (nodes st)" "cbr (nodes st ! n) = 0" and f: "f \<noteq> 0"
    and used: "rname (records st ! r) ! 0 \<noteq> NUL"
    and ge: "\<forall>i \<in> set xs. \<not> priority (nodes st ! i) < prio" and hd: "ys \<noteq> [] \<longrightarrow> priority (nodes st ! hd ys) < prio"
  shows "inserted r f prio st cs (link_node r n xs ys (store_node n f prio st)) (cs[r := xs @ n # ys])"
proof -
  let ?t = "link_node r n xs ys (store_node n f prio st)"
  have len: "length cs = length (records st)" using inv by (simp add: cbr_inv_def)
  have "sorted_wrt (\<lambda>i j. priority (nodes st ! i) \<ge> priority (nodes st ! j)) ys"
    using cbr_invD(3) [OF inv r] xy by (simp add: sorted_wrt_append)
  then have le: "\<forall>i \<in> set ys. priority (nodes st ! i) \<le> prio"
    using hd by (cases ys) fastforce+
  have ge': "\<forall>i \<in> set xs. priority (nodes st ! i) \<ge> prio" using ge by (simp add: not_less)
  have pay1: "payload (nodes ?t ! i) = payload (nodes st ! i)" if "i \<noteq> n" for i
    using that by (simp add: payload_def link_node_frame)
  have pay: "payloads ?t is = payloads st is" if "n \<notin> set is" for "is"
    using that by (intro map_cong [OF refl] pay1) auto
  have payn: "payload (nodes ?t ! n) = (prio, f)" using n by (simp add: payload_def link_node_frame)
  have nn: "n \<notin> set (cs ! q)" if "q < length cs" for q
    using cbr_invD(5) [OF inv, of q n] that n len by auto
  have "prio_insert (prio, f) (payloads st xs @ payloads st ys) = payloads st xs @ (prio, f) # payloads st ys"
    using ge hd by (intro prio_insert_split) (auto simp: payload_def hd_map)
  then have "payloads ?t (xs @ n # ys) = prio_insert (prio, f) (payloads st (cs ! r))"
    using pay [of xs] pay [of ys] nn [of r] r len xy payn by simp
  then show ?thesis
    using inv_link [OF inv r xy n f used ge' le] nn pay r len
    by (auto simp: inserted_def link_node_frame intro!: nth_equalityI)
qed

lemma inserted_free_node:
  assumes inv: "cbr_inv st cs" and r: "r < length (records st)" and f: "f \<noteq> 0"
    and used: "rname (records st ! r) ! 0 \<noteq> NUL" and n: "n < length (nodes st)" "cbr (nodes st ! n) = 0"
  shows "\<exists>st' cs'. (case rfirst (records (store_node n f prio st) ! r) of
            None \<Rightarrow> Inr (0, set_first r (Some n) (store_node n f prio st))
          | Some c \<Rightarrow> insert_walk (length (nodes (store_node n f prio st))) r n prio c None (store_node n f prio st))
        = Inr (0, st') \<and> inserted r f prio st cs st' cs'"
proof (cases "cs ! r")
  case Nil
  then have "rfirst (records st ! r) = None" using cbr_invD(1) [OF inv r] by simp
  then show ?thesis
    using inserted_link [OF inv r _ n f used, of "[]" "[]" prio] Nil by (auto simp: link_node_def)
next
  case (Cons c suf)
  let ?s = "store_node n f prio st"
  have len: "length cs = length (records st)" using inv by (simp add: cbr_inv_def)
  have nn: "i \<noteq> n" if "i \<in> set (cs ! r)" for i
    using cbr_invD(5) [OF inv r that] n by auto
  have p: "path (nodes ?s) (rfirst (records st ! r)) (c # suf)"
    using cbr_invD(1) [OF inv r] cbr_invD(5) [OF inv r] unfolding Cons by (auto intro: path_cong)
  have first: "rfirst (records ?s ! r) = Some c" using p by simp
  have "length suf < length (nodes ?s)"
    using path_length [OF p] cbr_invD(2) [OF inv r] Cons by simp
  then obtain xs ys where w: "c # suf = xs @ ys" "\<forall>i \<in> set xs. \<not> priority (nodes ?s ! i) < prio"
      "ys \<noteq> [] \<longrightarrow> priority (nodes ?s ! hd ys) < prio"
      "insert_walk (length (nodes ?s)) r n prio c None ?s = Inr (0, link_node r n xs ys ?s)"
    using insert_walk_links [of ?s c suf "length (nodes ?s)" "[]" prio None r n] p first by auto
  have same: "nodes ?s ! i = nodes st ! i" if "i \<in> set (xs @ ys)" for i
    using nn [of i] that Cons w(1) by simp
  have "ys \<noteq> [] \<longrightarrow> priority (nodes st ! hd ys) < prio" using w(3) same hd_in_set by auto
  then have "inserted r f prio st cs (link_node r n xs ys ?s) (cs[r := xs @ n # ys])"
    using inserted_link [OF inv r _ n f used, of xs ys prio] Cons w(1,2) same by simp
  then show ?thesis using w(4) first by auto
qed

lemma insert_cbr_alt:
  "insert_cbr malloc_ok r f prio st =
     (case (case find_free_node st of Some n \<Rightarrow> Inr (Some n, st) | None \<Rightarrow> expand_cbr_node_pool malloc_ok st) of
        Inl e \<Rightarrow> Inl e
      | Inr (None, st1) \<Rightarrow> Inr (- 1, st1)
      | Inr (Some n, st1) \<Rightarrow>
          (case rfirst (records (store_node n f prio st1) ! r) of
            None \<Rightarrow> Inr (0, set_first r (Some n) (store_node n f prio st1))
          | Some c \<Rightarrow> insert_walk (length (nodes (store_node n f prio st1))) r n prio c None (store_node n f prio st1)))"
  unfolding insert_cbr_def store_node_def Let_def by (rule refl)

lemma insert_cbr_ok:
  assumes inv: "cbr_inv st cs" and r: "r < length (records st)" and f: "f \<noteq> 0"
    and used: "rname (records st ! r) ! 0 \<noteq> NUL"
    and room: "find_free_node st \<noteq> None \<or> node_ok \<and> nodes st \<noteq> []"
  shows "\<exists>st' cs'. insert_cbr node_ok r f prio st = Inr (0, st') \<and> inserted r f prio st cs st' cs'"
proof (cases "find_free_node st")
  case (Some n)
  then have "n < length (nodes st)" "cbr (nodes st ! n) = 0"
    using find_index_SomeD [of "\<lambda>n. cbr n = 0" "nodes st" n] by (simp_all add: find_free_node_def)
  from inserted_free_node [OF inv r f used this, of prio] show ?thesis
    using Some by (simp add: insert_cbr_alt)
next
  case None
  then have ok: "node_ok" "nodes st \<noteq> []" using room by simp_all
  let ?e = "st\<lparr>nodes := nodes st @ replicate NODE_POOL_SIZE node_zero\<rparr>" and ?n = "length (nodes st)"
  have "?n < length (nodes ?e)" "cbr (nodes ?e ! ?n) = 0"
    by (simp_all add: NODE_POOL_SIZE_def nth_append node_zero_def)
  from inserted_free_node [OF inv_more_nodes [OF inv] _ f _ this, of r prio] obtain st' cs' where
    ins: "insert_cbr node_ok r f prio st = Inr (0, st') \<and> inserted r f prio ?e cs st' cs'"
    using None ok r used
    by (auto simp: insert_cbr_alt expand_cbr_node_pool_def create_node_arena_def)
  have len: "length cs = length (records st)" using inv by (simp add: cbr_inv_def)
  have same: "payloads ?e (cs ! q) = payloads st (cs ! q)" if "q < length cs" for q
    using that cbr_invD(5) [OF inv, of q] len by (auto simp: nth_append)
  have "inserted r f prio st cs st' cs'"
    unfolding inserted_def
  proof (intro conjI allI impI)
    show "payloads st' (cs' ! r) = prio_insert (prio, f) (payloads st (cs ! r))"
      using ins same [of r] r len unfolding inserted_def by metis
    show "payloads st' (cs' ! q) = payloads st (cs ! q)" if "q < length cs" "q \<noteq> r" for q
      using ins same [of q] that unfolding inserted_def by metis
  qed (use ins in \<open>simp_all add: inserted_def\<close>)
  then show ?thesis using ins by blast
qed

subsection \<open>Unregistering\<close>

lemma unregister_walk_path:
  assumes "path (nodes st) p suf" and "length suf \<le> fuel" and "prev = (if pre = [] then None else Some (last pre))"
    and "\<forall>i \<in> set pre. cbr (nodes st ! i) \<noteq> f"
  shows "(\<forall>i \<in> set (pre @ suf). cbr (nodes st ! i) \<noteq> f) \<and> unregister_walk fuel r f p prev st = Inr st
    \<or> (\<exists>xs c ys. pre @ suf = xs @ c # ys \<and> (\<forall>i \<in> set xs. cbr (nodes st ! i) \<noteq> f) \<and> cbr (nodes st ! c) = f
        \<and> unregister_walk fuel r f p prev st = Inr (unlink_node r xs c st))"
  using assms
proof (induction suf arbitrary: p fuel prev pre)
  case Nil
  then show ?case by (cases fuel) auto
next
  case (Cons c suf)
  then obtain g where g: "fuel = Suc g" by (cases fuel) auto
  show ?case
  proof (cases "cbr (nodes st ! c) = f")
    case True
    have "unregister_walk fuel r f p prev st = Inr (unlink_node r pre c st)"
      using True g Cons.prems(1,3)
      by (auto simp: unlink_node_def Let_def set_first_def set_next_def)
    then show ?thesis using True Cons.prems(4) by (intro disjI2 exI [of _ pre] exI [of _ c] exI [of _ suf]) simp
  next
    case False
    have "unregister_walk fuel r f p prev st = unregister_walk g r f (nxt (nodes st ! c)) (Some c) st"
      using False g Cons.prems(1) by simp
    then show ?thesis
      using Cons.IH [of "nxt (nodes st ! c)" g "Some c" "pre @ [c]"] Cons.prems False g by auto
  qed
qed

lemma unlink_node_frame:
  "length (nodes (unlink_node r xs c st)) = length (nodes st)"
  "i \<noteq> c \<Longrightarrow> cbr (nodes (unlink_node r xs c st) ! i) = cbr (nodes st ! i)"
  "priority (nodes (unlink_node r xs c st) ! i) = priority (nodes st ! i)"
  "i \<noteq> c \<Longrightarrow> i \<notin> set xs \<Longrightarrow> nodes (unlink_node r xs c st) ! i = nodes st ! i"
  "c < length (nodes st) \<Longrightarrow> cbr (nodes (unlink_node r xs c st) ! c) = 0 \<and> nxt (nodes (unlink_node r xs c st) ! c) = None"
  "length (records (unlink_node r xs c st)) = length (records st)"
  "rname (records (unlink_node r xs c st) ! q) = rname (records st ! q)"
  "q \<noteq> r \<Longrightarrow> records (unlink_node r xs c st) ! q = records st ! q"
  by (auto simp: unlink_node_def set_first_def set_next_def Let_def nth_update_if last_in_set)

lemma unlink_node_path:
  assumes "path (nodes st) (rfirst (records st ! r)) (xs @ c # ys)" and "distinct (xs @ c # ys)" and "r < length (records st)"
  shows "path (nodes (unlink_node r xs c st)) (rfirst (records (unlink_node r xs c st) ! r)) (xs @ ys)"
proof (cases "xs = []")
  case True
  then show ?thesis
    using assms by (simp add: unlink_node_def set_first_def Let_def path_upd)
next
  case False
  have "path (nodes st) (nxt (nodes st ! c)) ys"
    using path_suffix [of "nodes st" _ "xs @ [c]" ys] assms(1) by simp
  moreover have "last xs \<notin> set ys" using assms(2) last_in_set [OF False] by auto
  ultimately have "path ((nodes st)[last xs := (nodes st ! last xs)\<lparr>nxt := nxt (nodes st ! c)\<rparr>]) (rfirst (records st ! r)) (xs @ ys)"
    using path_splice [OF assms(1,2) False] by blast
  then show ?thesis
    using False assms(2) by (simp add: unlink_node_def set_next_def Let_def path_upd)
qed

lemma ex_chain_remove:
  assumes "r < length cs" and "set zs = set (cs ! r) - {n}" and "\<And>q. q < length cs \<Longrightarrow> q \<noteq> r \<Longrightarrow> n \<notin> set (cs ! q)"
  shows "(\<exists>q < length cs. i \<in> set (cs[r := zs] ! q)) \<longleftrightarrow> i \<noteq> n \<and> (\<exists>q < length cs. i \<in> set (cs ! q))"
    (is "?L \<longleftrightarrow> ?R")
proof
  assume ?L
  then obtain q where q: "q < length cs" "i \<in> set (cs[r := zs] ! q)" by blast
  then show ?R using assms by (cases "q = r") auto
next
  assume ?R
  then obtain q where q: "i \<noteq> n" "q < length cs" "i \<in> set (cs ! q)" by blast
  then have "i \<in> set (cs[r := zs] ! q)" using assms(1,2) by (cases "q = r") auto
  then show ?L using q by blast
qed

lemma inv_unlink:
  assumes inv: "cbr_inv st cs" and r: "r < length (records st)" and xy: "cs ! r = xs @ c # ys"
  shows "cbr_inv (unlink_node r xs c st) (cs[r := xs @ ys])"
proof -
  let ?t = "unlink_node r xs c st"
  have len: "length cs = length (records st)" using inv by (simp add: cbr_inv_def)
  have dist: "distinct (xs @ c # ys)" using cbr_invD(2) [OF inv r] xy by simp
  have c: "c < length (nodes st)" using cbr_invD(5) [OF inv r, of c] xy by simp
  have disj: "set (cs ! r) \<inter> set (cs ! q) = {}" if "q < length cs" "q \<noteq> r" for q
    using inv that r len unfolding cbr_inv_def by metis
  have paths: "path (nodes ?t) (rfirst (records ?t ! q)) (cs[r := xs @ ys] ! q)" if q: "q < length cs" for q
  proof (cases "q = r")
    case True
    then show ?thesis using unlink_node_path [of st r xs c ys] cbr_invD(1) [OF inv r] xy dist r len by simp
  next
    case False
    have "nodes ?t ! i = nodes st ! i \<and> i < length (nodes st)" if "i \<in> set (cs ! q)" for i
      using that disj [OF q False] xy cbr_invD(5) [OF inv, of q i] q len
      by (auto intro: unlink_node_frame)
    then have "path (nodes ?t) (rfirst (records st ! q)) (cs ! q)"
      using path_cong [OF cbr_invD(1) [OF inv, of q]] q len by (simp add: unlink_node_frame)
    then show ?thesis using False by (simp add: unlink_node_frame)
  qed
  have sub: "set (cs[r := xs @ ys] ! q) \<subseteq> set (cs ! q)" if "q < length cs" for q
    using xy that by (cases "q = r") auto
  have mem: "(\<exists>q < length cs. i \<in> set (cs[r := xs @ ys] ! q)) \<longleftrightarrow> i \<noteq> c \<and> (\<exists>q < length cs. i \<in> set (cs ! q))" for i
    using ex_chain_remove [of r cs "xs @ ys" c i] disj r len xy dist by auto
  show ?thesis
    unfolding cbr_inv_def
  proof (intro conjI allI impI)
    show "length (cs[r := xs @ ys]) = length (records ?t)" using len by (simp add: unlink_node_frame)
  next
    fix q assume "q < length (cs[r := xs @ ys])"
    then show "distinct (cs[r := xs @ ys] ! q)" "record_ok (records ?t ! q)"
      "sorted_wrt (\<lambda>i j. priority (nodes ?t ! i) \<ge> priority (nodes ?t ! j)) (cs[r := xs @ ys] ! q)"
      using cbr_invD(2,3,4) [OF inv, of q] len dist xy
      by (auto simp: nth_update_if unlink_node_frame record_ok_def sorted_wrt_append)
  next
    fix i assume "i < length (nodes ?t)"
    then show "(cbr (nodes ?t ! i) \<noteq> 0) = (\<exists>q < length (cs[r := xs @ ys]). i \<in> set (cs[r := xs @ ys] ! q))"
      using inv mem [of i] unlink_node_frame(2) [of i c r xs st] unlink_node_frame(5) [OF c, of r xs]
      by (cases "i = c") (simp_all add: unlink_node_frame cbr_inv_def)
  next
    fix i assume i: "i < length (nodes ?t)" "cbr (nodes ?t ! i) = 0"
    show "nxt (nodes ?t ! i) = None"
    proof (cases "i = c")
      case True
      then show ?thesis using unlink_node_frame(5) [OF c, of r xs] by simp
    next
      case False
      then have z: "cbr (nodes st ! i) = 0" "i < length (nodes st)" using i by (simp_all add: unlink_node_frame)
      then have "i \<notin> set xs" using cbr_invD(5) [OF inv r, of i] xy by auto
      then show ?thesis using False z inv by (simp add: unlink_node_frame cbr_inv_def)
    qed
  next
    fix p q assume "p < length (cs[r := xs @ ys])" "q < length (cs[r := xs @ ys])" "p \<noteq> q"
    then have "set (cs ! p) \<inter> set (cs ! q) = {}" using inv by (simp add: cbr_inv_def)
    then show "set (cs[r := xs @ ys] ! p) \<inter> set (cs[r := xs @ ys] ! q) = {}"
      using sub [of p] sub [of q] \<open>p < _\<close> \<open>q < _\<close> by auto
  next
    fix q assume "q < length (cs[r := xs @ ys])" "rname (records ?t ! q) ! 0 = NUL"
    then have "cs ! q = []" using inv by (simp add: unlink_node_frame cbr_inv_def)
    then show "cs[r := xs @ ys] ! q = []" using xy by (cases "q = r") auto
  next
    fix p q assume "p < length (cs[r := xs @ ys])" "q < length (cs[r := xs @ ys])"
      "rname (records ?t ! p) = rname (records ?t ! q)" "rname (records ?t ! p) ! 0 \<noteq> NUL"
    then show "p = q"
      using inv by (simp add: unlink_node_frame cbr_inv_def)
  qed (use paths in simp_all)
qed

lemma lookup_record_names:
  "map rname (records st') = map rname (records st) \<Longrightarrow> lookup_record st' ev = lookup_record st ev"
proof -
  have "find_index (\<lambda>r. rname r = x) rs = find_index (\<lambda>n. n = x) (map rname rs)" for x rs
    by (induction rs) simp_all
  then show "map rname (records st') = map rname (records st) \<Longrightarrow> ?thesis" by (metis lookup_record_def)
qed

lemma lookup_record_inj:
  assumes "event_ok e" and "event_ok ev" and "lookup_record st ev = Some r" and "e \<noteq> ev"
  shows "lookup_record st e \<noteq> Some r"
  using lookup_recordD(2) [OF assms(3)] lookup_recordD(2) [of st e r] strncpy16_inj assms(1,2,4) by metis

lemma remove_first_split:
  "\<forall>x \<in> set xs. snd x \<noteq> f \<Longrightarrow> snd y = f \<Longrightarrow> remove_first f (xs @ y # ys) = xs @ ys"
  by (induction xs) auto

lemma remove_first_none: "\<forall>x \<in> set xs. snd x \<noteq> f \<Longrightarrow> remove_first f xs = xs"
  by (induction xs) auto

lemma unregister_known:
  assumes inv: "cbr_inv st cs" and ok: "event_ok ev" and lk: "lookup_record st ev = Some r"
  shows "\<exists>st'. ml_unregister_cbr ev f st = Inr (0, st') \<and> cbr_wf st'
    \<and> (\<forall>e. event_ok e \<longrightarrow> handlers st' e = (if e = ev then remove_first f (handlers st ev) else handlers st e))"
proof -
  note r = lookup_recordD(1) [OF lk]
  have len: "length cs = length (records st)" using inv by (simp add: cbr_inv_def)
  have unreg: "ml_unregister_cbr ev f st = (case unregister_walk (Suc (length (nodes st))) r f (rfirst (records st ! r)) None st of
      Inl e \<Rightarrow> Inl e | Inr st2 \<Rightarrow> Inr (0, st2))"
    using lk find_record_eq [OF ok] cbr_inv_records [OF inv] by (simp add: ml_unregister_cbr_def)
  from unregister_walk_path [OF cbr_invD(1) [OF inv r] cbr_inv_chain_length [OF inv r], of None "[]" f r]
  consider (none) "\<forall>i \<in> set (cs ! r). cbr (nodes st ! i) \<noteq> f" "ml_unregister_cbr ev f st = Inr (0, st)"
    | (some) xs c ys where "cs ! r = xs @ c # ys" "\<forall>i \<in> set xs. cbr (nodes st ! i) \<noteq> f" "cbr (nodes st ! c) = f"
        "ml_unregister_cbr ev f st = Inr (0, unlink_node r xs c st)"
    using unreg by auto
  then show ?thesis
  proof cases
    case none
    then have "remove_first f (handlers st ev) = handlers st ev"
      using handlers_eq [OF inv ok] lk by (auto intro!: remove_first_none simp: payload_def)
    then show ?thesis using none inv by (auto simp: cbr_wf_def)
  next
    case some
    let ?t = "unlink_node r xs c st"
    have inv': "cbr_inv ?t (cs[r := xs @ ys])" using inv_unlink [OF inv r some(1)] .
    have "map rname (records ?t) = map rname (records st)"
      by (auto intro!: nth_equalityI simp: unlink_node_frame)
    note lk' = lookup_record_names [OF this]
    have pay: "payloads ?t is = payloads st is" if "c \<notin> set is" for "is"
    proof (intro map_cong [OF refl])
      fix i assume "i \<in> set is"
      then have "i \<noteq> c" using that by auto
      then show "payload (nodes ?t ! i) = payload (nodes st ! i)" by (simp add: payload_def unlink_node_frame)
    qed
    have own: "c \<notin> set (xs @ ys)" using cbr_invD(2) [OF inv r] some(1) by auto
    have other: "c \<notin> set (cs ! q)" if "q < length cs" "q \<noteq> r" for q
    proof -
      have "set (cs ! r) \<inter> set (cs ! q) = {}" using inv that r len unfolding cbr_inv_def by metis
      then show ?thesis using some(1) by auto
    qed
    have "handlers ?t ev = remove_first f (handlers st ev)"
      using handlers_eq [OF inv' ok] handlers_eq [OF inv ok] lk lk' [of ev] pay [OF own] some r len
      by (simp add: remove_first_split payload_def)
    moreover have "handlers ?t e = handlers st e" if e: "event_ok e" "e \<noteq> ev" for e
    proof (cases "lookup_record st e")
      case None
      then show ?thesis using handlers_eq [OF inv' e(1)] handlers_eq [OF inv e(1)] lk' [of e] by simp
    next
      case (Some q)
      then have "q \<noteq> r" using lookup_record_inj [OF e(1) ok lk e(2)] by auto
      then show ?thesis
        using Some handlers_eq [OF inv' e(1)] handlers_eq [OF inv e(1)] lk' [of e] pay [OF other]
          lookup_recordD(1) [OF Some] len by simp
    qed
    ultimately show ?thesis using some(4) inv' by (auto simp: cbr_wf_def)
  qed
qed

lemma unregister_unknown:
  "cbr_inv st cs \<Longrightarrow> event_ok ev \<Longrightarrow> lookup_record st ev = None \<Longrightarrow> ml_unregister_cbr ev f st = Inr (- 1, st)"
  using find_record_eq [of ev st False] cbr_inv_records by (simp add: ml_unregister_cbr_def)

lemma handlers_inserted:
  assumes inv: "cbr_inv st cs" and ins: "inserted r f prio st cs st' cs'" and ok: "event_ok ev"
    and lk: "lookup_record st ev = Some r" and e: "event_ok e"
  shows "handlers st' e = (if e = ev then prio_insert (prio, f) (handlers st ev) else handlers st e)"
proof -
  have inv': "cbr_inv st' cs'" and lk': "lookup_record st' x = lookup_record st x" for x
    using ins lookup_record_names [of st' st x] by (simp_all add: inserted_def)
  have len: "length cs = length (records st)" using inv by (simp add: cbr_inv_def)
  show ?thesis
  proof (cases "lookup_record st e")
    case None
    then show ?thesis
      using handlers_eq [OF inv' e] handlers_eq [OF inv e] lk lk' [of e] by auto
  next
    case (Some q)
    then have "q = r \<longleftrightarrow> e = ev" using lookup_record_inj [OF e ok lk] lk by auto
    then show ?thesis
      using Some handlers_eq [OF inv' e] handlers_eq [OF inv e] handlers_eq [OF inv ok] lk lk' [of e] ins
        lookup_recordD(1) [OF Some] len
      by (cases "e = ev") (simp_all add: inserted_def)
  qed
qed

lemma find_index_update_other:
  "\<not> P (xs ! k) \<Longrightarrow> \<not> P x \<Longrightarrow> find_index P (xs[k := x]) = find_index P xs"
proof (induction xs arbitrary: k)
  case Nil
  then show ?case by simp
next
  case (Cons y ys)
  then show ?case by (cases k) auto
qed

lemma register_ok:
  assumes wf: "cbr_wf st" and ok: "event_ok ev" and f: "f \<noteq> 0" and room: "has_record st ev" "has_node node_ok st"
  shows "\<exists>st'. ml_register_cbr rec_ok node_ok ev f prio st = Inr (0, st') \<and> cbr_wf st' \<and> lookup_record st' ev \<noteq> None
    \<and> (\<forall>e. event_ok e \<longrightarrow> handlers st' e = (if e = ev then prio_insert (prio, f) (handlers st ev) else handlers st e))"
proof -
  obtain cs where inv: "cbr_inv st cs" using wf by (auto simp: cbr_wf_def)
  have key: "\<exists>st'. insert_cbr node_ok r f prio s = Inr (0, st') \<and> cbr_wf st' \<and> lookup_record st' ev \<noteq> None
      \<and> (\<forall>e. event_ok e \<longrightarrow> handlers st' e = (if e = ev then prio_insert (prio, f) (handlers s ev) else handlers s e))"
    if s: "cbr_inv s cs" "lookup_record s ev = Some r" "has_node node_ok s" for s r
  proof -
    have "rname (records s ! r) ! 0 \<noteq> NUL"
      using lookup_recordD(2) [OF s(2)] strncpy16_nonfree [OF ok] by simp
    from insert_cbr_ok [OF s(1) lookup_recordD(1) [OF s(2)] f this, of node_ok prio] s(3)
    obtain st' cs' where i: "insert_cbr node_ok r f prio s = Inr (0, st')" "inserted r f prio s cs st' cs'"
      by (auto simp: has_node_def)
    then show ?thesis
      using handlers_inserted [OF s(1) i(2) ok s(2)] s(2) lookup_record_names [of st' s ev]
      by (auto simp: inserted_def cbr_wf_def)
  qed
  show ?thesis
  proof (cases "lookup_record st ev")
    case (Some r)
    then show ?thesis
      using key [OF inv Some room(2)] find_record_eq [OF ok] cbr_inv_records [OF inv] by (simp add: ml_register_cbr_def)
  next
    case None
    then obtain k where k: "find_index (\<lambda>r. rname r ! 0 = NUL) (records st) = Some k"
      using room(1) by (auto simp: has_record_def)
    let ?s = "st\<lparr>records := (records st)[k := \<lparr>rname = strncpy16 ev, rfirst = None\<rparr>]\<rparr>"
    note kD = find_index_SomeD [OF k]
    have inv': "cbr_inv ?s cs" using inv_name_record [OF inv ok None] kD by simp
    have lk: "lookup_record ?s ev = Some k"
      using None kD by (auto simp: lookup_record_def find_index_Some find_index_None nth_update_if)
    have "handlers ?s e = handlers st e" if "event_ok e" for e
    proof (cases "e = ev")
      case True
      have "cs ! k = []" using inv kD by (simp add: cbr_inv_def)
      then show ?thesis using True lk None handlers_eq [OF inv' ok] handlers_eq [OF inv ok] by simp
    next
      case False
      have "rname (records st ! k) \<noteq> strncpy16 e"
        using kD(2) strncpy16_nonfree [OF that] by auto
      moreover have "strncpy16 ev \<noteq> strncpy16 e"
        using strncpy16_inj [of ev e] that ok False by auto
      ultimately have "lookup_record ?s e = lookup_record st e"
        using find_index_update_other [of "\<lambda>r. rname r = strncpy16 e" "records st" k] by (simp add: lookup_record_def)
      then show ?thesis using handlers_eq [OF inv' that] handlers_eq [OF inv that] by (simp split: option.split)
    qed
    note same = this
    have "has_node node_ok ?s" using room(2) by (simp add: has_node_def find_free_node_def)
    from key [OF inv' lk this] obtain st' where st': "insert_cbr node_ok k f prio ?s = Inr (0, st')" "cbr_wf st'"
        "lookup_record st' ev \<noteq> None"
        "\<forall>e. event_ok e \<longrightarrow> handlers st' e = (if e = ev then prio_insert (prio, f) (handlers ?s ev) else handlers ?s e)"
      by blast
    have "ml_register_cbr rec_ok node_ok ev f prio st = insert_cbr node_ok k f prio ?s"
      using None k find_record_eq [OF ok] cbr_inv_records [OF inv] by (simp add: ml_register_cbr_def)
    then show ?thesis using st' same ok by (intro exI [of _ st']) simp
  qed
qed

subsection \<open>The registry as an event bus\<close>

text \<open>
  What the rest of Magic Lantern relies on: a registration that finds room and returns 0 puts the
  callback behind all callbacks of the event with at least its priority and changes no other event,
  unregistering takes one entry out, and a notification runs the callbacks from the front until one
  stops it.
\<close>

locale event_bus =
  fixes wf :: "'s \<Rightarrow> bool" and ok :: "string \<Rightarrow> bool" and room :: "'s \<Rightarrow> string \<Rightarrow> bool"
    and hs :: "'s \<Rightarrow> string \<Rightarrow> (u32 \<times> u32) list"
    and register :: "string \<Rightarrow> u32 \<Rightarrow> u32 \<Rightarrow> 's \<Rightarrow> 'e + int \<times> 's"
    and unregister :: "string \<Rightarrow> u32 \<Rightarrow> 's \<Rightarrow> 'e + int \<times> 's"
    and notify :: "(u32 \<Rightarrow> bool) \<Rightarrow> string \<Rightarrow> 's \<Rightarrow> 'e + u32 list"
  assumes register_law: "wf s \<Longrightarrow> ok ev \<Longrightarrow> f \<noteq> 0 \<Longrightarrow> room s ev \<Longrightarrow> register ev f p s = Inr (0, s') \<Longrightarrow>
      wf s' \<and> room s' ev \<and> (\<forall>e. ok e \<longrightarrow> hs s' e = (if e = ev then prio_insert (p, f) (hs s ev) else hs s e))"
    and unregister_law: "wf s \<Longrightarrow> ok ev \<Longrightarrow> \<exists>c s'. unregister ev f s = Inr (c, s') \<and> wf s' \<and>
      (\<forall>e. ok e \<longrightarrow> hs s' e = (if e = ev then remove_first f (hs s ev) else hs s e))"
    and notify_law: "wf s \<Longrightarrow> ok ev \<Longrightarrow> notify stops ev s = Inr (run_handlers stops (map snd (hs s ev)))"
begin

fun register_all :: "string \<Rightarrow> (u32 \<times> u32) list \<Rightarrow> 's \<Rightarrow> 's option" where
  "register_all ev [] s = Some s"
| "register_all ev (h # ts) s =
     (case register ev (snd h) (fst h) s of Inr (c, s') \<Rightarrow> (if c = 0 then register_all ev ts s' else None) | Inl _ \<Rightarrow> None)"

lemma register_all_law:
  "wf s \<Longrightarrow> ok ev \<Longrightarrow> room s ev \<Longrightarrow> \<forall>h \<in> set ts. snd h \<noteq> 0 \<Longrightarrow> register_all ev ts s = Some s' \<Longrightarrow>
   wf s' \<and> (\<forall>e. ok e \<longrightarrow> hs s' e = (if e = ev then foldl (\<lambda>xs h. prio_insert h xs) (hs s ev) ts else hs s e))"
proof (induction ts arbitrary: s)
  case Nil
  then show ?case by simp
next
  case (Cons h ts)
  then obtain t where t: "register ev (snd h) (fst h) s = Inr (0, t)" "register_all ev ts t = Some s'"
    by (auto split: sum.splits if_splits)
  from register_law [OF Cons.prems(1,2) _ Cons.prems(3) t(1)] Cons.prems(4)
  have "wf t \<and> room t ev \<and> (\<forall>e. ok e \<longrightarrow> hs t e = (if e = ev then prio_insert h (hs s ev) else hs s e))" by simp
  then show ?case using Cons.IH [of t] Cons.prems(2,4) t(2) by simp
qed

lemma notify_after_register_all:
  "wf s \<Longrightarrow> ok ev \<Longrightarrow> room s ev \<Longrightarrow> hs s ev = [] \<Longrightarrow> \<forall>h \<in> set ts. snd h \<noteq> 0 \<Longrightarrow> register_all ev ts s = Some s' \<Longrightarrow>
   notify stops ev s' = Inr (run_handlers stops (map snd (foldl (\<lambda>xs h. prio_insert h xs) [] ts)))"
  using register_all_law notify_law by simp

lemma unregister_undoes_register:
  assumes "wf s" "ok ev" "f \<noteq> 0" "room s ev" "f \<notin> snd ` set (hs s ev)" "register ev f p s = Inr (0, s')"
  shows "\<exists>c t. unregister ev f s' = Inr (c, t) \<and> wf t \<and> (\<forall>e. ok e \<longrightarrow> hs t e = hs s e)"
proof -
  have r: "wf s'" "\<forall>e. ok e \<longrightarrow> hs s' e = (if e = ev then prio_insert (p, f) (hs s ev) else hs s e)"
    using register_law [OF assms(1-4,6)] by simp_all
  have "remove_first f (prio_insert (p, f) xs) = xs" if "f \<notin> snd ` set xs" for xs
    using that by (induction xs) (auto simp: image_iff)
  moreover obtain c t where "unregister ev f s' = Inr (c, t)" "wf t"
      "\<forall>e. ok e \<longrightarrow> hs t e = (if e = ev then remove_first f (hs s' ev) else hs s' e)"
    using unregister_law [OF r(1) assms(2), of f] by blast
  ultimately show ?thesis using r(2) assms(2,5) by (intro exI [of _ c] exI [of _ t]) simp
qed

end

lemma insert_cbr_zeroD: "insert_cbr node_ok r f prio st = Inr (0, st') \<Longrightarrow> has_node node_ok st"
  by (auto simp: insert_cbr_def has_node_def expand_cbr_node_pool_def Let_def split: option.splits if_splits)

lemma register_zeroD:
  assumes "cbr_wf st" and "event_ok ev" and "has_record st ev" and "ml_register_cbr rec_ok node_ok ev f p st = Inr (0, st')"
  shows "has_node node_ok st"
proof -
  have "list_all record_ok (records st)" using assms(1) cbr_inv_records by (auto simp: cbr_wf_def)
  then obtain r rs where "insert_cbr node_ok r f p (st\<lparr>records := rs\<rparr>) = Inr (0, st')"
    using assms(2-4) find_record_eq [of ev st True]
    by (auto simp: ml_register_cbr_def has_record_def split: option.splits intro: that [of _ "records st"])
  from insert_cbr_zeroD [OF this] show ?thesis by (simp add: has_node_def find_free_node_def)
qed

interpretation cbr_bus: event_bus cbr_wf event_ok has_record handlers "ml_register_cbr rec_ok node_ok"
  ml_unregister_cbr ml_notify_cbr for rec_ok node_ok
proof
  fix s ev f p s'
  assume a: "cbr_wf s" "event_ok ev" "f \<noteq> 0" "has_record s ev" "ml_register_cbr rec_ok node_ok ev f p s = Inr (0, s')"
  from register_ok [OF a(1-4) register_zeroD [OF a(1,2,4,5)], of rec_ok p] a(5)
  show "cbr_wf s' \<and> has_record s' ev \<and>
      (\<forall>e. event_ok e \<longrightarrow> handlers s' e = (if e = ev then prio_insert (p, f) (handlers s ev) else handlers s e))"
    by (auto simp: has_record_def)
next
  fix s ev f
  assume a: "cbr_wf s" "event_ok ev"
  then obtain cs where inv: "cbr_inv s cs" by (auto simp: cbr_wf_def)
  show "\<exists>c s'. ml_unregister_cbr ev f s = Inr (c, s') \<and> cbr_wf s' \<and>
      (\<forall>e. event_ok e \<longrightarrow> handlers s' e = (if e = ev then remove_first f (handlers s ev) else handlers s e))"
  proof (cases "lookup_record s ev")
    case None
    then show ?thesis using unregister_unknown [OF inv a(2)] a handlers_eq [OF inv a(2)] by auto
  next
    case (Some r)
    then show ?thesis using unregister_known [OF inv a(2) Some, of f] by blast
  qed
next
  fix s ev stops
  assume "cbr_wf s" "event_ok ev"
  then show "ml_notify_cbr stops ev s = Inr (run_handlers stops (map snd (handlers s ev)))"
    using notify_eq by (auto simp: cbr_wf_def)
qed

section \<open>Properties\<close>

lemma handlers_sorted:
  assumes "cbr_wf st" and "event_ok ev"
  shows "sorted_wrt (\<ge>) (map fst (handlers st ev))"
proof -
  obtain cs where inv: "cbr_inv st cs" using assms(1) by (auto simp: cbr_wf_def)
  show ?thesis
  proof (cases "lookup_record st ev")
    case None
    then show ?thesis using handlers_eq [OF inv assms(2)] by simp
  next
    case (Some r)
    then show ?thesis
      using handlers_eq [OF inv assms(2)] cbr_invD(3) [OF inv lookup_recordD(1) [OF Some]]
      by (simp add: payload_def o_def sorted_wrt_map)
  qed
qed

lemma run_handlers_takeWhile:
  "run_handlers stops fs = takeWhile (\<lambda>f. \<not> stops f) fs @ take 1 (dropWhile (\<lambda>f. \<not> stops f) fs)"
  by (induction fs) simp_all

lemma count_remove_first: "count_list (map snd (remove_first f xs)) g =
    count_list (map snd xs) g - (if g = f then 1 else 0)"
proof (induction xs)
  case (Cons x xs)
  have "f \<in> set (map snd xs) \<Longrightarrow> count_list (map snd xs) f \<noteq> 0" by (metis count_notin count_list_0_iff)
  moreover have "f \<notin> set (map snd xs) \<Longrightarrow> remove_first f xs = xs"
    using remove_first_none [of xs f] by auto
  ultimately show ?case using Cons by (cases "f \<in> set (map snd xs)") (auto simp: count_notin)
qed simp

lemma cbr_inv_init: "cbr_inv (ml_cbr_init node_ok rec_ok) (replicate (length (create_record_arena rec_ok)) [])"
proof -
  have "record_ok record_zero"
    by (auto simp: record_ok_def record_zero_def strncpy16_def intro!: exI [of _ "[]"])
  then show ?thesis
    by (simp add: cbr_inv_def ml_cbr_init_def create_node_arena_def create_record_arena_def)
      (simp add: node_zero_def record_zero_def)
qed

text \<open>
  C9: In every well-formed registry \<^verbatim>\<open>ml_notify_cbr\<close> terminates without error and calls the
  callbacks of the event in descending priority, up to and including the first that returns
  \<^verbatim>\<open>ML_CBR_STOP\<close>.
\<close>

theorem notify_priority_order:
  assumes "cbr_wf st" and "event_ok ev"
  shows "sorted_wrt (\<ge>) (map fst (handlers st ev))
    \<and> (let fs = map snd (handlers st ev) in
       ml_notify_cbr stops ev st
         = Inr (takeWhile (\<lambda>f. \<not> stops f) fs @ take 1 (dropWhile (\<lambda>f. \<not> stops f) fs)))"
  using handlers_sorted [OF assms] cbr_bus.notify_law [OF assms] by (simp add: run_handlers_takeWhile)

text \<open>
  C8: A registration that finds a record and a node returns 0 and keeps the registry well formed.
  From then on a notification of the event runs the new callback after all callbacks of at least
  its priority and before the others, and notifications of every other event are unchanged.
\<close>

theorem register_extends_notify:
  assumes "cbr_wf st" and "event_ok ev" and "f \<noteq> 0" and "has_record st ev" and "has_node node_ok st"
  shows "\<exists>st'. ml_register_cbr rec_ok node_ok ev f prio st = Inr (0, st') \<and> cbr_wf st'
    \<and> (\<forall>stops. ml_notify_cbr stops ev st'
          = Inr (run_handlers stops (map snd (prio_insert (prio, f) (handlers st ev)))))
    \<and> (\<forall>e stops. event_ok e \<longrightarrow> e \<noteq> ev \<longrightarrow> ml_notify_cbr stops e st' = ml_notify_cbr stops e st)"
proof -
  obtain st' where st': "ml_register_cbr rec_ok node_ok ev f prio st = Inr (0, st')" "cbr_wf st'"
      "\<forall>e. event_ok e \<longrightarrow> handlers st' e = (if e = ev then prio_insert (prio, f) (handlers st ev) else handlers st e)"
    using register_ok [OF assms, of rec_ok prio] by blast
  then show ?thesis
    using assms(1,2) by (intro exI [of _ st']) (simp add: cbr_bus.notify_law)
qed

text \<open>
  \<^verbatim>\<open>ml_unregister_cbr\<close> on a well-formed registry returns, keeps it well formed and takes
  exactly one registration of the callback out of the event. A callback that was registered twice
  for the event is therefore still called after \<^verbatim>\<open>ml_unregister_cbr\<close> reported success,
  although its loop is written to visit the whole list.
\<close>

theorem unregister_removes_one:
  assumes "cbr_wf st" and "event_ok ev"
  shows "\<exists>c st'. ml_unregister_cbr ev f st = Inr (c, st') \<and> cbr_wf st'
    \<and> (\<forall>g. count_list (map snd (handlers st' ev)) g
          = count_list (map snd (handlers st ev)) g - (if g = f then 1 else 0))
    \<and> (\<forall>e. event_ok e \<longrightarrow> e \<noteq> ev \<longrightarrow> handlers st' e = handlers st e)"
proof -
  obtain c st' where "ml_unregister_cbr ev f st = Inr (c, st')" "cbr_wf st'"
      "\<forall>e. event_ok e \<longrightarrow> handlers st' e = (if e = ev then remove_first f (handlers st ev) else handlers st e)"
    using cbr_bus.unregister_law [OF assms, of f] by blast
  then show ?thesis
    using assms(2) by (intro exI [of _ c] exI [of _ st']) (simp add: count_remove_first)
qed

text \<open>
  When all records name other events, \<^verbatim>\<open>ml_register_cbr\<close> adds an arena and links the
  callback to its first record without writing the event's name there. It returns 0, but the
  event is still unknown: a notification calls nothing.
\<close>

theorem register_full_pool_loses_event:
  assumes "cbr_wf st" and "event_ok ev" and "records st \<noteq> []" and "\<not> has_record st ev" and "find_free_node st = Some n"
  shows "\<exists>st'. ml_register_cbr True node_ok ev f prio st = Inr (0, st') \<and> ml_notify_cbr stops ev st' = Inr []"
proof -
  obtain cs where inv: "cbr_inv st cs" using assms(1) by (auto simp: cbr_wf_def)
  let ?e = "st\<lparr>records := records st @ replicate RECORD_POOL_SIZE record_zero\<rparr>" and ?r = "length (records st)"
  let ?t = "set_first ?r (Some n) (store_node n f prio ?e)"
  have fr: "find_record ev True st = Inr (None, st)"
    using find_record_eq [OF assms(2), of st True] cbr_inv_records [OF inv] assms(4) by (auto simp: has_record_def)
  have "rfirst (records ?e ! ?r) = None" "find_free_node ?e = Some n"
    using assms(5) by (simp_all add: nth_append RECORD_POOL_SIZE_def record_zero_def find_free_node_def)
  then have "ml_register_cbr True node_ok ev f prio st = Inr (0, ?t)"
    using fr assms(3) by (simp add: ml_register_cbr_def expand_cbr_record_pool_def create_record_arena_def insert_cbr_alt)
  moreover have "map rname (records ?t) = map rname (records ?e)"
    by (rule nth_equalityI) (auto simp: set_first_def nth_update_if nth_append)
  then have names: "lookup_record ?t ev = lookup_record ?e ev" "list_all record_ok (records ?t)"
    using lookup_record_names [of ?t ?e ev] cbr_inv_records [OF inv_more_records [OF inv, of RECORD_POOL_SIZE]]
    by (auto simp: list_all_length record_ok_def set_first_def nth_update_if)
  have "lookup_record ?e ev = None"
    using assms(4) strncpy16_nonfree [OF assms(2)]
    by (auto simp: has_record_def lookup_record_def find_index_None record_zero_def dest: arg_cong [of _ _ "\<lambda>s. s ! 0"])
  then have "ml_notify_cbr stops ev ?t = Inr []"
    using find_record_eq [OF assms(2) names(2), of False] names(1) by (simp add: ml_notify_cbr_def)
  ultimately show ?thesis by blast
qed

subsection \<open>Witnesses\<close>

lemma sample_registry_wf: "cbr_wf sample_registry"
proof -
  have "record_ok \<lparr>rname = strncpy16 ''a'', rfirst = Some 0\<rparr>"
    by (auto simp: record_ok_def event_ok_def intro!: exI [of _ "''a''"])
  then have "cbr_inv sample_registry [[0, 1]]"
    by (simp add: cbr_inv_def sample_registry_def strncpy16_def node_zero_def All_less_Suc Ex_less_Suc)
  then show ?thesis by (auto simp: cbr_wf_def)
qed

lemma event_ok_samples: "event_ok ''a''" "event_ok ''b''"
  by (simp_all add: event_ok_def)

lemma find_index_replicate: "find_index P (replicate n x) = (if n > 0 \<and> P x then Some 0 else None)"
  by (induction n) auto

lemma init_wf: "cbr_wf (ml_cbr_init True True)"
  using cbr_inv_init cbr_wf_def by blast

theorem notify_priority_order_witness:
  "sorted_wrt (\<ge>) (map fst (handlers sample_registry ''a''))
   \<and> ml_notify_cbr (\<lambda>_. True) ''a'' sample_registry = Inr [7]"
  using notify_priority_order [OF sample_registry_wf event_ok_samples(1), of "\<lambda>_. True"]
  by (simp add: handlers_def sample_registry_def debug_cbr_tree_def find_record_def fast_compare_def strncpy16_def)

theorem register_extends_notify_witness:
  "\<exists>st'. ml_register_cbr True True ''a'' 5 10 (ml_cbr_init True True) = Inr (0, st') \<and> cbr_wf st'
    \<and> (\<forall>e stops. event_ok e \<longrightarrow> e \<noteq> ''a'' \<longrightarrow> ml_notify_cbr stops e st' = ml_notify_cbr stops e (ml_cbr_init True True))"
proof -
  have "has_record (ml_cbr_init True True) ''a''" "has_node True (ml_cbr_init True True)"
    by (simp_all add: has_record_def has_node_def ml_cbr_init_def create_record_arena_def create_node_arena_def
        RECORD_POOL_SIZE_def NODE_POOL_SIZE_def find_index_replicate record_zero_def)
  from register_extends_notify [OF init_wf event_ok_samples(1) _ this, of 5 True 10] show ?thesis by auto
qed

theorem unregister_removes_one_witness:
  "\<exists>st'. ml_unregister_cbr ''a'' 7 sample_registry = Inr (0, st') \<and> count_list (map snd (handlers st' ''a'')) 7 = 1"
proof -
  have "handlers sample_registry ''a'' = [(9, 7), (4, 7)]"
    by (simp add: handlers_def sample_registry_def debug_cbr_tree_def find_record_def fast_compare_def strncpy16_def)
  moreover have "\<forall>c st'. ml_unregister_cbr ''a'' 7 sample_registry = Inr (c, st') \<longrightarrow> c = 0"
    by (simp add: sample_registry_def ml_unregister_cbr_def find_record_def fast_compare_def strncpy16_def
        set_first_def)
  ultimately show ?thesis
    using unregister_removes_one [OF sample_registry_wf event_ok_samples(1), of 7] by fastforce
qed

theorem register_full_pool_loses_event_witness:
  "\<exists>st'. ml_register_cbr True True ''b'' 5 10 sample_registry = Inr (0, st') \<and> ml_notify_cbr (\<lambda>_. False) ''b'' st' = Inr []"
proof -
  have "\<not> has_record sample_registry ''b''" "find_free_node sample_registry = Some 2" "records sample_registry \<noteq> []"
    by (simp_all add: has_record_def lookup_record_def find_free_node_def sample_registry_def strncpy16_def node_zero_def)
  with register_full_pool_loses_event [OF sample_registry_wf event_ok_samples(2)] show ?thesis by blast
qed

end
