(* ===== verification/ML_Strings.thy ===== *)
theory ML_Strings
  imports ML_Prelude
begin

text \<open>
  Characters and text: the character classes and the \<^verbatim>\<open>snprintf\<close> wrapper of
  \<^verbatim>\<open>src/src/stdio.c\<close>, and the conversions between integers and decimal text that the
  sources use through \<^verbatim>\<open>printf\<close> formats and \<^verbatim>\<open>atoi\<close>.
\<close>

section \<open>Characters and strings\<close>

abbreviation NULc :: char where
  "NULc \<equiv> CHR 0x00"

abbreviation CR :: char where
  "CR \<equiv> CHR 0x0D"

abbreviation LF :: char where
  "LF \<equiv> CHR 0x0A"

abbreviation TAB :: char where
  "TAB \<equiv> CHR 0x09"

definition c_string :: "string \<Rightarrow> string" where
  "c_string s = takeWhile (\<lambda>c. c \<noteq> NULc) s"

text \<open>\<^verbatim>\<open>strchr\<close> also finds the terminator, so the null character counts as a space.\<close>

definition isspace :: "char \<Rightarrow> bool" where
  "isspace c \<longleftrightarrow> c \<in> {CHR '' '', CR, LF, TAB, NULc}"

definition isdigit :: "char \<Rightarrow> bool" where
  "isdigit c \<longleftrightarrow> (of_char c :: nat) \<ge> 48 \<and> (of_char c :: nat) \<le> 57"

definition islower :: "char \<Rightarrow> bool" where
  "islower c \<longleftrightarrow> (of_char c :: nat) \<ge> 97 \<and> (of_char c :: nat) \<le> 122"

definition isupper :: "char \<Rightarrow> bool" where
  "isupper c \<longleftrightarrow> (of_char c :: nat) \<ge> 65 \<and> (of_char c :: nat) \<le> 90"

definition isalpha :: "char \<Rightarrow> bool" where
  "isalpha c \<longleftrightarrow> islower c \<or> isupper c"

definition isalnum :: "char \<Rightarrow> bool" where
  "isalnum c \<longleftrightarrow> isalpha c \<or> isdigit c"

definition isxdigit :: "char \<Rightarrow> bool" where
  "isxdigit c \<longleftrightarrow> isdigit c \<or> (of_char c :: nat) \<ge> 65 \<and> (of_char c :: nat) \<le> 70
     \<or> (of_char c :: nat) \<ge> 97 \<and> (of_char c :: nat) \<le> 102"

definition toupper :: "char \<Rightarrow> char" where
  "toupper c = (if islower c then char_of (65 + (of_char c :: nat) - 97) else c)"

definition tolower :: "char \<Rightarrow> char" where
  "tolower c = (if isupper c then char_of (97 + (of_char c :: nat) - 65) else c)"

text \<open>
  \<^verbatim>\<open>snprintf\<close> with the formatted text \<open>s\<close>: what ends up in the buffer. The wrapper passes
  \<open>max_len - 1\<close> to Canon's routine, which for \<open>max_len = 0\<close> is no limit at all.
\<close>

definition snprintf :: "nat \<Rightarrow> string \<Rightarrow> string" where
  "snprintf max_len s = (if max_len = 0 then s else take (max_len - 1) s)"

text \<open>The conversions \<^verbatim>\<open>%d\<close>, \<^verbatim>\<open>%02d\<close> and \<^verbatim>\<open>%04d\<close>, and \<^verbatim>\<open>atoi\<close>.\<close>

definition digit :: "nat \<Rightarrow> char" where
  "digit n = char_of (48 + n)"

fun show_nat :: "nat \<Rightarrow> string" where
  "show_nat n = (if n < 10 then [digit n] else show_nat (n div 10) @ [digit (n mod 10)])"

declare show_nat.simps [simp del]

definition show_int :: "int \<Rightarrow> string" where
  "show_int i = (if i < 0 then CHR ''-'' # show_nat (nat (- i)) else show_nat (nat i))"

definition show_pad :: "nat \<Rightarrow> nat \<Rightarrow> string" where
  "show_pad w n = replicate (w - length (show_nat n)) CHR ''0'' @ show_nat n"

definition digits_value :: "string \<Rightarrow> int" where
  "digits_value s = foldl (\<lambda>a c. 10 * a + (int (of_char c) - 48)) 0 (takeWhile isdigit s)"

definition atoi :: "string \<Rightarrow> int" where
  "atoi s = (case dropWhile isspace s of
      [] \<Rightarrow> 0
    | c # r \<Rightarrow> if c = CHR ''-'' then - digits_value r
              else if c = CHR ''+'' then digits_value r
              else digits_value (c # r))"

section \<open>Facts\<close>

lemma of_char_digit: "n < 10 \<Longrightarrow> (of_char (digit n) :: nat) = 48 + n"
  by (simp add: digit_def)

lemma isdigit_digit: "n < 10 \<Longrightarrow> isdigit (digit n)"
  by (simp add: isdigit_def of_char_digit)

lemma isdigit_no_space: "isdigit c \<Longrightarrow> \<not> isspace c \<and> c \<noteq> CHR ''-'' \<and> c \<noteq> CHR ''+'' \<and> c \<noteq> CHR ''=''"
  by (auto simp: isdigit_def isspace_def)

lemma show_nat_digits: "list_all isdigit (show_nat n) \<and> show_nat n \<noteq> []"
proof (induction n rule: show_nat.induct)
  case (1 n)
  then show ?case by (subst (1 2) show_nat.simps) (simp add: isdigit_digit)
qed

lemma takeWhile_all_digits: "list_all isdigit s \<Longrightarrow> takeWhile isdigit s = s"
  by (simp add: list_all_iff)

lemma digits_value_show_nat: "digits_value (show_nat n) = int n"
proof (induction n rule: show_nat.induct)
  case (1 n)
  show ?case
  proof (cases "n < 10")
    case True
    then show ?thesis
      by (subst show_nat.simps) (simp add: digits_value_def isdigit_digit of_char_digit)
  next
    case False
    have "digits_value (show_nat (n div 10) @ [digit (n mod 10)]) =
        10 * digits_value (show_nat (n div 10)) + int (n mod 10)"
      using show_nat_digits [of "n div 10"]
      by (simp add: digits_value_def takeWhile_append2 list_all_iff isdigit_digit of_char_digit takeWhile_all_digits)
    also have "\<dots> = int n" using 1 [OF False] by (simp add: zdiv_int zmod_int)
    finally show ?thesis using False by (subst show_nat.simps) simp
  qed
qed

lemma length_show_nat: "n < 10 ^ Suc k \<Longrightarrow> length (show_nat n) \<le> Suc k"
proof (induction k arbitrary: n)
  case 0
  then show ?case by (subst show_nat.simps) simp
next
  case (Suc k)
  then have "n div 10 < 10 ^ Suc k" by (simp add: less_mult_imp_div_less)
  with Suc.IH [of "n div 10"] show ?case by (subst show_nat.simps) simp
qed

lemma show_int_chars: "c \<in> set (show_int i) \<Longrightarrow> isdigit c \<or> c = CHR ''-''"
  using show_nat_digits by (auto simp: show_int_def list_all_iff split: if_splits)

lemma show_int_plain: "c \<in> set (show_int i) \<Longrightarrow> \<not> isspace c"
  using show_int_chars [of c i] isdigit_no_space [of c] by (auto simp: isspace_def)

lemma show_int_nonempty: "show_int i \<noteq> []"
  using show_nat_digits by (simp add: show_int_def)

lemma atoi_show_int: "atoi (show_int i) = i"
proof -
  have "dropWhile isspace (show_int i) = show_int i"
    using show_int_plain [of _ i] show_int_nonempty [of i] by (cases "show_int i") auto
  moreover obtain c r where c: "show_nat (nat \<bar>i\<bar>) = c # r" "isdigit c"
    using show_nat_digits [of "nat \<bar>i\<bar>"] by (cases "show_nat (nat \<bar>i\<bar>)") auto
  ultimately show ?thesis
    using isdigit_no_space [OF c(2)] digits_value_show_nat [of "nat \<bar>i\<bar>"]
    by (auto simp: atoi_def show_int_def)
qed

lemma length_show_int:
  assumes "- (2 ^ 31) \<le> i" "i < 2 ^ 31"
  shows "length (show_int i) \<le> 11"
proof -
  have "nat (- i) < 10 ^ Suc 9" "nat i < 10 ^ Suc 9" using assms by auto
  from length_show_nat [OF this(1)] length_show_nat [OF this(2)] show ?thesis by (simp add: show_int_def)
qed

end
