(* ===== verification/ML_Config.thy ===== *)
theory ML_Config
  imports ML_Strings
begin

text \<open>
  Configuration files, \<^verbatim>\<open>src/src/config.c\<close>: parsing and printing of \<^verbatim>\<open>name = value\<close>
  lines, the table of configuration variables, module configuration files and the choice of a
  preset directory at startup. A C string is the list of its characters before the terminator.
  The integers that configuration variables point to are a store from addresses to 32-bit words.
  The file system is Canon's; its operations are the record \<open>fio\<close>, an argument of the definitions.
\<close>

section \<open>Data\<close>

definition MAX_NAME_LEN :: nat where
  "MAX_NAME_LEN = 64"

definition MAX_VALUE_LEN :: nat where
  "MAX_VALUE_LEN = 60"

definition MAX_SIZE :: nat where
  "MAX_SIZE = 10240"

definition LINE_BUF :: nat where
  "LINE_BUF = 1000"

record config =
  cfg_name :: string
  cfg_value :: string

type_synonym change_func = "u32 \<Rightarrow> u32 \<Rightarrow> u32"

record config_var =
  var_name :: string
  var_ptr :: u32
  default_value :: u32
  change_cbr :: "change_func option"

type_synonym ints = "u32 \<Rightarrow> u32"

datatype config_error = Parse_error | Array_overrun

section \<open>Parsing\<close>

text \<open>
  The static structure \<^verbatim>\<open>_cfg\<close> with its two character arrays. A write behind the end of an
  array is the error \<open>Array_overrun\<close>. The line is the list of its characters, and the position in it the
  rest of that list.
\<close>

record config_arrays =
  arr_name :: "char list"
  arr_value :: "char list"

definition config_static :: config_arrays where
  "config_static = \<lparr>arr_name = replicate MAX_NAME_LEN NULc, arr_value = replicate MAX_VALUE_LEN NULc\<rparr>"

definition put_char :: "char list \<Rightarrow> nat \<Rightarrow> char \<Rightarrow> config_error + char list" where
  "put_char a i c = (if i < length a then Inr (a[i := c]) else Inl Array_overrun)"

fun copy_name :: "char list \<Rightarrow> nat \<Rightarrow> string \<Rightarrow> config_error + char list \<times> nat \<times> string" where
  "copy_name a name_len [] = Inr (a, name_len, [])"
| "copy_name a name_len (c # line) =
     (if \<not> isspace c \<and> c \<noteq> CHR ''='' \<and> name_len < MAX_NAME_LEN
      then case put_char a name_len c of Inl e \<Rightarrow> Inl e | Inr a' \<Rightarrow> copy_name a' (name_len + 1) line
      else Inr (a, name_len, c # line))"

fun copy_value :: "char list \<Rightarrow> nat \<Rightarrow> string \<Rightarrow> config_error + char list \<times> nat" where
  "copy_value a value_len [] = Inr (a, value_len)"
| "copy_value a value_len (c # line) =
     (if value_len < MAX_VALUE_LEN
      then case put_char a value_len c of Inl e \<Rightarrow> Inl e | Inr a' \<Rightarrow> copy_value a' (value_len + 1) line
      else Inr (a, value_len))"

fun trim_len :: "char list \<Rightarrow> nat \<Rightarrow> nat" where
  "trim_len a 0 = 0"
| "trim_len a (Suc n) = (if isspace (a ! n) then trim_len a n else Suc n)"

definition config_parse_static :: "config_arrays \<Rightarrow> string \<Rightarrow> config_error + config_arrays" where
  "config_parse_static cfg line =
     (case copy_name (arr_name cfg) 0 (dropWhile isspace line) of
        Inl e \<Rightarrow> Inl e
      | Inr (nm, name_len, l1) \<Rightarrow>
          if name_len = MAX_NAME_LEN then Inl Parse_error
          else case put_char nm name_len NULc of
                 Inl e \<Rightarrow> Inl e
               | Inr nm \<Rightarrow>
                   (case dropWhile isspace l1 of
                      [] \<Rightarrow> Inl Parse_error
                    | c # l2 \<Rightarrow>
                        if c \<noteq> CHR ''='' then Inl Parse_error
                        else case copy_value (arr_value cfg) 0 (dropWhile isspace l2) of
                               Inl e \<Rightarrow> Inl e
                             | Inr (v, value_len) \<Rightarrow>
                                 (case put_char v (trim_len v value_len) NULc of
                                    Inl e \<Rightarrow> Inl e
                                  | Inr v \<Rightarrow> Inr \<lparr>arr_name = nm, arr_value = v\<rparr>)))"

text \<open>
  The callers read the arrays as strings, for which the former contents of the structure do not
  matter (theorem \<open>config_parse_line_exact\<close>).
\<close>

definition config_strings :: "config_arrays \<Rightarrow> config" where
  "config_strings cfg = \<lparr>cfg_name = c_string (arr_name cfg), cfg_value = c_string (arr_value cfg)\<rparr>"

definition config_parse_line :: "string \<Rightarrow> config_error + config" where
  "config_parse_line line = map_sum id config_strings (config_parse_static config_static line)"

text \<open>
  The specification on strings: the name ends at a blank or an equals sign and has at most 63
  characters; of the value, the first 60 characters count, without the blanks at their end. A value that
  still has 60 characters then leaves no room for its terminator.
\<close>

definition trim_right :: "string \<Rightarrow> string" where
  "trim_right s = rev (dropWhile isspace (rev s))"

definition line_spec :: "string \<Rightarrow> config_error + config" where
  "line_spec line =
     (let l1 = dropWhile isspace line;
          nm = takeWhile (\<lambda>c. \<not> isspace c \<and> c \<noteq> CHR ''='') (take MAX_NAME_LEN l1)
      in if length nm = MAX_NAME_LEN then Inl Parse_error
         else case dropWhile isspace (drop (length nm) l1) of
                [] \<Rightarrow> Inl Parse_error
              | c # l2 \<Rightarrow>
                  if c \<noteq> CHR ''='' then Inl Parse_error
                  else let v = trim_right (take MAX_VALUE_LEN (dropWhile isspace l2))
                       in if length v = MAX_VALUE_LEN then Inl Array_overrun
                          else Inr \<lparr>cfg_name = nm, cfg_value = v\<rparr>)"

text \<open>
  Reading a line from the unread rest of the file into a buffer with \<open>room\<close> bytes left; \<open>acc\<close> is
  what the buffer holds, last character first. \<open>None\<close> is the return value -1.
\<close>

definition get_char_from_config_file :: "string \<Rightarrow> (char \<times> string) option" where
  "get_char_from_config_file input = (case input of [] \<Rightarrow> None | c # rest \<Rightarrow> Some (c, rest))"

function read_line :: "nat \<Rightarrow> string \<Rightarrow> string \<Rightarrow> string option \<times> string" where
  "read_line room acc input =
     (if room = 0 then (None, input)
      else case get_char_from_config_file input of
             None \<Rightarrow> (None, input)
           | Some (c, rest) \<Rightarrow>
               if c = CR then read_line room acc rest
               else if c = LF then (Some (rev acc), rest)
               else read_line (room - 1) (c # acc) rest)"
  by pat_completeness auto
termination
  by (relation "measure (\<lambda>(room, acc, input). length input)")
    (auto simp: get_char_from_config_file_def split: list.splits)

declare read_line.simps [simp del]

definition config_auto_parse :: "config_var list \<Rightarrow> config \<Rightarrow> ints \<Rightarrow> ints" where
  "config_auto_parse vars cfg m =
     (case find (\<lambda>v. var_name v = cfg_name cfg) vars of
        None \<Rightarrow> m
      | Some v \<Rightarrow> m(var_ptr v := word_of_int (atoi (cfg_value cfg))))"

definition skip_line :: "string \<Rightarrow> bool" where
  "skip_line l \<longleftrightarrow> l = [] \<or> hd l = CHR ''#''"

lemma read_line_shorter: "read_line room acc input = (Some l, rest) \<Longrightarrow> length rest < length input"
proof (induction room acc input arbitrary: l rest rule: read_line.induct)
  case (1 room acc input)
  then show ?case
    by (subst (asm) (3) read_line.simps)
      (auto simp: get_char_from_config_file_def less_SucI split: list.splits if_splits)
qed

text \<open>
  The result is the last configuration line read (\<open>None\<close> for the null pointer) with the store; a
  parse error ends the loop but keeps what the lines before it have set.
\<close>

function config_parse :: "config_var list \<Rightarrow> config option \<Rightarrow> ints \<Rightarrow> string \<Rightarrow> config_error + config option \<times> ints" where
  "config_parse vars cfg m input =
     (case read_line LINE_BUF [] input of
        (None, _) \<Rightarrow> Inr (cfg, m)
      | (Some buf, rest) \<Rightarrow>
          let line = c_string buf in
          if skip_line line then config_parse vars cfg m rest
          else case config_parse_line line of
                 Inl Parse_error \<Rightarrow> Inr (None, m)
               | Inl Array_overrun \<Rightarrow> Inl Array_overrun
               | Inr new_config \<Rightarrow> config_parse vars (Some new_config) (config_auto_parse vars new_config m) rest)"
  by pat_completeness auto
termination
  by (relation "measure (\<lambda>(vars, cfg, m, input). length input)") (auto dest: read_line_shorter [OF sym])

declare config_parse.simps [simp del]

text \<open>The loop of \<^verbatim>\<open>module_config_parse\<close>: here every variable of that name is set.\<close>

definition module_set_all :: "config_var list \<Rightarrow> config \<Rightarrow> ints \<Rightarrow> ints" where
  "module_set_all vars cfg m =
     foldl (\<lambda>m v. if cfg_name cfg = var_name v then m(var_ptr v := word_of_int (atoi (cfg_value cfg))) else m) m vars"

function module_config_parse :: "config_var list \<Rightarrow> ints \<Rightarrow> string \<Rightarrow> config_error + ints" where
  "module_config_parse vars m input =
     (case read_line LINE_BUF [] input of
        (None, _) \<Rightarrow> Inr m
      | (Some buf, rest) \<Rightarrow>
          let line = c_string buf in
          if skip_line line then module_config_parse vars m rest
          else case config_parse_line line of
                 Inl Parse_error \<Rightarrow> Inr m
               | Inl Array_overrun \<Rightarrow> Inl Array_overrun
               | Inr new_config \<Rightarrow> module_config_parse vars (module_set_all vars new_config m) rest)"
  by pat_completeness auto
termination
  by (relation "measure (\<lambda>(vars, m, input). length input)") (auto dest: read_line_shorter [OF sym])

declare module_config_parse.simps [simp del]

section \<open>Configuration variables\<close>

text \<open>
  \<open>mods\<close> are the configuration tables of the valid modules, in slot order; they are searched after
  the core table.
\<close>

definition module_get_config_var :: "config_var list list \<Rightarrow> string \<Rightarrow> config_var option" where
  "module_get_config_var mods nm = find (\<lambda>v. var_name v = nm) (concat mods)"

definition module_config_var_lookup :: "config_var list list \<Rightarrow> u32 \<Rightarrow> config_var option" where
  "module_config_var_lookup mods ptr = find (\<lambda>v. var_ptr v = ptr) (concat mods)"

definition config_var_lookup :: "config_var list \<Rightarrow> config_var list list \<Rightarrow> u32 \<Rightarrow> config_var option" where
  "config_var_lookup vars mods ptr =
     (case find (\<lambda>v. var_ptr v = ptr) vars of Some v \<Rightarrow> Some v | None \<Rightarrow> module_config_var_lookup mods ptr)"

definition get_config_var_struct :: "config_var list \<Rightarrow> config_var list list \<Rightarrow> string \<Rightarrow> config_var option" where
  "get_config_var_struct vars mods nm =
     (case find (\<lambda>v. var_name v = nm) vars of Some v \<Rightarrow> Some v | None \<Rightarrow> module_get_config_var mods nm)"

definition get_config_var :: "config_var list \<Rightarrow> config_var list list \<Rightarrow> string \<Rightarrow> ints \<Rightarrow> u32" where
  "get_config_var vars mods nm m =
     (case get_config_var_struct vars mods nm of
        None \<Rightarrow> 0
      | Some v \<Rightarrow> if var_ptr v \<noteq> 0 then m (var_ptr v) else 0)"

definition set_config_var_struct :: "config_var option \<Rightarrow> u32 \<Rightarrow> ints \<Rightarrow> u32 \<times> ints" where
  "set_config_var_struct var new_value m =
     (case var of
        None \<Rightarrow> (0, m)
      | Some v \<Rightarrow>
          if var_ptr v = 0 then (0, m)
          else case change_cbr v of
                 None \<Rightarrow> (1, m(var_ptr v := new_value))
               | Some cbr \<Rightarrow>
                   let cbr_result = cbr (m (var_ptr v)) new_value in
                   if cbr_result \<noteq> 0 then (cbr_result, m(var_ptr v := new_value)) else (0, m))"

definition set_config_var :: "config_var list \<Rightarrow> config_var list list \<Rightarrow> string \<Rightarrow> u32 \<Rightarrow> ints \<Rightarrow> u32 \<times> ints" where
  "set_config_var vars mods nm new_value m =
     set_config_var_struct (get_config_var_struct vars mods nm) new_value m"

definition set_config_var_ptr :: "config_var list \<Rightarrow> config_var list list \<Rightarrow> u32 \<Rightarrow> u32 \<Rightarrow> ints \<Rightarrow> u32 \<times> ints" where
  "set_config_var_ptr vars mods ptr new_value m =
     (let var = config_var_lookup vars mods ptr in
      if ptr \<noteq> 0 \<and> var = None then (1, m(ptr := new_value))
      else set_config_var_struct var new_value m)"

definition config_var_was_changed :: "config_var list \<Rightarrow> config_var list list \<Rightarrow> u32 \<Rightarrow> ints \<Rightarrow> bool" where
  "config_var_was_changed vars mods ptr m =
     (case config_var_lookup vars mods ptr of None \<Rightarrow> False | Some v \<Rightarrow> default_value v \<noteq> m (var_ptr v))"

definition config_var_restore_default :: "config_var list \<Rightarrow> config_var list list \<Rightarrow> u32 \<Rightarrow> ints \<Rightarrow> u32 \<times> ints" where
  "config_var_restore_default vars mods ptr m =
     (case config_var_lookup vars mods ptr of None \<Rightarrow> (0, m) | Some v \<Rightarrow> (1, m(var_ptr v := default_value v)))"

section \<open>Saving\<close>

record build_info =
  build_version :: string
  build_id :: string
  build_date :: string
  build_user :: string

record tm =
  tm_year :: nat
  tm_mon :: nat
  tm_mday :: nat
  tm_hour :: nat
  tm_min :: nat
  tm_sec :: nat

definition header_text :: "build_info \<Rightarrow> string" where
  "header_text b = ''# Magic Lantern '' @ build_version b @ '' ('' @ build_id b @ '')'' @ [LF] @
     ''# Built on '' @ build_date b @ '' by '' @ build_user b @ [LF]"

definition saved_on :: "tm \<Rightarrow> string" where
  "saved_on t = ''# Configuration saved on '' @ show_pad 4 (tm_year t + 1900) @ ''/'' @ show_pad 2 (tm_mon t + 1) @
     ''/'' @ show_pad 2 (tm_mday t) @ '' '' @ show_pad 2 (tm_hour t) @ '':'' @ show_pad 2 (tm_min t) @
     '':'' @ show_pad 2 (tm_sec t) @ [LF]"

definition var_line :: "config_var \<Rightarrow> ints \<Rightarrow> string" where
  "var_line v m = var_name v @ '' = '' @ show_int (sint (m (var_ptr v))) @ [CR, LF]"

text \<open>The loop over the variables: those that differ from their default are printed and counted.\<close>

fun save_vars :: "config_var list \<Rightarrow> ints \<Rightarrow> int \<Rightarrow> string \<Rightarrow> int \<times> string" where
  "save_vars [] m count msg = (count, msg)"
| "save_vars (v # vs) m count msg =
     (if m (var_ptr v) = default_value v then save_vars vs m count msg
      else save_vars vs m (count + 1) (msg @ snprintf (MAX_SIZE - length msg - 1) (var_line v m)))"

definition config_text :: "build_info \<Rightarrow> tm \<Rightarrow> config_var list \<Rightarrow> ints \<Rightarrow> int \<times> string" where
  "config_text b now vars m =
     (let msg = snprintf MAX_SIZE (header_text b);
          msg2 = msg @ snprintf (MAX_SIZE - length msg) (saved_on now)
      in save_vars vars m 0 msg2)"

text \<open>
  Canon's file operations: reading a whole file, creating a file with given contents (\<open>None\<close> when
  the file cannot be created), removing, asking for the size of a file, for a directory, creating a
  directory, listing a directory with the directory attribute of each entry (\<open>None\<close> on error).
\<close>

record 'fs fio =
  read_entire_file :: "'fs \<Rightarrow> string \<Rightarrow> string option"
  create_file :: "'fs \<Rightarrow> string \<Rightarrow> string \<Rightarrow> 'fs option"
  remove_file :: "'fs \<Rightarrow> string \<Rightarrow> 'fs"
  file_exists :: "'fs \<Rightarrow> string \<Rightarrow> bool"
  is_dir :: "'fs \<Rightarrow> string \<Rightarrow> bool"
  create_dir :: "'fs \<Rightarrow> string \<Rightarrow> 'fs"
  list_dir :: "'fs \<Rightarrow> string \<Rightarrow> (bool \<times> string) list option"

definition config_save_file :: "'fs fio \<Rightarrow> build_info \<Rightarrow> tm \<Rightarrow> config_var list \<Rightarrow> ints \<Rightarrow> string \<Rightarrow> 'fs \<Rightarrow> int \<times> 'fs" where
  "config_save_file io b now vars m filename fs =
     (let (count, msg) = config_text b now vars m in
      case create_file io fs filename msg of None \<Rightarrow> (- 1, fs) | Some fs' \<Rightarrow> (count, fs'))"

definition module_config_text :: "string \<Rightarrow> string \<Rightarrow> config_var list \<Rightarrow> ints \<Rightarrow> int \<times> string" where
  "module_config_text nm filename vars m =
     save_vars vars m 0 (snprintf MAX_SIZE (''# Config file for module '' @ nm @ '' ('' @ filename @ '')'' @ [LF, LF]))"

text \<open>\<open>cvars = None\<close> is a module without configuration table. The return value -1 is the unsigned \<open>2^32 - 1\<close>.\<close>

definition module_config_save ::
  "'fs fio \<Rightarrow> string \<Rightarrow> string \<Rightarrow> string \<Rightarrow> config_var list option \<Rightarrow> ints \<Rightarrow> 'fs \<Rightarrow> u32 \<times> 'fs" where
  "module_config_save io filename mod_name mod_file cvars m fs =
     (case cvars of
        None \<Rightarrow> (- 1, fs)
      | Some vars \<Rightarrow>
          let (count, msg) = module_config_text mod_name mod_file vars m in
          if count = 0 then (0, remove_file io fs filename)
          else case create_file io fs filename msg of None \<Rightarrow> (- 1, fs) | Some fs' \<Rightarrow> (0, fs'))"

definition module_config_load ::
  "'fs fio \<Rightarrow> string \<Rightarrow> config_var list option \<Rightarrow> ints \<Rightarrow> 'fs \<Rightarrow> config_error + u32 \<times> ints" where
  "module_config_load io filename cvars m fs =
     (case cvars of
        None \<Rightarrow> Inr (- 1, m)
      | Some vars \<Rightarrow>
          (case read_entire_file io fs filename of
             None \<Rightarrow> Inr (- 1, m)
           | Some buf \<Rightarrow> (case module_config_parse vars m buf of Inl e \<Rightarrow> Inl e | Inr m' \<Rightarrow> Inr (0, m'))))"

definition config_flag_file_setting_load :: "'fs fio \<Rightarrow> string \<Rightarrow> 'fs \<Rightarrow> bool" where
  "config_flag_file_setting_load io file fs = file_exists io fs file"

definition config_flag_file_setting_save :: "'fs fio \<Rightarrow> string \<Rightarrow> bool \<Rightarrow> 'fs \<Rightarrow> 'fs" where
  "config_flag_file_setting_save io file setting fs =
     (let fs1 = remove_file io fs file in
      if setting then (case create_file io fs1 file [] of None \<Rightarrow> fs1 | Some fs2 \<Rightarrow> fs2) else fs1)"

section \<open>Presets, loading and saving\<close>

record config_state =
  config_selected :: bool
  config_selected_by_key :: string
  config_selected_by_mode :: string
  config_selected_by_name :: string
  config_ok :: bool
  config_deleted :: bool
  config_autosave :: bool
  config_saved :: bool
  config_preset_index :: nat
  config_new_preset_index :: nat
  config_preset_num :: nat
  config_preset_choices :: "string list"
  config_dir :: string
  config_preset_name :: "string option"
  config_ints :: ints

text \<open>
  \<open>Name_underread\<close>: the suffix test reads before the array for names shorter than four characters.
  \<open>Format_directive\<close>: the preset name is used as a format string and contains a conversion.
  \<open>Bad_config\<close>: the configuration file overruns the value buffer.
\<close>

datatype preset_error = Name_underread | Format_directive | Bad_config

definition preset_choices_init :: "string list" where
  "preset_choices_init =
     [''OFF'', ''Startup mode'', ''Startup key'', ''Preset 1   '', ''Preset 2   '', ''Preset 3   '',
      ''Preset 4   '', ''Preset 5   '', ''Preset 6   '', ''Preset 7   '', ''Preset 8   '',
      ''Preset 9   '', ''Preset 10  '', ''Preset 11  '', ''Preset 12  '', ''Preset 13  '']"

definition config_init :: "ints \<Rightarrow> config_state" where
  "config_init m =
     \<lparr>config_selected = False, config_selected_by_key = [], config_selected_by_mode = [],
      config_selected_by_name = [], config_ok = False, config_deleted = False, config_autosave = True,
      config_saved = False, config_preset_index = 0, config_new_preset_index = 0, config_preset_num = 3,
      config_preset_choices = preset_choices_init, config_dir = [], config_preset_name = None, config_ints = m\<rparr>"

definition SETTINGS :: string where
  "SETTINGS = ''ML/SETTINGS/''"

definition config_preset_file :: string where
  "config_preset_file = ''ML/SETTINGS/CURRENT.SET''"

definition config_init_early :: "config_state \<Rightarrow> config_state" where
  "config_init_early st = st\<lparr>config_dir := snprintf 128 SETTINGS\<rparr>"

definition suffix4 :: "string \<Rightarrow> string" where
  "suffix4 nm = drop (length nm - 4) nm"

fun config_preset_scan_loop :: "(bool \<times> string) list \<Rightarrow> nat \<Rightarrow> string list \<Rightarrow> preset_error + nat \<times> string list" where
  "config_preset_scan_loop [] num choices = Inr (num, choices)"
| "config_preset_scan_loop ((dir, nm) # es) num choices =
     (if \<not> dir then config_preset_scan_loop es num choices
      else if nm \<noteq> [] \<and> hd nm = CHR ''.'' then config_preset_scan_loop es num choices
      else if length nm < 4 then Inl Name_underread
      else if suffix4 nm = ''.KEY'' then config_preset_scan_loop es num choices
      else if suffix4 nm = ''.MOD'' then config_preset_scan_loop es num choices
      else let choices' = choices[num := snprintf 12 nm]; num' = num + 1 in
           if num' \<ge> length choices' then Inr (num', choices')
           else config_preset_scan_loop es num' choices')"

definition config_preset_scan :: "'fs fio \<Rightarrow> 'fs \<Rightarrow> config_state \<Rightarrow> preset_error + config_state" where
  "config_preset_scan io fs st =
     (case list_dir io fs SETTINGS of
        None \<Rightarrow> Inr st
      | Some es \<Rightarrow>
          (case config_preset_scan_loop es (config_preset_num st) (config_preset_choices st) of
             Inl e \<Rightarrow> Inl e
           | Inr (num, choices) \<Rightarrow> Inr (st\<lparr>config_preset_num := num, config_preset_choices := choices\<rparr>)))"

text \<open>Makes sure that a preset directory exists and moves there; \<open>False\<close> when it still does not exist.\<close>

definition use_preset_dir :: "'fs fio \<Rightarrow> string \<Rightarrow> 'fs \<times> config_state \<Rightarrow> bool \<times> 'fs \<times> config_state" where
  "use_preset_dir io preset_dir fst_st =
     (let (fs, st) = fst_st;
          fs' = (if is_dir io fs preset_dir then fs else create_dir io fs preset_dir)
      in if is_dir io fs' preset_dir
         then (True, fs', st\<lparr>config_dir := snprintf 128 (preset_dir @ ''/'')\<rparr>)
         else (False, fs', st))"

text \<open>The first half of \<^verbatim>\<open>config_choose_startup_preset\<close>: the preset file written from the menu.\<close>

definition preset_from_file :: "'fs fio \<Rightarrow> 'fs \<times> config_state \<Rightarrow> preset_error + 'fs \<times> config_state" where
  "preset_from_file io fst_st =
     (let (fs, st0) = fst_st; st = config_init_early st0 in
      case read_entire_file io fs config_preset_file of
        None \<Rightarrow> Inr (fs, st)
      | Some buf \<Rightarrow>
          let preset_name = c_string buf in
          if preset_name = ''Startup mode'' then Inr (fs, st\<lparr>config_preset_index := 1, config_new_preset_index := 1\<rparr>)
          else if preset_name = ''Startup key'' then Inr (fs, st\<lparr>config_preset_index := 2, config_new_preset_index := 2\<rparr>)
          else if CHR ''%'' \<in> set preset_name then Inl Format_directive
          else let st1 = st\<lparr>config_selected_by_name := snprintf 9 preset_name\<rparr>;
                   (_, r) = use_preset_dir io (snprintf 128 (SETTINGS @ preset_name)) (fs, st1)
               in Inr r)"

definition config_choose_startup_preset ::
  "'fs fio \<Rightarrow> string \<Rightarrow> 'fs \<times> config_state \<Rightarrow> preset_error + string option \<times> 'fs \<times> config_state" where
  "config_choose_startup_preset io shootmode fst_st =
     (case preset_from_file io fst_st of
        Inl e \<Rightarrow> Inl e
      | Inr (fs, st0) \<Rightarrow>
      (case config_preset_scan io fs st0 of
         Inl e \<Rightarrow> Inl e
       | Inr st \<Rightarrow>
           if config_preset_index st = 2 then
             (if config_selected_by_key st \<noteq> [] then
                let (ok, r) = use_preset_dir io (snprintf 128 (SETTINGS @ config_selected_by_key st @ ''.KEY'')) (fs, st)
                in Inr (if ok then Some (config_selected_by_key st) else None, r)
              else Inr (None, fs, st))
           else
             let st1 = st\<lparr>config_selected_by_key := []\<rparr> in
             if config_preset_index st1 = 1 then
               let st2 = st1\<lparr>config_selected_by_mode := snprintf 9 shootmode\<rparr>;
                   (ok, r) = use_preset_dir io (snprintf 128 (SETTINGS @ config_selected_by_mode st2 @ ''.MOD'')) (fs, st2)
               in Inr (if ok then Some (config_selected_by_mode st2) else None, r)
             else
               case find_index (\<lambda>c. c = config_selected_by_name st1) (take (config_preset_num st1) (config_preset_choices st1)) of
                 Some i \<Rightarrow> Inr (Some (config_selected_by_name st1), fs,
                              st1\<lparr>config_preset_index := i, config_new_preset_index := i\<rparr>)
               | None \<Rightarrow> Inr (None, fs, st1)))"

definition handle_select_config_file_by_key_at_startup :: "int \<Rightarrow> config_state \<Rightarrow> int \<times> config_state" where
  "handle_select_config_file_by_key_at_startup param st =
     (if config_selected st then (1, st)
      else case (if param = 0x6 then Some ''MENU'' else if param = 0x7 then Some ''INFO''
                 else if param = 0xb then Some ''PLAY'' else None) of
             None \<Rightarrow> (1, st)
           | Some key_name \<Rightarrow> (0, st\<lparr>config_selected_by_key := snprintf 9 key_name\<rparr>))"

definition autosave_flag_file :: "config_state \<Rightarrow> string" where
  "autosave_flag_file st = snprintf 128 (config_dir st @ ''AUTOSAVE.NEG'')"

definition config_parse_file ::
  "'fs fio \<Rightarrow> config_var list \<Rightarrow> string \<Rightarrow> 'fs \<times> config_state \<Rightarrow> preset_error + 'fs \<times> config_state" where
  "config_parse_file io vars filename fst_st =
     (let (fs, st) = fst_st;
          st1 = st\<lparr>config_autosave := \<not> config_flag_file_setting_load io (autosave_flag_file st) fs\<rparr>
      in case config_parse vars None (config_ints st1)
              (case read_entire_file io fs filename of None \<Rightarrow> [] | Some buf \<Rightarrow> buf) of
           Inl _ \<Rightarrow> Inl Bad_config
         | Inr (_, m) \<Rightarrow> Inr (fs, st1\<lparr>config_ints := m\<rparr>))"

definition config_file_name :: "config_state \<Rightarrow> string" where
  "config_file_name st = snprintf 128 (config_dir st @ ''magic.cfg'')"

definition config_load ::
  "'fs fio \<Rightarrow> config_var list \<Rightarrow> string \<Rightarrow> 'fs \<times> config_state \<Rightarrow> preset_error + 'fs \<times> config_state" where
  "config_load io vars shootmode fst_st =
     (case config_choose_startup_preset io shootmode (fst fst_st, (snd fst_st)\<lparr>config_selected := True\<rparr>) of
        Inl e \<Rightarrow> Inl e
      | Inr (preset, fs, st) \<Rightarrow>
          let st1 = st\<lparr>config_preset_name := preset\<rparr> in
          (case config_parse_file io vars (config_file_name st1) (fs, st1) of
             Inl e \<Rightarrow> Inl e
           | Inr (fs', st2) \<Rightarrow> Inr (fs', st2\<lparr>config_ok := True\<rparr>)))"

text \<open>
  \<open>disp_bits\<close> is \<^verbatim>\<open>update_disp_mode_bits_from_params\<close>; \<open>save_others\<close> writes the menu flags,
  the module configurations and runs the modules' save callbacks.
\<close>

definition config_save ::
  "'fs fio \<Rightarrow> build_info \<Rightarrow> tm \<Rightarrow> config_var list \<Rightarrow> (ints \<Rightarrow> ints) \<Rightarrow> (ints \<Rightarrow> 'fs \<Rightarrow> 'fs) \<Rightarrow>
   'fs \<times> config_state \<Rightarrow> 'fs \<times> config_state" where
  "config_save io b now vars disp_bits save_others fst_st =
     (let (fs, st) = fst_st;
          m = disp_bits (config_ints st);
          (_, fs1) = config_save_file io b now vars m (config_file_name st) fs;
          fs2 = save_others m fs1
      in (fs2, st\<lparr>config_ints := m, config_autosave := config_deleted st \<or> config_autosave st, config_deleted := False\<rparr>))"

definition config_save_at_shutdown ::
  "'fs fio \<Rightarrow> build_info \<Rightarrow> tm \<Rightarrow> config_var list \<Rightarrow> (ints \<Rightarrow> ints) \<Rightarrow> (ints \<Rightarrow> 'fs \<Rightarrow> 'fs) \<Rightarrow>
   'fs \<times> config_state \<Rightarrow> 'fs \<times> config_state" where
  "config_save_at_shutdown io b now vars disp_bits save_others fst_st =
     (let (fs, st) = fst_st in
      if config_ok st \<and> config_autosave st \<and> \<not> config_saved st
      then config_save io b now vars disp_bits save_others (fs, st\<lparr>config_saved := True\<rparr>)
      else (fs, st))"

definition delete_config :: "'fs fio \<Rightarrow> 'fs \<times> config_state \<Rightarrow> 'fs \<times> config_state" where
  "delete_config io fst_st =
     (let (fs, st) = fst_st in
      case list_dir io fs (config_dir st) of
        None \<Rightarrow> (fs, st)
      | Some es \<Rightarrow>
          (foldl (\<lambda>fs (dir, nm). if dir then fs else remove_file io fs (snprintf 128 (config_dir st @ nm))) fs es,
           st\<lparr>config_deleted := True, config_autosave := False\<rparr>))"

definition config_autosave_toggle :: "'fs fio \<Rightarrow> 'fs \<times> config_state \<Rightarrow> 'fs \<times> config_state" where
  "config_autosave_toggle io fst_st =
     (let (fs, st) = fst_st;
          fs' = config_flag_file_setting_save io (autosave_flag_file st) (config_autosave st) fs
      in (fs', st\<lparr>config_autosave := \<not> config_flag_file_setting_load io (autosave_flag_file st) fs'\<rparr>))"

text \<open>\<open>new_index\<close> is the index after \<^verbatim>\<open>menu_numeric_toggle\<close>.\<close>

definition config_preset_write :: "'fs fio \<Rightarrow> nat \<Rightarrow> 'fs \<times> config_state \<Rightarrow> 'fs \<times> config_state" where
  "config_preset_write io new_index fst_st =
     (let (fs, st) = fst_st; st' = st\<lparr>config_new_preset_index := new_index\<rparr> in
      if new_index = 0 then (remove_file io fs config_preset_file, st')
      else (case create_file io fs config_preset_file
               (if new_index = 1 then ''Startup mode'' else if new_index = 2 then ''Startup key''
                else snprintf 512 (config_preset_choices st ! new_index)) of
              None \<Rightarrow> fs
            | Some fs' \<Rightarrow> fs', st'))"

section \<open>Specification vocabulary\<close>

definition valid_name :: "string \<Rightarrow> bool" where
  "valid_name nm \<longleftrightarrow> nm \<noteq> [] \<and> length nm < MAX_NAME_LEN \<and> (\<forall>c \<in> set nm. \<not> isspace c \<and> c \<noteq> CHR ''='')
     \<and> hd nm \<noteq> CHR ''#''"

definition vars_ok :: "config_var list \<Rightarrow> bool" where
  "vars_ok vars \<longleftrightarrow> distinct (map var_name vars) \<and> distinct (map var_ptr vars) \<and> (\<forall>v \<in> set vars. valid_name (var_name v))"

definition plain :: "string \<Rightarrow> bool" where
  "plain s \<longleftrightarrow> (\<forall>c \<in> set s. c \<noteq> LF \<and> c \<noteq> CR)"

definition build_ok :: "build_info \<Rightarrow> bool" where
  "build_ok b \<longleftrightarrow> plain (build_version b @ build_id b @ build_date b @ build_user b)
     \<and> length (build_version b @ build_id b @ build_date b @ build_user b) \<le> 900"

definition tm_ok :: "tm \<Rightarrow> bool" where
  "tm_ok t \<longleftrightarrow> tm_year t < 8000 \<and> tm_mon t < 12 \<and> tm_mday t < 32 \<and> tm_hour t < 24 \<and> tm_min t < 60 \<and> tm_sec t < 61"

definition changed_vars :: "config_var list \<Rightarrow> ints \<Rightarrow> config_var list" where
  "changed_vars vars m = filter (\<lambda>v. m (var_ptr v) \<noteq> default_value v) vars"

definition full_text :: "build_info \<Rightarrow> tm \<Rightarrow> config_var list \<Rightarrow> ints \<Rightarrow> string" where
  "full_text b now vars m = header_text b @ saved_on now @ concat (map (\<lambda>v. var_line v m) (changed_vars vars m))"

text \<open>A file that was created is read back, as Canon's file system does.\<close>

definition fio_ok :: "'fs fio \<Rightarrow> bool" where
  "fio_ok io \<longleftrightarrow> (\<forall>fs fn txt fs'. create_file io fs fn txt = Some fs' \<longrightarrow> read_entire_file io fs' fn = Some txt)"

section \<open>Facts\<close>

subsection \<open>Lines\<close>

lemma read_line_room: "room \<noteq> 0 \<Longrightarrow> read_line room acc (c # s) =
    (if c = CR then read_line room acc s else if c = LF then (Some (rev acc), s) else read_line (room - 1) (c # acc) s)"
  by (subst read_line.simps) (simp add: get_char_from_config_file_def)

lemma read_line_plain: "plain s \<Longrightarrow> length s < room \<Longrightarrow>
    read_line room acc (s @ LF # rest) = (Some (rev acc @ s), rest)
    \<and> read_line room acc (s @ CR # LF # rest) = (Some (rev acc @ s), rest)"
proof (induction s arbitrary: room acc)
  case Nil
  then show ?case by (simp add: read_line_room)
next
  case (Cons c s)
  then show ?case using Cons.IH [of "room - 1" "c # acc"] by (simp add: plain_def read_line_room)
qed

subsection \<open>Parsing a line in place\<close>

lemma copy_name_eq:
  "length a = MAX_NAME_LEN \<Longrightarrow> n \<le> MAX_NAME_LEN \<Longrightarrow>
    t = takeWhile (\<lambda>c. \<not> isspace c \<and> c \<noteq> CHR ''='') (take (MAX_NAME_LEN - n) line) \<Longrightarrow>
    copy_name a n line = Inr (take n a @ t @ drop (n + length t) a, n + length t, drop (length t) line)"
proof (induction a n line arbitrary: t rule: copy_name.induct)
  case (2 a n c line)
  show ?case
  proof (cases "\<not> isspace c \<and> c \<noteq> CHR ''='' \<and> n < MAX_NAME_LEN")
    case True
    define u where "u = takeWhile (\<lambda>c. \<not> isspace c \<and> c \<noteq> CHR ''='') (take (MAX_NAME_LEN - (n + 1)) line)"
    have "MAX_NAME_LEN - n = Suc (MAX_NAME_LEN - (n + 1))" using True by (simp add: Suc_diff_Suc)
    then have t: "t = c # u" using 2(4) True by (simp add: u_def)
    have p: "put_char a n c = Inr (a[n := c])" using 2(2) True by (simp add: put_char_def)
    have "copy_name (a[n := c]) (n + 1) line =
        Inr (take (n + 1) (a[n := c]) @ u @ drop (n + 1 + length u) (a[n := c]), n + 1 + length u, drop (length u) line)"
      using 2(2) True by (intro 2(1) [OF True p]) (simp_all add: u_def)
    moreover have "take (n + 1) (a[n := c]) = take n a @ [c]" using 2(2) True by (simp add: take_Suc_conv_app_nth)
    ultimately show ?thesis using True p t by simp
  next
    case False
    then have "t = []" using 2(3,4) by (cases "MAX_NAME_LEN - n") auto
    then show ?thesis using False by auto
  qed
qed simp

lemma copy_value_eq:
  "length a = MAX_VALUE_LEN \<Longrightarrow> n \<le> MAX_VALUE_LEN \<Longrightarrow> t = take (MAX_VALUE_LEN - n) line \<Longrightarrow>
    copy_value a n line = Inr (take n a @ t @ drop (n + length t) a, n + length t)"
proof (induction a n line arbitrary: t rule: copy_value.induct)
  case (2 a n c line)
  show ?case
  proof (cases "n < MAX_VALUE_LEN")
    case True
    define u where "u = take (MAX_VALUE_LEN - (n + 1)) line"
    have "MAX_VALUE_LEN - n = Suc (MAX_VALUE_LEN - (n + 1))" using True by (simp add: Suc_diff_Suc)
    then have t: "t = c # u" using 2(4) by (simp add: u_def)
    have p: "put_char a n c = Inr (a[n := c])" using 2(2) True by (simp add: put_char_def)
    have "copy_value (a[n := c]) (n + 1) line =
        Inr (take (n + 1) (a[n := c]) @ u @ drop (n + 1 + length u) (a[n := c]), n + 1 + length u)"
      using 2(2) True by (intro 2(1) [OF True p]) (simp_all add: u_def)
    moreover have "take (n + 1) (a[n := c]) = take n a @ [c]" using 2(2) True by (simp add: take_Suc_conv_app_nth)
    ultimately show ?thesis using True p t by simp
  next
    case False
    then show ?thesis using 2(3,4) by simp
  qed
qed simp

lemma trim_len_eq: "n \<le> length a \<Longrightarrow> trim_len a n = length (trim_right (take n a))"
  by (induction n) (simp_all add: trim_right_def take_Suc_conv_app_nth)

lemma trim_right_take: "trim_right s = take (length (trim_right s)) s"
proof -
  have "rev s = takeWhile isspace (rev s) @ dropWhile isspace (rev s)" by simp
  then have "s = trim_right s @ rev (takeWhile isspace (rev s))" unfolding trim_right_def by (metis rev_append rev_rev_ident)
  then show ?thesis by (metis append_eq_conv_conj)
qed

lemma c_string_terminated: "n < length a \<Longrightarrow> NULc \<notin> set (take n a) \<Longrightarrow> c_string (a[n := NULc]) = take n a"
  unfolding c_string_def by (subst upd_conv_take_nth_drop, assumption, subst takeWhile_append2) auto

lemma config_parse_static_eq:
  assumes "NULc \<notin> set line" and "length (arr_name cfg) = MAX_NAME_LEN" and "length (arr_value cfg) = MAX_VALUE_LEN"
  shows "map_sum id config_strings (config_parse_static cfg line) = line_spec line"
proof -
  define l1 where "l1 = dropWhile isspace line"
  define nm where "nm = takeWhile (\<lambda>c. \<not> isspace c \<and> c \<noteq> CHR ''='') (take MAX_NAME_LEN l1)"
  let ?n = "nm @ drop (length nm) (arr_name cfg)"
  have l1: "NULc \<notin> set l1" using assms(1) unfolding l1_def by (meson set_dropWhileD)
  have cn: "copy_name (arr_name cfg) 0 l1 = Inr (?n, length nm, drop (length nm) l1)"
    using copy_name_eq [OF assms(2), of 0 nm l1] by (simp add: nm_def)
  have le: "length nm \<le> MAX_NAME_LEN" unfolding nm_def by (rule le_trans [OF length_takeWhile_le]) simp
  have nn: "NULc \<notin> set nm" using l1 unfolding nm_def by (meson in_set_takeD set_takeWhileD)
  have spec: "line_spec line = (if length nm = MAX_NAME_LEN then Inl Parse_error
      else case dropWhile isspace (drop (length nm) l1) of [] \<Rightarrow> Inl Parse_error
        | c # l2 \<Rightarrow> if c \<noteq> CHR ''='' then Inl Parse_error
            else let v = trim_right (take MAX_VALUE_LEN (dropWhile isspace l2))
              in if length v = MAX_VALUE_LEN then Inl Array_overrun else Inr \<lparr>cfg_name = nm, cfg_value = v\<rparr>)"
    unfolding line_spec_def Let_def l1_def nm_def ..
  show ?thesis
  proof (cases "length nm = MAX_NAME_LEN")
    case True
    then show ?thesis using cn by (simp add: config_parse_static_def spec l1_def [symmetric])
  next
    case False
    then have lt: "length nm < length ?n" using le assms(2) by simp
    then have p: "put_char ?n (length nm) NULc = Inr (?n[length nm := NULc])" by (simp add: put_char_def)
    have name: "c_string (?n[length nm := NULc]) = nm" using c_string_terminated [OF lt] nn by simp
    show ?thesis
    proof (cases "dropWhile isspace (drop (length nm) l1)")
      case Nil
      then show ?thesis using cn p False by (simp del: dropWhile_eq_Nil_conv add: config_parse_static_def spec l1_def [symmetric])
    next
      case (Cons c l2)
      define w where "w = take MAX_VALUE_LEN (dropWhile isspace l2)"
      let ?v = "w @ drop (length w) (arr_value cfg)"
      have "set l2 \<subseteq> set l1" using Cons by (metis set_dropWhileD in_set_dropD list.set_intros(2) subsetI)
      then have nw: "NULc \<notin> set w" using l1 unfolding w_def by (meson in_set_takeD set_dropWhileD subsetD)
      have cv: "copy_value (arr_value cfg) 0 (dropWhile isspace l2) = Inr (?v, length w)"
        using copy_value_eq [OF assms(3), of 0 w "dropWhile isspace l2"] by (simp add: w_def)
      have wl: "length w \<le> MAX_VALUE_LEN" by (simp add: w_def)
      then have lv: "length ?v = MAX_VALUE_LEN" using assms(3) by simp
      have tl: "trim_len ?v (length w) = length (trim_right w)" using trim_len_eq [of "length w" ?v] by simp
      let ?k = "length (trim_right w)"
      have kw: "?k \<le> length w" using trim_right_take [of w] by (metis length_take min.cobounded1 min_def nat_le_linear)
      have take: "take ?k ?v = trim_right w" using trim_right_take [of w] kw by simp
      have vstr: "c_string (?v[?k := NULc]) = trim_right w" if "?k < MAX_VALUE_LEN"
        using c_string_terminated [of ?k ?v] that lv take nw trim_right_take [of w] by (metis in_set_takeD)
      have "?k \<le> MAX_VALUE_LEN" using kw wl by simp
      then show ?thesis using cn p cv tl lv vstr name False Cons
        by (cases "?k = MAX_VALUE_LEN")
          (simp_all add: config_parse_static_def spec l1_def [symmetric] w_def [symmetric] put_char_def config_strings_def Let_def)
    qed
  qed
qed

lemma config_parse_line_eq: "NULc \<notin> set line \<Longrightarrow> config_parse_line line = line_spec line"
  unfolding config_parse_line_def by (rule config_parse_static_eq) (simp_all add: config_static_def)

lemma dropWhile_isspace_id: "s = [] \<or> \<not> isspace (hd s) \<Longrightarrow> dropWhile isspace s = s"
  by (cases s) auto

lemma trim_right_id: "s = [] \<or> \<not> isspace (last s) \<Longrightarrow> trim_right s = s"
  by (cases s rule: rev_cases) (auto simp: trim_right_def)

lemma parse_name:
  assumes "valid_name nm"
  shows "dropWhile isspace (nm @ CHR '' '' # s) = nm @ CHR '' '' # s"
    and "takeWhile (\<lambda>c. \<not> isspace c \<and> c \<noteq> CHR ''='') (take MAX_NAME_LEN (nm @ CHR '' '' # s)) = nm"
proof -
  have nm: "nm \<noteq> []" "length nm < MAX_NAME_LEN" "\<forall>c \<in> set nm. \<not> isspace c \<and> c \<noteq> CHR ''=''"
    using assms by (simp_all add: valid_name_def)
  then show "dropWhile isspace (nm @ CHR '' '' # s) = nm @ CHR '' '' # s"
    by (intro dropWhile_isspace_id) simp
  have "takeWhile (\<lambda>c. \<not> isspace c \<and> c \<noteq> CHR ''='') (nm @ CHR '' '' # t) = nm" for t
    using nm(3) by (induction nm) (auto simp: isspace_def)
  moreover have "take MAX_NAME_LEN (nm @ CHR '' '' # s) = nm @ CHR '' '' # take (MAX_NAME_LEN - length nm - 1) s"
    using nm(2) by (simp add: take_Cons' Suc_leI)
  ultimately show "takeWhile (\<lambda>c. \<not> isspace c \<and> c \<noteq> CHR ''='') (take MAX_NAME_LEN (nm @ CHR '' '' # s)) = nm" by simp
qed

lemma parse_assignment:
  assumes nm: "valid_name nm" and v: "v \<noteq> []" "\<not> isspace (hd v)" "\<not> isspace (last v)" "length v < MAX_VALUE_LEN" "NULc \<notin> set v"
  shows "config_parse_line (nm @ '' = '' @ v) = Inr \<lparr>cfg_name = nm, cfg_value = v\<rparr>"
proof -
  have len: "length nm < MAX_NAME_LEN" using nm by (simp add: valid_name_def)
  have sp: "isspace (CHR '' '')" "\<not> isspace (CHR ''='')" by (simp_all add: isspace_def)
  have "dropWhile isspace (CHR '' '' # v) = v" using v sp by (simp add: dropWhile_isspace_id)
  then have "line_spec (nm @ '' = '' @ v) = Inr \<lparr>cfg_name = nm, cfg_value = v\<rparr>"
    using parse_name [OF nm, of "''= '' @ v"] len sp v trim_right_id [of v]
    by (simp add: line_spec_def Let_def)
  moreover have "NULc \<notin> set (nm @ '' = '' @ v)" using nm v(5) by (auto simp: valid_name_def isspace_def)
  ultimately show ?thesis using config_parse_line_eq by (metis (no_types, lifting))
qed

subsection \<open>Saving and reading back\<close>

lemma save_vars_fits:
  "length (msg @ concat (map (\<lambda>v. var_line v m) (changed_vars vars m))) \<le> MAX_SIZE - 2 \<Longrightarrow>
   save_vars vars m count msg =
     (count + int (length (changed_vars vars m)), msg @ concat (map (\<lambda>v. var_line v m) (changed_vars vars m)))"
proof (induction vars arbitrary: count msg)
  case Nil
  then show ?case by (simp add: changed_vars_def)
next
  case (Cons v vars)
  show ?case
  proof (cases "m (var_ptr v) = default_value v")
    case True
    then show ?thesis using Cons by (simp add: changed_vars_def)
  next
    case False
    let ?l = "var_line v m"
    have fit: "length (msg @ ?l) + length (concat (map (\<lambda>v. var_line v m) (changed_vars vars m))) \<le> MAX_SIZE - 2"
      using Cons.prems False by (simp add: changed_vars_def)
    then have "snprintf (MAX_SIZE - length msg - 1) ?l = ?l"
      by (simp add: snprintf_def MAX_SIZE_def)
    then show ?thesis
      using Cons.IH [of "msg @ ?l" "count + 1"] fit False by (simp add: changed_vars_def)
  qed
qed

lemma config_text_fits:
  assumes "length (full_text b now vars m) \<le> MAX_SIZE - 2"
  shows "config_text b now vars m = (int (length (changed_vars vars m)), full_text b now vars m)"
proof -
  have h: "snprintf MAX_SIZE (header_text b) = header_text b"
    using assms by (simp add: snprintf_def full_text_def MAX_SIZE_def)
  have s: "snprintf (MAX_SIZE - length (header_text b)) (saved_on now) = saved_on now"
    using assms by (simp add: snprintf_def full_text_def MAX_SIZE_def)
  show ?thesis
    using save_vars_fits [of "header_text b @ saved_on now" m vars 0] assms h s
    by (simp add: config_text_def full_text_def Let_def)
qed

lemma config_parse_comment:
  assumes "plain s" and "length s < LINE_BUF" and "s \<noteq> []" and "hd s = CHR ''#''"
  shows "config_parse vars cfg m (s @ LF # rest) = config_parse vars cfg m rest"
proof -
  have "skip_line (c_string s)" using assms(3,4) by (cases s) (simp_all add: skip_line_def c_string_def)
  then show ?thesis
    using read_line_plain [OF assms(1,2), of "[]" rest] by (subst config_parse.simps) simp
qed

lemma config_parse_assignment:
  assumes nm: "valid_name nm" and v: "v \<noteq> []" "\<forall>c \<in> set v. \<not> isspace c" "length v < MAX_VALUE_LEN"
  shows "config_parse vars cfg m (nm @ '' = '' @ v @ [CR, LF] @ rest) =
    config_parse vars (Some \<lparr>cfg_name = nm, cfg_value = v\<rparr>)
      (config_auto_parse vars \<lparr>cfg_name = nm, cfg_value = v\<rparr> m) rest"
proof -
  let ?l = "nm @ '' = '' @ v"
  have chars: "\<forall>c \<in> set ?l. c \<noteq> LF \<and> c \<noteq> CR \<and> c \<noteq> NULc"
    using nm v(2) by (auto simp: valid_name_def isspace_def)
  have "plain ?l" using chars by (simp add: plain_def)
  moreover have "length ?l < LINE_BUF"
    using nm v(3) by (simp add: valid_name_def MAX_NAME_LEN_def MAX_VALUE_LEN_def LINE_BUF_def)
  ultimately have rl: "read_line LINE_BUF [] (?l @ CR # LF # rest) = (Some ?l, rest)"
    using read_line_plain [of ?l LINE_BUF "[]" rest] by simp
  have "c_string ?l = ?l" using chars unfolding c_string_def takeWhile_eq_all_conv by blast
  moreover have "\<not> skip_line ?l" using nm by (auto simp: skip_line_def valid_name_def)
  moreover have "config_parse_line ?l = Inr \<lparr>cfg_name = nm, cfg_value = v\<rparr>"
    using v by (intro parse_assignment [OF nm]) (auto simp: isspace_def)
  ultimately show ?thesis
    using rl by (subst config_parse.simps) (simp add: Let_def)
qed

lemma find_distinct:
  "distinct (map f xs) \<Longrightarrow> x \<in> set xs \<Longrightarrow> find (\<lambda>y. f y = f x) xs = Some x"
  by (induction xs) auto

lemma auto_parse_var:
  assumes "vars_ok vars" and "v \<in> set vars"
  shows "config_auto_parse vars \<lparr>cfg_name = var_name v, cfg_value = show_int (sint w)\<rparr> m = m(var_ptr v := w)"
  using find_distinct [of var_name vars v] assms by (simp add: config_auto_parse_def vars_ok_def atoi_show_int)

lemma config_parse_vars:
  assumes "vars_ok vars" and "set vs \<subseteq> set vars"
  shows "\<exists>cfg'. config_parse vars cfg m0 (concat (map (\<lambda>v. var_line v m) vs)) =
    Inr (cfg', foldl (\<lambda>m0 v. m0(var_ptr v := m (var_ptr v))) m0 vs)"
  using assms(2)
proof (induction vs arbitrary: cfg m0)
  case Nil
  have "read_line LINE_BUF [] [] = (None, [])"
    by (subst read_line.simps) (simp add: LINE_BUF_def get_char_from_config_file_def)
  then show ?case by (subst config_parse.simps) simp
next
  case (Cons v vs)
  let ?s = "show_int (sint (m (var_ptr v)))"
  have "- (2 ^ 31) \<le> sint (m (var_ptr v))" "sint (m (var_ptr v)) < 2 ^ 31"
    using sint_greater_eq [of "m (var_ptr v)"] sint_less [of "m (var_ptr v)"] by simp_all
  then have "length ?s < MAX_VALUE_LEN" using length_show_int by (force simp: MAX_VALUE_LEN_def)
  moreover have "valid_name (var_name v)" using assms(1) Cons.prems by (simp add: vars_ok_def)
  ultimately have "config_parse vars cfg m0 (concat (map (\<lambda>v. var_line v m) (v # vs))) =
      config_parse vars (Some \<lparr>cfg_name = var_name v, cfg_value = ?s\<rparr>)
        (m0(var_ptr v := m (var_ptr v))) (concat (map (\<lambda>v. var_line v m) vs))"
    using config_parse_assignment [of "var_name v" ?s vars cfg m0 "concat (map (\<lambda>v. var_line v m) vs)"]
      show_int_nonempty show_int_plain auto_parse_var [OF assms(1), of v "m (var_ptr v)" m0] Cons.prems
    by (simp add: var_line_def)
  note step = this
  have "set vs \<subseteq> set vars" using Cons.prems by simp
  from Cons.IH [OF this, of "Some \<lparr>cfg_name = var_name v, cfg_value = ?s\<rparr>" "m0(var_ptr v := m (var_ptr v))"]
  obtain cfg' where "config_parse vars (Some \<lparr>cfg_name = var_name v, cfg_value = ?s\<rparr>)
        (m0(var_ptr v := m (var_ptr v))) (concat (map (\<lambda>v. var_line v m) vs)) =
      Inr (cfg', foldl (\<lambda>m0 v. m0(var_ptr v := m (var_ptr v))) (m0(var_ptr v := m (var_ptr v))) vs)"
    by blast
  then show ?case unfolding step foldl_Cons by blast
qed

lemma foldl_store: "foldl (\<lambda>m0 v. m0(var_ptr v := m (var_ptr v))) m0 vs p =
    (if p \<in> var_ptr ` set vs then m p else m0 p)"
  by (induction vs arbitrary: m0) auto

lemma plain_simps [simp]:
  "plain (s @ t) \<longleftrightarrow> plain s \<and> plain t" "plain []" "plain (c # s) \<longleftrightarrow> c \<noteq> LF \<and> c \<noteq> CR \<and> plain s"
  by (auto simp: plain_def)

lemma plain_nospace: "\<forall>c \<in> set s. \<not> isspace c \<Longrightarrow> plain s"
  by (auto simp: plain_def isspace_def)

lemma plain_show_pad: "plain (show_pad w n)"
proof -
  have "\<forall>c \<in> set (show_nat n). \<not> isspace c"
    using show_nat_digits [of n] isdigit_no_space by (auto simp: list_all_iff)
  moreover have "\<not> isspace CHR ''0''" by (simp add: isspace_def)
  ultimately show ?thesis by (intro plain_nospace) (auto simp: show_pad_def)
qed

lemma length_show_pad: "n < 10 ^ Suc k \<Longrightarrow> length (show_pad (Suc k) n) = Suc k"
  using length_show_nat [of n k] by (simp add: show_pad_def)

lemma length_show_pad4: "n < 10000 \<Longrightarrow> length (show_pad 4 n) = 4"
proof -
  have "Suc 3 = 4" "(10::nat) ^ 4 = 10000" by simp_all
  then show "n < 10000 \<Longrightarrow> length (show_pad 4 n) = 4" using length_show_pad [of n 3] by metis
qed

lemma length_show_pad2: "n < 100 \<Longrightarrow> length (show_pad 2 n) = 2"
proof -
  have "Suc 1 = 2" "(10::nat) ^ 2 = 100" by simp_all
  then show "n < 100 \<Longrightarrow> length (show_pad 2 n) = 2" using length_show_pad [of n 1] by metis
qed

lemma config_parse_header:
  assumes "build_ok b" and "tm_ok now"
  shows "config_parse vars cfg m (header_text b @ saved_on now @ rest) = config_parse vars cfg m rest"
proof -
  let ?l1 = "''# Magic Lantern '' @ build_version b @ '' ('' @ build_id b @ '')''"
  let ?l2 = "''# Built on '' @ build_date b @ '' by '' @ build_user b"
  obtain l3 where l3: "saved_on now = l3 @ [LF]" "plain l3" "hd l3 = CHR ''#''" "l3 \<noteq> []" "length l3 < LINE_BUF"
  proof
    let ?l = "''# Configuration saved on '' @ show_pad 4 (tm_year now + 1900) @ ''/'' @ show_pad 2 (tm_mon now + 1) @
     ''/'' @ show_pad 2 (tm_mday now) @ '' '' @ show_pad 2 (tm_hour now) @ '':'' @ show_pad 2 (tm_min now) @
     '':'' @ show_pad 2 (tm_sec now)"
    show "saved_on now = ?l @ [LF]" by (simp add: saved_on_def)
    show "plain ?l" by (simp add: plain_show_pad)
    have "length (show_pad 4 (tm_year now + 1900)) = 4" "length (show_pad 2 (tm_mon now + 1)) = 2"
      "length (show_pad 2 (tm_mday now)) = 2" "length (show_pad 2 (tm_hour now)) = 2"
      "length (show_pad 2 (tm_min now)) = 2" "length (show_pad 2 (tm_sec now)) = 2"
      using assms(2) by (simp_all add: tm_ok_def length_show_pad4 length_show_pad2)
    then show "length ?l < LINE_BUF" by (simp add: LINE_BUF_def)
  qed simp_all
  have "config_parse vars cfg m (header_text b @ saved_on now @ rest) =
      config_parse vars cfg m (?l1 @ LF # ?l2 @ LF # l3 @ LF # rest)"
    by (simp add: header_text_def l3(1))
  also have "\<dots> = config_parse vars cfg m (?l2 @ LF # l3 @ LF # rest)"
    by (rule config_parse_comment) (use assms(1) in \<open>simp_all add: build_ok_def LINE_BUF_def\<close>)
  also have "\<dots> = config_parse vars cfg m (l3 @ LF # rest)"
    by (rule config_parse_comment) (use assms(1) in \<open>simp_all add: build_ok_def LINE_BUF_def\<close>)
  also have "\<dots> = config_parse vars cfg m rest"
    using l3 by (intro config_parse_comment) simp_all
  finally show ?thesis .
qed

lemma full_text_parse:
  assumes "vars_ok vars" and "build_ok b" and "tm_ok now" and "\<forall>v \<in> set vars. m0 (var_ptr v) = default_value v"
  shows "\<exists>cfg m'. config_parse vars None m0 (full_text b now vars m) = Inr (cfg, m')
    \<and> (\<forall>p. m' p = (if p \<in> var_ptr ` set vars then m p else m0 p))"
proof -
  let ?vs = "changed_vars vars m"
  let ?m = "foldl (\<lambda>m0 v. m0(var_ptr v := m (var_ptr v))) m0 ?vs"
  obtain cfg where "config_parse vars None m0 (full_text b now vars m) = Inr (cfg, ?m)"
    using config_parse_header [OF assms(2,3)] config_parse_vars [OF assms(1), of ?vs None m0 m]
    by (auto simp: full_text_def changed_vars_def)
  moreover have "?m p = (if p \<in> var_ptr ` set vars then m p else m0 p)" for p
    using assms(4) unfolding foldl_store by (auto simp: changed_vars_def)
  ultimately show ?thesis by blast
qed

subsection \<open>Bounds\<close>

lemma trim_right_props:
  "length (trim_right s) \<le> length s" "trim_right s = [] \<or> \<not> isspace (last (trim_right s))" "\<exists>t. s = trim_right s @ t"
proof -
  show "length (trim_right s) \<le> length s" using length_dropWhile_le [of isspace "rev s"] by (simp add: trim_right_def)
  show "trim_right s = [] \<or> \<not> isspace (last (trim_right s))"
    using hd_dropWhile [of isspace "rev s"] by (auto simp: trim_right_def last_rev)
  have "rev s = takeWhile isspace (rev s) @ dropWhile isspace (rev s)" by simp
  then have "s = rev (dropWhile isspace (rev s)) @ rev (takeWhile isspace (rev s))" by (metis rev_append rev_rev_ident)
  then show "\<exists>t. s = trim_right s @ t" by (auto simp: trim_right_def)
qed

lemma hd_trim_right:
  "trim_right (take MAX_VALUE_LEN (dropWhile isspace w)) = [] \<or>
   \<not> isspace (hd (trim_right (take MAX_VALUE_LEN (dropWhile isspace w))))" (is "?v = [] \<or> _")
proof (cases "?v = []")
  case False
  obtain t where t: "take MAX_VALUE_LEN (dropWhile isspace w) = ?v @ t" using trim_right_props(3) by blast
  then have ne: "dropWhile isspace w \<noteq> []" using False by (metis append_is_Nil_conv take_Nil)
  have "hd ?v = hd (?v @ t)" using False by (rule hd_append2 [symmetric])
  then have "hd ?v = hd (take MAX_VALUE_LEN (dropWhile isspace w))" using t by argo
  also have "\<dots> = hd (dropWhile isspace w)" by (simp add: MAX_VALUE_LEN_def)
  finally have "\<not> isspace (hd ?v)" using hd_dropWhile [OF ne] by argo
  then show ?thesis ..
qed (rule disjI1)

lemma line_spec_Inr:
  assumes "line_spec line = Inr cfg"
  obtains w where "cfg_name cfg = takeWhile (\<lambda>c. \<not> isspace c \<and> c \<noteq> CHR ''='') (take MAX_NAME_LEN (dropWhile isspace line))"
    and "length (cfg_name cfg) \<noteq> MAX_NAME_LEN" and "cfg_value cfg = trim_right (take MAX_VALUE_LEN (dropWhile isspace w))"
    and "length (cfg_value cfg) \<noteq> MAX_VALUE_LEN"
proof -
  define nm where "nm = takeWhile (\<lambda>c. \<not> isspace c \<and> c \<noteq> CHR ''='') (take MAX_NAME_LEN (dropWhile isspace line))"
  define r where "r = dropWhile isspace (drop (length nm) (dropWhile isspace line))"
  define f where "f w = trim_right (take MAX_VALUE_LEN (dropWhile isspace w))" for w
  have "length nm \<noteq> MAX_NAME_LEN \<and> (\<exists>w. cfg = \<lparr>cfg_name = nm, cfg_value = f w\<rparr> \<and> length (f w) \<noteq> MAX_VALUE_LEN)"
    using assms unfolding line_spec_def Let_def nm_def [symmetric] r_def [symmetric] f_def [symmetric]
    by (auto split: if_splits list.splits)
  then show ?thesis using that unfolding nm_def f_def by auto
qed

lemma config_preset_scan_loop_bounds:
  "config_preset_scan_loop es num choices = Inr (num', choices') \<Longrightarrow> num \<le> length choices \<Longrightarrow> num < length choices \<or> es = [] \<Longrightarrow>
   num \<le> num' \<and> num' \<le> length choices' \<and> length choices' = length choices
   \<and> (\<forall>i < length choices. choices' ! i = choices ! i \<or> num \<le> i \<and> i < num' \<and> length (choices' ! i) \<le> 11)"
proof (induction es num choices rule: config_preset_scan_loop.induct)
  case (1 num choices)
  then show ?case by simp
next
  case (2 dir nm es num choices)
  let ?c = "choices[num := snprintf 12 nm]"
  have len: "length (snprintf 12 nm) \<le> 11" by (simp add: snprintf_def)
  show ?case
  proof (cases "\<not> dir \<or> nm \<noteq> [] \<and> hd nm = CHR ''.'' \<or> suffix4 nm = ''.KEY'' \<or> suffix4 nm = ''.MOD''")
    case True
    then have "config_preset_scan_loop es num choices = Inr (num', choices')"
      using "2.prems"(1) by (auto split: if_splits)
    then show ?thesis using "2.IH"(1-4) "2.prems" True by (auto split: if_splits)
  next
    case False
    then have four: "\<not> length nm < 4" using "2.prems"(1) by (auto split: if_splits)
    show ?thesis
    proof (cases "num + 1 \<ge> length ?c")
      case True
      then show ?thesis
        using "2.prems" False four len by (auto simp: Let_def nth_list_update split: if_splits)
    next
      case more: False
      then have "config_preset_scan_loop es (num + 1) ?c = Inr (num', choices')"
        using "2.prems"(1) False four by (auto simp: Let_def)
      from "2.IH"(5) [OF _ _ _ _ _ refl refl _ this] False four more
      have ih: "num + 1 \<le> num' \<and> num' \<le> length choices' \<and> length choices' = length ?c
          \<and> (\<forall>i < length ?c. choices' ! i = ?c ! i \<or> num + 1 \<le> i \<and> i < num' \<and> length (choices' ! i) \<le> 11)"
        by auto
      then show ?thesis
        using len by (auto simp: nth_list_update) (metis Suc_le_lessD le_eq_less_or_eq nth_list_update_eq nth_list_update_neq)+
    qed
  qed
qed

section \<open>Properties\<close>

text \<open>
  C3: Saving and loading are inverse. A table with distinct names and pointers is saved to a file
  that is then parsed while all variables have their defaults: every variable gets the value it
  had when the file was written and nothing else in memory changes, provided the text fits the
  save buffer and the file system returns what was written.
\<close>

theorem config_save_file_roundtrip:
  assumes "fio_ok io" and "vars_ok vars" and "build_ok b" and "tm_ok now"
    and "length (full_text b now vars m) \<le> MAX_SIZE - 2"
    and "config_save_file io b now vars m filename fs = (count, fs')" and "count \<noteq> - 1"
    and "\<forall>v \<in> set vars. config_ints st (var_ptr v) = default_value v"
  shows "\<exists>st'. config_parse_file io vars filename (fs', st) = Inr (fs', st')
    \<and> (\<forall>p. config_ints st' p = (if p \<in> var_ptr ` set vars then m p else config_ints st p))"
proof -
  have "create_file io fs filename (full_text b now vars m) = Some fs'"
    using assms(6,7) config_text_fits [OF assms(5)] by (auto simp: config_save_file_def split: option.splits)
  then have rd: "read_entire_file io fs' filename = Some (full_text b now vars m)"
    using assms(1) by (simp add: fio_ok_def)
  obtain cfg m' where "config_parse vars None (config_ints st) (full_text b now vars m) = Inr (cfg, m')"
      "\<forall>p. m' p = (if p \<in> var_ptr ` set vars then m p else config_ints st p)"
    using full_text_parse [OF assms(2-4,8)] by blast
  then show ?thesis using rd by (simp add: config_parse_file_def Let_def)
qed

text \<open>
  C38: Parsing a line in place is the specification on strings, whatever the static structure held
  before: the name and the value that the callers read are the specified ones, the errors are reported for
  the specified lines, no character of a name or a value is written outside its array, and the one
  write that does leave an array is the terminator of a value of 60 characters.
\<close>

theorem config_parse_line_exact:
  assumes "NULc \<notin> set line" and "length (arr_name cfg) = MAX_NAME_LEN" and "length (arr_value cfg) = MAX_VALUE_LEN"
  shows "map_sum id config_strings (config_parse_static cfg line) = line_spec line"
  by (rule config_parse_static_eq [OF assms])

text \<open>
  A line that parses yields a name and a value that fit their arrays with their terminators;
  the name has no blank and no equals sign, and the value neither starts nor ends with a blank.
\<close>

lemma config_parse_line_bounds:
  assumes "NULc \<notin> set line" and "config_parse_line line = Inr cfg"
  shows "length (cfg_name cfg) < MAX_NAME_LEN \<and> length (cfg_value cfg) < MAX_VALUE_LEN
    \<and> (\<forall>c \<in> set (cfg_name cfg). \<not> isspace c \<and> c \<noteq> CHR ''='')
    \<and> (cfg_value cfg = [] \<or> \<not> isspace (hd (cfg_value cfg)) \<and> \<not> isspace (last (cfg_value cfg)))"
proof -
  have "line_spec line = Inr cfg" using assms by (simp add: config_parse_line_eq)
  then obtain w where w: "cfg_name cfg = takeWhile (\<lambda>c. \<not> isspace c \<and> c \<noteq> CHR ''='') (take MAX_NAME_LEN (dropWhile isspace line))"
      "length (cfg_name cfg) \<noteq> MAX_NAME_LEN" "cfg_value cfg = trim_right (take MAX_VALUE_LEN (dropWhile isspace w))"
      "length (cfg_value cfg) \<noteq> MAX_VALUE_LEN"
    using line_spec_Inr by blast
  have n: "length (cfg_name cfg) \<le> MAX_NAME_LEN"
    unfolding w(1) by (rule le_trans [OF length_takeWhile_le]) simp
  have v: "length (cfg_value cfg) \<le> MAX_VALUE_LEN"
    unfolding w(3) by (rule le_trans [OF trim_right_props(1)]) simp
  have c: "\<forall>c \<in> set (cfg_name cfg). \<not> isspace c \<and> c \<noteq> CHR ''=''"
    unfolding w(1) by (rule ballI) (drule set_takeWhileD, simp)
  have l: "cfg_value cfg = [] \<or> \<not> isspace (last (cfg_value cfg))"
    unfolding w(3) by (rule trim_right_props(2))
  have h: "cfg_value cfg = [] \<or> \<not> isspace (hd (cfg_value cfg))"
    unfolding w(3) by (rule hd_trim_right)
  show ?thesis using n v c l h w(2,4) by (simp add: le_less) blast
qed

text \<open>
  A value whose 60th character is not a blank fills the whole array, and its terminator is
  written one byte past the end of the structure.
\<close>

lemma config_value_overrun:
  assumes "valid_name nm" and "length v \<ge> MAX_VALUE_LEN" and "\<not> isspace (hd v)" and "\<not> isspace (v ! (MAX_VALUE_LEN - 1))"
    and "NULc \<notin> set v"
  shows "config_parse_line (nm @ '' = '' @ v) = Inl Array_overrun"
proof -
  have len: "length nm < MAX_NAME_LEN" using assms(1) by (simp add: valid_name_def)
  have sp: "isspace (CHR '' '')" "\<not> isspace (CHR ''='')" by (simp_all add: isspace_def)
  have drop: "dropWhile isspace (CHR '' '' # v) = v" using assms(3) sp by (simp add: dropWhile_isspace_id)
  have "v \<noteq> []" using assms(2) by (auto simp: MAX_VALUE_LEN_def)
  then have "last (take MAX_VALUE_LEN v) = v ! (MAX_VALUE_LEN - 1)"
    using assms(2) by (simp add: last_conv_nth MAX_VALUE_LEN_def)
  then have "trim_right (take MAX_VALUE_LEN v) = take MAX_VALUE_LEN v"
    using assms(4) by (intro trim_right_id) simp
  then have "line_spec (nm @ '' = '' @ v) = Inl Array_overrun"
    using parse_name [OF assms(1), of "''= '' @ v"] len sp drop assms(2)
    by (simp add: line_spec_def Let_def)
  moreover have "NULc \<notin> set (nm @ '' = '' @ v)" using assms(1,5) by (auto simp: valid_name_def isspace_def)
  ultimately show ?thesis using config_parse_line_eq by (metis (no_types, lifting))
qed

text \<open>
  \<^verbatim>\<open>set_config_var\<close> reports success exactly when the value was stored. A non-zero result
  means that \<^verbatim>\<open>get_config_var\<close> returns the new value and at most that variable changed;
  zero means that memory is untouched, as when the change callback refuses.
\<close>

theorem set_config_var_spec:
  "case set_config_var vars mods nm new_value m of (r, m') \<Rightarrow>
     (if r = 0 then m' = m
      else get_config_var vars mods nm m' = new_value
         \<and> (\<exists>v. get_config_var_struct vars mods nm = Some v \<and> m' = m(var_ptr v := new_value)))"
  by (auto simp: set_config_var_def get_config_var_def set_config_var_struct_def Let_def split: option.splits)

text \<open>
  Scanning the preset directories, starting from the initial menu of 3 fixed entries, never
  leaves the table of 16 names and stores at most 11 characters per name, however many
  directories there are.
\<close>

theorem config_preset_scan_bounds:
  assumes "config_preset_scan io fs (config_init m) = Inr st"
  shows "3 \<le> config_preset_num st \<and> config_preset_num st \<le> 16 \<and> length (config_preset_choices st) = 16
    \<and> (\<forall>i. 3 \<le> i \<and> i < 16 \<longrightarrow> length (config_preset_choices st ! i) \<le> 11)"
proof -
  have init: "length preset_choices_init = 16" "\<forall>i < 16. 3 \<le> i \<longrightarrow> length (preset_choices_init ! i) \<le> 11"
    by (simp_all add: preset_choices_init_def All_less_Suc numeral_eq_Suc)
  show ?thesis
  proof (cases "list_dir io fs SETTINGS")
    case None
    then show ?thesis using assms init by (auto simp: config_preset_scan_def config_init_def)
  next
    case (Some es)
    then obtain num choices where "config_preset_scan_loop es 3 preset_choices_init = Inr (num, choices)"
        "config_preset_num st = num" "config_preset_choices st = choices"
      using assms by (auto simp: config_preset_scan_def config_init_def split: sum.splits)
    with config_preset_scan_loop_bounds [OF this(1)] init show ?thesis by fastforce
  qed
qed

subsection \<open>Witnesses\<close>

definition map_fio :: "(string \<Rightarrow> string option) fio" where
  "map_fio =
     \<lparr>read_entire_file = (\<lambda>fs fn. fs fn), create_file = (\<lambda>fs fn txt. Some (fs(fn := Some txt))),
      remove_file = (\<lambda>fs fn. fs(fn := None)), file_exists = (\<lambda>fs fn. fs fn \<noteq> None),
      is_dir = (\<lambda>_ _. True), create_dir = (\<lambda>fs _. fs), list_dir = (\<lambda>_ _. Some [(True, ''TRIP.DIR''), (False, ''MAGIC.CFG'')])\<rparr>"

definition sample_vars :: "config_var list" where
  "sample_vars =
     [\<lparr>var_name = ''zebra.draw'', var_ptr = 0x1000, default_value = 1, change_cbr = None\<rparr>,
      \<lparr>var_name = ''focus.delay'', var_ptr = 0x1004, default_value = 0, change_cbr = Some (\<lambda>_ _. 0)\<rparr>]"

definition sample_ints :: ints where
  "sample_ints = (\<lambda>p. if p = 0x1000 then 1 else if p = 0x1004 then - 250 else 7)"

definition sample_build :: build_info where
  "sample_build = \<lparr>build_version = ''v'', build_id = ''i'', build_date = ''d'', build_user = ''u''\<rparr>"

definition sample_tm :: tm where
  "sample_tm = \<lparr>tm_year = 120, tm_mon = 1, tm_mday = 2, tm_hour = 3, tm_min = 4, tm_sec = 5\<rparr>"

theorem config_save_file_roundtrip_witness:
  "\<exists>st'. config_parse_file map_fio sample_vars ''F''
       (snd (config_save_file map_fio sample_build sample_tm sample_vars sample_ints ''F'' Map.empty),
        config_init (\<lambda>p. if p = 0x1000 then 1 else 0)) =
     Inr (snd (config_save_file map_fio sample_build sample_tm sample_vars sample_ints ''F'' Map.empty), st')
     \<and> config_ints st' 0x1004 = - 250"
proof -
  have fio: "fio_ok map_fio" by (auto simp: fio_ok_def map_fio_def)
  have vars: "vars_ok sample_vars"
    by (simp add: vars_ok_def sample_vars_def valid_name_def MAX_NAME_LEN_def isspace_def)
  have build: "build_ok sample_build" by (simp add: build_ok_def sample_build_def)
  have tm: "tm_ok sample_tm" by (simp add: tm_ok_def sample_tm_def)
  have "length (full_text sample_build sample_tm sample_vars sample_ints) \<le> MAX_SIZE - 2" by code_simp
  moreover have "config_save_file map_fio sample_build sample_tm sample_vars sample_ints ''F'' Map.empty =
      (fst (config_save_file map_fio sample_build sample_tm sample_vars sample_ints ''F'' Map.empty),
       snd (config_save_file map_fio sample_build sample_tm sample_vars sample_ints ''F'' Map.empty))" by simp
  moreover have "fst (config_save_file map_fio sample_build sample_tm sample_vars sample_ints ''F'' Map.empty) \<noteq> - 1"
    using config_text_fits [OF calculation(1)] by (simp add: config_save_file_def map_fio_def)
  moreover have "\<forall>v \<in> set sample_vars. config_ints (config_init (\<lambda>p. if p = 0x1000 then 1 else 0)) (var_ptr v) = default_value v"
    by (simp add: sample_vars_def config_init_def)
  ultimately show ?thesis
    using config_save_file_roundtrip [OF fio vars build tm, of sample_ints "''F''" Map.empty]
    by (force simp: sample_vars_def sample_ints_def)
qed

theorem config_parse_line_exact_witness:
  "map_sum id config_strings (config_parse_static config_static ''  zebra.draw = 12 '')
    = Inr \<lparr>cfg_name = ''zebra.draw'', cfg_value = ''12''\<rparr>"
proof -
  have "line_spec ''  zebra.draw = 12 '' = Inr \<lparr>cfg_name = ''zebra.draw'', cfg_value = ''12''\<rparr>" by code_simp
  then show ?thesis using config_parse_line_exact [of "''  zebra.draw = 12 ''" config_static] by (simp add: config_static_def)
qed

theorem config_preset_scan_bounds_witness:
  "\<exists>st. config_preset_scan map_fio Map.empty (config_init (\<lambda>_. 0)) = Inr st \<and> config_preset_num st = 4
    \<and> config_preset_num st \<le> 16 \<and> length (config_preset_choices st) = 16"
proof -
  obtain st where st: "config_preset_scan map_fio Map.empty (config_init (\<lambda>_. 0)) = Inr st" "config_preset_num st = 4"
    by (simp add: config_preset_scan_def map_fio_def config_init_def suffix4_def preset_choices_init_def Let_def)
  show ?thesis using config_preset_scan_bounds [OF st(1)] st by blast
qed

end
