(* ===== verification/ML_Mem.thy ===== *)
theory ML_Mem
  imports ML_Strings
begin

text \<open>
  The memory backend, \<^verbatim>\<open>src/src/mem.c\<close>: the choice of an allocator, the guard zones and
  headers around every block, the table of live blocks, the accounting, and
  \<^verbatim>\<open>__mem_malloc\<close> and \<^verbatim>\<open>__mem_free\<close>. Memory is a function from cacheable
  addresses to bytes: a cacheable pointer and its uncacheable alias denote the same bytes. Canon's
  allocators and the exmem pools are parameters: the record \<open>pools\<close> holds their operations, which
  act on memory and a state of their own. The semaphore makes every operation atomic. The texts of
  error messages are not part of the state; \<open>last_error\<close>, which they describe, is.
\<close>

section \<open>Constants and data\<close>

definition MEM_SEC_ZONE :: nat where
  "MEM_SEC_ZONE = 16"

definition MEMCHECK_ENTRIES :: nat where
  "MEMCHECK_ENTRIES = 256"

definition HISTORY_ENTRIES :: nat where
  "HISTORY_ENTRIES = 1024"

definition JUST_FREED :: u32 where
  "JUST_FREED = 0xF12EEEED"

definition UNTRACKED :: u32 where
  "UNTRACKED = 0xFFFFFFFF"

definition UNCACHEABLE_FLAG :: u32 where
  "UNCACHEABLE_FLAG = 0x8000"

definition MEM_DMA :: u32 where
  "MEM_DMA = 1"

definition MEM_TEMPORARY :: u32 where
  "MEM_TEMPORARY = 2"

definition MEM_SRM :: u32 where
  "MEM_SRM = 4"

definition GUARD :: u8 where
  "GUARD = 0xA5"

type_synonym 'b alloc_func = "u32 \<Rightarrow> memory \<times> 'b \<Rightarrow> u32 \<times> memory \<times> 'b"
type_synonym 'b free_func = "u32 \<Rightarrow> memory \<times> 'b \<Rightarrow> memory \<times> 'b"

record 'b mem_allocator =
  am_name :: string
  am_malloc :: "'b alloc_func option"
  am_free :: "'b free_func"
  am_malloc_dma :: "'b alloc_func option"
  am_free_dma :: "'b free_func"
  get_free_space :: "('b \<Rightarrow> int) option"
  get_max_region :: "('b \<Rightarrow> int) option"
  is_preferred_for_temporary_space :: int
  preferred_min_alloc_size :: int
  preferred_max_alloc_size :: int
  preferred_free_space :: int
  minimum_free_space :: int
  minimum_alloc_size :: int
  depends_on_malloc :: bool
  try_next_allocator :: bool

record 'b pools =
  p_malloc :: "'b alloc_func"
  p_free :: "'b free_func"
  p_AllocateMemory :: "'b alloc_func"
  p_FreeMemory :: "'b free_func"
  p_alloc_dma_memory :: "'b alloc_func"
  p_free_dma_memory :: "'b free_func"
  p_shoot_malloc :: "'b alloc_func"
  p_shoot_free :: "'b free_func"
  p_shoot_get_free_space :: "'b \<Rightarrow> int"
  p_srm_malloc :: "'b alloc_func"
  p_srm_free :: "'b free_func"
  p_srm_get_free_space :: "'b \<Rightarrow> int"
  p_srm_get_max_region :: "'b \<Rightarrow> int"
  p_GetMemoryInformation :: "'b \<Rightarrow> int \<times> int"
  p_GetSizeOfMaxRegion :: "'b \<Rightarrow> int \<times> int"
  p_malloc_status :: "'b \<Rightarrow> u32 \<times> u32"

definition GetFreeMemForAllocateMemory :: "'b pools \<Rightarrow> 'b \<Rightarrow> int" where
  "GetFreeMemForAllocateMemory P b = (let (total, free) = p_GetMemoryInformation P b in free)"

definition GetMaxRegionForAllocateMemory :: "'b pools \<Rightarrow> 'b \<Rightarrow> int" where
  "GetMaxRegionForAllocateMemory P b = (let (err, size) = p_GetSizeOfMaxRegion P b in if err \<noteq> 0 then 0 else size)"

definition GetFreeMemForMalloc :: "'b pools \<Rightarrow> 'b \<Rightarrow> int" where
  "GetFreeMemForMalloc P b = (let (total_size_external, used_size) = p_malloc_status P b in sint (total_size_external - used_size))"

text \<open>The table of allocators.\<close>

definition no_free :: "'b free_func" where
  "no_free p s = s"

definition allocators :: "'b pools \<Rightarrow> 'b mem_allocator list" where
  "allocators P =
    [\<lparr>am_name = ''malloc'', am_malloc = Some (p_malloc P), am_free = p_free P, am_malloc_dma = None, am_free_dma = no_free,
      get_free_space = Some (GetFreeMemForMalloc P), get_max_region = None, is_preferred_for_temporary_space = 0,
      preferred_min_alloc_size = 0, preferred_max_alloc_size = 512 * 1024, preferred_free_space = 384 * 1024,
      minimum_free_space = 256 * 1024, minimum_alloc_size = 0, depends_on_malloc = False, try_next_allocator = False\<rparr>,
     \<lparr>am_name = ''AllocateMemory'', am_malloc = Some (p_AllocateMemory P), am_free = p_FreeMemory P,
      am_malloc_dma = Some (p_alloc_dma_memory P), am_free_dma = p_free_dma_memory P,
      get_free_space = Some (GetFreeMemForAllocateMemory P), get_max_region = Some (GetMaxRegionForAllocateMemory P),
      is_preferred_for_temporary_space = 0, preferred_min_alloc_size = 0, preferred_max_alloc_size = 512 * 1024,
      preferred_free_space = 1024 * 1024 * 3 div 2, minimum_free_space = 512 * 1024, minimum_alloc_size = 0,
      depends_on_malloc = False, try_next_allocator = False\<rparr>,
     \<lparr>am_name = ''shoot_malloc'', am_malloc = Some (p_shoot_malloc P), am_free = p_shoot_free P,
      am_malloc_dma = Some (p_shoot_malloc P), am_free_dma = p_shoot_free P,
      get_free_space = Some (p_shoot_get_free_space P), get_max_region = Some (p_shoot_get_free_space P),
      is_preferred_for_temporary_space = 1, preferred_min_alloc_size = 512 * 1024,
      preferred_max_alloc_size = 20 * 1024 * 1024, preferred_free_space = 0, minimum_free_space = 256 * 1024,
      minimum_alloc_size = 64 * 1024, depends_on_malloc = True, try_next_allocator = True\<rparr>,
     \<lparr>am_name = ''srm_malloc'', am_malloc = Some (p_srm_malloc P), am_free = p_srm_free P,
      am_malloc_dma = Some (p_srm_malloc P), am_free_dma = p_srm_free P,
      get_free_space = Some (p_srm_get_free_space P), get_max_region = Some (p_srm_get_max_region P),
      is_preferred_for_temporary_space = 2, preferred_min_alloc_size = 20 * 1024 * 1024, preferred_max_alloc_size = 0,
      preferred_free_space = 0, minimum_free_space = 0, minimum_alloc_size = 1024 * 1024,
      depends_on_malloc = False, try_next_allocator = False\<rparr>]"

record memcheck_entry =
  e_ptr :: u32
  e_file :: string
  e_failed :: u16
  e_line :: u16
  e_task_name :: string

definition entry_zero :: memcheck_entry where
  "entry_zero = \<lparr>e_ptr = 0, e_file = [], e_failed = 0, e_line = 0, e_task_name = []\<rparr>"

record 'b mem_state =
  ram :: memory
  pool_state :: 'b
  mem_used :: "u32 list"
  num_blocks :: "u32 list"
  alloc_total :: u32
  alloc_total_with_memcheck :: u32
  alloc_total_peak_with_memcheck :: u32
  history :: "u16 list"
  history_index :: int
  memcheck_entries :: "memcheck_entry list"
  memcheck_bufpos :: nat
  last_error :: u32

definition mem_init :: "memory \<Rightarrow> 'b \<Rightarrow> 'b mem_state" where
  "mem_init m b =
     \<lparr>ram = m, pool_state = b, mem_used = replicate 4 0, num_blocks = replicate 4 0, alloc_total = 0,
      alloc_total_with_memcheck = 0, alloc_total_peak_with_memcheck = 0, history = replicate HISTORY_ENTRIES 0,
      history_index = 0, memcheck_entries = replicate MEMCHECK_ENTRIES entry_zero, memcheck_bufpos = 0,
      last_error = 0\<rparr>"

section \<open>Block layout\<close>

text \<open>Fields of the 12-byte \<^verbatim>\<open>struct memcheck_hdr\<close> at the start of a block.\<close>

definition hdr_allocator :: "memory \<Rightarrow> u32 \<Rightarrow> u16" where
  "hdr_allocator m ptr = rd16 m (CACHEABLE ptr)"

definition hdr_flags :: "memory \<Rightarrow> u32 \<Rightarrow> u16" where
  "hdr_flags m ptr = rd16 m (CACHEABLE ptr + 2)"

definition hdr_length :: "memory \<Rightarrow> u32 \<Rightarrow> u32" where
  "hdr_length m ptr = rd32 m (CACHEABLE ptr + 4)"

definition hdr_id :: "memory \<Rightarrow> u32 \<Rightarrow> u32" where
  "hdr_id m ptr = rd32 m (CACHEABLE ptr + 8)"

definition set_hdr_id :: "u32 \<Rightarrow> u32 \<Rightarrow> memory \<Rightarrow> memory" where
  "set_hdr_id ptr v m = wr32 m (CACHEABLE ptr + 8) v"

definition sizeof_hdr :: nat where
  "sizeof_hdr = 12"

fun fill :: "u32 \<Rightarrow> nat \<Rightarrow> u8 \<Rightarrow> memory \<Rightarrow> memory" where
  "fill a 0 v m = m"
| "fill a (Suc n) v m = (fill a n v m)(a + of_nat n := v)"

definition file_name_without_path :: "string \<Rightarrow> string" where
  "file_name_without_path file =
     (case file of [] \<Rightarrow> [] | _ \<Rightarrow> rev (takeWhile (\<lambda>c. c \<noteq> CHR ''/'') (rev (butlast file))) @ [last file])"

section \<open>Checking and tracking blocks\<close>

definition guards_failed :: "memory \<Rightarrow> u32 \<Rightarrow> u32" where
  "guards_failed m ptr =
     (if list_ex (\<lambda>pos. m (CACHEABLE ptr + of_nat pos) \<noteq> GUARD) [sizeof_hdr..<MEM_SEC_ZONE] then 2 else 0)
     OR (if list_ex (\<lambda>pos. m (CACHEABLE ptr + of_nat MEM_SEC_ZONE + hdr_length m ptr + of_nat pos) \<noteq> GUARD)
            [0..<MEM_SEC_ZONE] then 4 else 0)"

definition id_failed :: "u32 \<Rightarrow> u32 \<Rightarrow> u32" where
  "id_failed bid entry =
     (if bid = UNTRACKED then 0
      else if bid = JUST_FREED then 16
      else if bid \<noteq> entry \<and> entry \<noteq> 0xFFFFFFFF then 8
      else if unat bid \<ge> MEMCHECK_ENTRIES then 8
      else 0)"

definition memcheck_check :: "u32 \<Rightarrow> u32 \<Rightarrow> 'b mem_state \<Rightarrow> u32 \<times> 'b mem_state" where
  "memcheck_check ptr entry st =
     (let failed = guards_failed (ram st) ptr OR id_failed (hdr_id (ram st) ptr) entry;
          st1 = (if failed \<noteq> 0 \<and> last_error st = 0
                 then st\<lparr>last_error := failed\<rparr> else st);
          e = unat entry;
          st2 = (if e < length (memcheck_entries st1)
                 then st1\<lparr>memcheck_entries := (memcheck_entries st1)[e := (memcheck_entries st1 ! e)
                        \<lparr>e_failed := e_failed (memcheck_entries st1 ! e) OR ucast failed\<rparr>]\<rparr> else st1)
      in (failed, st2))"

fun memcheck_get_failed_loop :: "nat list \<Rightarrow> 'b mem_state \<Rightarrow> u16 \<times> 'b mem_state" where
  "memcheck_get_failed_loop [] st = (0, st)"
| "memcheck_get_failed_loop (buf_pos # rest) st =
     (if e_ptr (memcheck_entries st ! buf_pos) \<noteq> 0 then
        let (_, st1) = memcheck_check (e_ptr (memcheck_entries st ! buf_pos)) (of_nat buf_pos) st in
        if e_failed (memcheck_entries st1 ! buf_pos) \<noteq> 0 then (e_failed (memcheck_entries st1 ! buf_pos), st1)
        else memcheck_get_failed_loop rest st1
      else memcheck_get_failed_loop rest st)"

definition memcheck_get_failed :: "'b mem_state \<Rightarrow> u16 \<times> 'b mem_state" where
  "memcheck_get_failed st = memcheck_get_failed_loop [0..<MEMCHECK_ENTRIES] st"

text \<open>The search for a free entry: \<open>None\<close> when all tries are used up.\<close>

fun find_slot :: "nat \<Rightarrow> memcheck_entry list \<Rightarrow> nat \<Rightarrow> nat option \<times> nat" where
  "find_slot 0 es pos = (None, pos)"
| "find_slot (Suc tries) es pos =
     (if e_ptr (es ! pos) \<noteq> 0 then
        let pos' = (pos + 1) mod MEMCHECK_ENTRIES in
        if tries = 0 then (None, pos') else find_slot tries es pos'
      else (Some pos, pos))"

definition memcheck_add :: "u32 \<Rightarrow> string \<Rightarrow> u32 \<Rightarrow> string \<Rightarrow> 'b mem_state \<Rightarrow> 'b mem_state" where
  "memcheck_add ptr file line task st =
     (case find_slot MEMCHECK_ENTRIES (memcheck_entries st) (memcheck_bufpos st) of
        (None, pos) \<Rightarrow> st\<lparr>memcheck_bufpos := pos, ram := set_hdr_id ptr UNTRACKED (ram st)\<rparr>
      | (Some i, pos) \<Rightarrow>
          st\<lparr>memcheck_bufpos := pos,
             memcheck_entries := (memcheck_entries st)[i :=
               \<lparr>e_ptr = ptr, e_file = file_name_without_path file, e_failed = 0, e_line = ucast line, e_task_name = task\<rparr>],
             ram := set_hdr_id ptr (of_nat i) (ram st)\<rparr>)"

definition memcheck_remove :: "u32 \<Rightarrow> u32 \<Rightarrow> 'b mem_state \<Rightarrow> 'b mem_state" where
  "memcheck_remove ptr failed st0 =
     (let buf_pos = hdr_id (ram st0) ptr;
          st = st0\<lparr>ram := set_hdr_id ptr JUST_FREED (ram st0)\<rparr>;
          i = unat buf_pos
      in if buf_pos = UNTRACKED then st
         else if i \<ge> MEMCHECK_ENTRIES then st
         else if failed \<noteq> 0 \<or> e_ptr (memcheck_entries st ! i) \<noteq> ptr
         then st\<lparr>memcheck_entries := map (\<lambda>e. if e_ptr e = ptr
                then e\<lparr>e_ptr := 0xFFFFFFFF, e_failed := e_failed e OR (1 OR ucast failed)\<rparr> else e) (memcheck_entries st)\<rparr>
         else st\<lparr>memcheck_entries := (memcheck_entries st)[i := (memcheck_entries st ! i)
                \<lparr>e_failed := 0, e_file := [], e_ptr := 0\<rparr>]\<rparr>)"

section \<open>Allocation and release through one allocator\<close>

definition update_history :: "'b mem_state \<Rightarrow> 'b mem_state" where
  "update_history st =
     st\<lparr>history := (history st)[nat (history_index st) :=
          word_of_int (c_MIN (c_div (sint (alloc_total_with_memcheck st)) 1024) 65535)],
        history_index := c_MOD (history_index st + 1) (int HISTORY_ENTRIES)\<rparr>"

definition block_size :: "u32 \<Rightarrow> u32" where
  "block_size len = len + 2 * of_nat MEM_SEC_ZONE"

definition account_alloc :: "nat \<Rightarrow> u32 \<Rightarrow> 'b mem_state \<Rightarrow> 'b mem_state" where
  "account_alloc a len st =
     (let t = alloc_total_with_memcheck st + block_size len in
      update_history (st\<lparr>num_blocks := (num_blocks st)[a := num_blocks st ! a + 1],
        mem_used := (mem_used st)[a := mem_used st ! a + block_size len],
        alloc_total := alloc_total st + len, alloc_total_with_memcheck := t,
        alloc_total_peak_with_memcheck :=
          word_of_int (c_MAX (sint (alloc_total_peak_with_memcheck st)) (sint t))\<rparr>))"

definition account_free :: "nat \<Rightarrow> u32 \<Rightarrow> 'b mem_state \<Rightarrow> 'b mem_state" where
  "account_free a len st =
     update_history (st\<lparr>num_blocks := (num_blocks st)[a := num_blocks st ! a - 1],
       mem_used := (mem_used st)[a := mem_used st ! a - block_size len],
       alloc_total := alloc_total st - len,
       alloc_total_with_memcheck := alloc_total_with_memcheck st - block_size len\<rparr>)"

definition write_header :: "u32 \<Rightarrow> u32 \<Rightarrow> nat \<Rightarrow> u32 \<Rightarrow> memory \<Rightarrow> memory" where
  "write_header ptr len a flags m =
     (let q = CACHEABLE ptr;
          m1 = fill q MEM_SEC_ZONE GUARD m;
          m2 = fill (q + len + of_nat MEM_SEC_ZONE) MEM_SEC_ZONE GUARD m1;
          uncacheable_flag = (if ptr = UNCACHEABLE ptr then UNCACHEABLE_FLAG else 0);
          m3 = wr32 m2 (q + 4) len;
          m4 = wr16 m3 q (of_nat a)
      in wr16 m4 (q + 2) (ucast (flags OR uncacheable_flag)))"

datatype mem_error = Null_function | No_such_allocator

definition memcheck_malloc ::
  "'b mem_allocator list \<Rightarrow> u32 \<Rightarrow> string \<Rightarrow> u32 \<Rightarrow> string \<Rightarrow> nat \<Rightarrow> u32 \<Rightarrow> 'b mem_state \<Rightarrow> mem_error + u32 \<times> 'b mem_state" where
  "memcheck_malloc as len file line task a flags st =
     (if a \<ge> length as then Inl No_such_allocator
      else case (if flags AND MEM_DMA \<noteq> 0 then am_malloc_dma (as ! a) else am_malloc (as ! a)) of
        None \<Rightarrow> Inl Null_function
      | Some f \<Rightarrow>
          let (ptr, m, b) = f (block_size len) (ram st, pool_state st);
              st1 = st\<lparr>ram := m, pool_state := b\<rparr>
          in if ptr AND 1 \<noteq> 0 \<or> ptr = 0 then Inr (0, st1)
             else let st2 = st1\<lparr>ram := write_header ptr len a flags m\<rparr>;
                      st3 = memcheck_add ptr file line task st2
                  in Inr (ptr + of_nat MEM_SEC_ZONE, account_alloc a len st3))"

definition memcheck_free :: "'b mem_allocator list \<Rightarrow> u32 \<Rightarrow> nat \<Rightarrow> u32 \<Rightarrow> 'b mem_state \<Rightarrow> 'b mem_state" where
  "memcheck_free as buf a flags st =
     (let ptr = buf - of_nat MEM_SEC_ZONE;
          (failed, st1) = memcheck_check ptr 0xFFFFFFFF st;
          st2 = memcheck_remove ptr failed st1
      in if failed \<noteq> 0 then st2
         else let st3 = account_free a (hdr_length (ram st2) ptr) st2;
                  free = (if flags AND MEM_DMA \<noteq> 0 then am_free_dma (as ! a) else am_free (as ! a));
                  (m, b) = free ptr (ram st3, pool_state st3)
              in st3\<lparr>ram := m, pool_state := b\<rparr>)"

section \<open>Choosing an allocator\<close>

text \<open>
  Whether allocator \<open>A\<close> passes the tests of \<^verbatim>\<open>search_for_allocator\<close>, in their order. The
  requirement arguments take the values of the code: 1 (required), 0 (not required) and -1 (last
  resort).
\<close>

definition dma_matches :: "bool \<Rightarrow> 'b mem_allocator \<Rightarrow> bool" where
  "dma_matches require_dma A \<longleftrightarrow>
     (require_dma \<and> am_malloc_dma A \<noteq> None) \<or> (\<not> require_dma \<and> am_malloc A \<noteq> None)"

definition tmp_matches :: "int \<Rightarrow> 'b mem_allocator \<Rightarrow> bool" where
  "tmp_matches require_tmp A \<longleftrightarrow>
     (let preferred_for_tmp = (if is_preferred_for_temporary_space A = 0 then - 1 else is_preferred_for_temporary_space A)
      in require_tmp = 0 \<or> require_tmp = preferred_for_tmp)"

definition size_matches :: "int \<Rightarrow> int \<Rightarrow> 'b mem_allocator \<Rightarrow> bool" where
  "size_matches sz require_preferred_size A \<longleftrightarrow>
     (let preferred_max = (if preferred_max_alloc_size A \<noteq> 0 then preferred_max_alloc_size A else 2147483647) in
      (require_preferred_size \<le> 0 \<or> preferred_min_alloc_size A \<le> sz \<and> sz \<le> preferred_max)
      \<and> (sz \<ge> minimum_alloc_size A \<or> require_preferred_size = - 1))"

definition free_space_of :: "'b \<Rightarrow> 'b mem_allocator \<Rightarrow> int" where
  "free_space_of b A = (case get_free_space A of Some f \<Rightarrow> f b | None \<Rightarrow> 30 * 1024 * 1024)"

text \<open>
  \<^verbatim>\<open>free_space - size - 1024\<close> in 32 bits. Where the difference leaves the range of \<^verbatim>\<open>int\<close>, C
  leaves it undefined; the model takes the value that the ARM instructions compute.
\<close>

definition headroom :: "int \<Rightarrow> int \<Rightarrow> int" where
  "headroom free_space sz = s32 (free_space - sz - 1024)"

definition space_matches :: "'b \<Rightarrow> int \<Rightarrow> int \<Rightarrow> 'b mem_allocator \<Rightarrow> bool" where
  "space_matches b sz require_preferred_free_space A \<longleftrightarrow>
     (let free_space = free_space_of b A in
      (require_preferred_free_space \<le> 0 \<or> headroom free_space sz > preferred_free_space A)
      \<and> (require_preferred_free_space = - 1 \<and> sz < c_div (minimum_free_space A) 64
           \<and> headroom free_space sz > c_div (minimum_free_space A) 4
         \<or> headroom free_space sz > minimum_free_space A))"

definition region_matches :: "'b \<Rightarrow> int \<Rightarrow> 'b mem_allocator \<Rightarrow> bool" where
  "region_matches b sz A \<longleftrightarrow>
     \<not> sz > (case get_max_region A of Some f \<Rightarrow> s32 (f b - 1024) | None \<Rightarrow> c_div (free_space_of b A) 4)"

definition malloc_available :: "'b pools \<Rightarrow> 'b \<Rightarrow> 'b mem_allocator \<Rightarrow> bool" where
  "malloc_available P b A \<longleftrightarrow>
     \<not> (depends_on_malloc A \<and> (GetFreeMemForMalloc P b < 16 * 1024 \<or> GetMaxRegionForAllocateMemory P b < 16 * 1024))"

definition search_for_allocator :: "'b pools \<Rightarrow> 'b \<Rightarrow> int \<Rightarrow> int \<Rightarrow> int \<Rightarrow> int \<Rightarrow> bool \<Rightarrow> nat option" where
  "search_for_allocator P b sz require_preferred_size require_preferred_free_space require_tmp require_dma =
     find_index (\<lambda>A. dma_matches require_dma A \<and> tmp_matches require_tmp A \<and> size_matches sz require_preferred_size A
        \<and> space_matches b sz require_preferred_free_space A \<and> region_matches b sz A \<and> malloc_available P b A)
       (allocators P)"

fun first_some :: "'a option list \<Rightarrow> 'a option" where
  "first_some [] = None"
| "first_some (Some x # xs) = Some x"
| "first_some (None # xs) = first_some xs"

definition choose_allocator :: "'b pools \<Rightarrow> 'b \<Rightarrow> int \<Rightarrow> u32 \<Rightarrow> nat option" where
  "choose_allocator P b sz flags =
     (let needs_dma = (flags AND MEM_DMA \<noteq> 0);
          prefers_tmp = (if flags AND MEM_TEMPORARY \<noteq> 0 then 1 else if flags AND MEM_SRM \<noteq> 0 then 2 else - 1 :: int);
          search = search_for_allocator P b sz
      in first_some
          ([search 1 1 prefers_tmp needs_dma, search 0 1 prefers_tmp needs_dma, search 0 0 prefers_tmp needs_dma] @
           (if prefers_tmp \<noteq> 0
            then [search 1 1 0 needs_dma, search 0 1 0 needs_dma, search 0 0 0 needs_dma] else []) @
           [search (- 1) (- 1) 0 needs_dma]))"

section \<open>The public functions\<close>

definition mem_malloc :: "'b pools \<Rightarrow> u32 \<Rightarrow> u32 \<Rightarrow> string \<Rightarrow> u32 \<Rightarrow> string \<Rightarrow> 'b mem_state \<Rightarrow> mem_error + u32 \<times> 'b mem_state" where
  "mem_malloc P sz flags file0 line task st =
     (let file = file_name_without_path file0; as = allocators P in
      case choose_allocator P (pool_state st) (sint sz) flags of
        None \<Rightarrow> Inr (0, st)
      | Some a \<Rightarrow>
          (case memcheck_malloc as sz file line task a flags st of
             Inl e \<Rightarrow> Inl e
           | Inr (ptr1, st1) \<Rightarrow>
               (case (if ptr1 = 0 \<and> try_next_allocator (as ! a)
                      then memcheck_malloc as sz file line task (a + 1) flags st1 else Inr (ptr1, st1)) of
                  Inl e \<Rightarrow> Inl e
                | Inr (ptr, st2) \<Rightarrow>
                    Inr (if ptr = 0 then 0 else if flags AND MEM_DMA \<noteq> 0 then UNCACHEABLE ptr else CACHEABLE ptr, st2))))"

definition mem_free :: "'b pools \<Rightarrow> u32 \<Rightarrow> 'b mem_state \<Rightarrow> 'b mem_state" where
  "mem_free P buf st =
     (if buf = 0 then st
      else let ptr = buf - of_nat MEM_SEC_ZONE;
               a = unat (hdr_allocator (ram st) ptr);
               flags = (ucast (hdr_flags (ram st) ptr) :: u32);
               buf' = (if flags AND UNCACHEABLE_FLAG \<noteq> 0 then UNCACHEABLE buf else CACHEABLE buf)
           in if a < length (allocators P) then memcheck_free (allocators P) buf' a flags st else st)"


section \<open>Sizes as text\<close>

definition format_memory_size :: "u64 \<Rightarrow> string" where
  "format_memory_size sz =
     (let kB = 1024; MB = 1024 * 1024; GB = 1024 * 1024 * 1024; n = unat sz;
          tenths = (\<lambda>x. show_nat (x div 10) @ ''.'' @ show_nat (x mod 10)) in
      snprintf 16
       (if n \<ge> 10 * GB then show_int (s32 (int ((n + GB div 2) mod 2 ^ 64 div GB))) @ ''GB''
        else if n \<ge> GB then tenths ((n * 10 + GB div 2) div GB) @ ''GB''
        else if n \<ge> 10 * MB then show_nat ((n + MB div 2) div MB) @ ''MB''
        else if n \<ge> MB then tenths ((n * 10 + MB div 2) div MB) @ ''MB''
        else if n \<ge> 10 * kB then show_nat ((n + kB div 2) div kB) @ ''kB''
        else if n \<ge> kB then tenths ((n * 10 + kB div 2) div kB) @ ''kB''
        else if n > 0 then show_nat n @ '' B''
        else ''0''))"

definition format_memory_size_and_flags :: "u32 \<Rightarrow> u32 \<Rightarrow> string" where
  "format_memory_size_and_flags sz flags =
     (let str = snprintf 32 (format_memory_size (ucast sz));
          str1 = (if flags AND MEM_TEMPORARY \<noteq> 0 then str @ snprintf (32 - length str) ''|TMP'' else str)
      in if flags AND MEM_DMA \<noteq> 0 then str1 @ snprintf (32 - length str1) ''|DMA'' else str1)"

text \<open>\<open>m'\<close> differs from \<open>m\<close> at most in the user part of the block at \<open>ptr\<close>.\<close>

definition user_writes :: "u32 \<Rightarrow> u32 \<Rightarrow> memory \<Rightarrow> memory \<Rightarrow> bool" where
  "user_writes ptr len m m' \<longleftrightarrow>
     (\<forall>d < 2 ^ 32. \<not> (16 \<le> d \<and> d < 16 + unat len) \<longrightarrow> m' (CACHEABLE ptr + of_nat d) = m (CACHEABLE ptr + of_nat d))"

definition live_block :: "memory \<Rightarrow> u32 \<Rightarrow> u32 \<Rightarrow> nat \<Rightarrow> u32 \<Rightarrow> u32 \<Rightarrow> bool" where
  "live_block m ptr len a flags bid \<longleftrightarrow>
     hdr_length m ptr = len \<and> hdr_allocator m ptr = of_nat a \<and> hdr_id m ptr = bid
   \<and> hdr_flags m ptr = ucast (flags OR (if ptr = UNCACHEABLE ptr then UNCACHEABLE_FLAG else 0))
   \<and> (\<forall>d \<in> {12..<16} \<union> {16 + unat len..<32 + unat len}. m (CACHEABLE ptr + of_nat d) = GUARD)"

definition tracker_ok :: "'b mem_state \<Rightarrow> bool" where
  "tracker_ok st \<longleftrightarrow> length (memcheck_entries st) = MEMCHECK_ENTRIES \<and> memcheck_bufpos st < MEMCHECK_ENTRIES
     \<and> length (mem_used st) = 4 \<and> length (num_blocks st) = 4"

text \<open>The fields that account for allocated memory.\<close>

definition accounts :: "'b mem_state \<Rightarrow> u32 list \<times> u32 list \<times> u32 \<times> u32" where
  "accounts st = (mem_used st, num_blocks st, alloc_total st, alloc_total_with_memcheck st)"

definition alloc_fun :: "'b mem_allocator \<Rightarrow> u32 \<Rightarrow> 'b alloc_func option" where
  "alloc_fun A flags = (if flags AND MEM_DMA \<noteq> 0 then am_malloc_dma A else am_malloc A)"

definition free_fun :: "'b mem_allocator \<Rightarrow> u32 \<Rightarrow> 'b free_func" where
  "free_fun A flags = (if flags AND MEM_DMA \<noteq> 0 then am_free_dma A else am_free A)"

text \<open>
  Which allocator serves a request, with the block it hands out and its state after that: the chosen
  one or, where it refuses with a null or odd pointer and allows it, the next one.
\<close>

definition backend_call :: "'b mem_allocator \<Rightarrow> u32 \<Rightarrow> u32 \<Rightarrow> memory \<times> 'b \<Rightarrow> (u32 \<times> memory \<times> 'b) option" where
  "backend_call A flags n s = map_option (\<lambda>f. f n s) (alloc_fun A flags)"

definition refused :: "u32 \<Rightarrow> bool" where
  "refused p \<longleftrightarrow> p AND 1 \<noteq> 0 \<or> p = 0"

definition served :: "'b pools \<Rightarrow> u32 \<Rightarrow> u32 \<Rightarrow> memory \<times> 'b \<Rightarrow> (nat \<times> u32 \<times> 'b) option" where
  "served P sz flags s =
     (let call = (\<lambda>a. backend_call (allocators P ! a) flags (block_size sz)) in
      Option.bind (choose_allocator P (snd s) (sint sz) flags) (\<lambda>a.
      Option.bind (call a s) (\<lambda>(ptr, m, b).
        if \<not> refused ptr then Some (a, ptr, b)
        else if try_next_allocator (allocators P ! a)
        then Option.bind (call (a + 1) (m, b)) (\<lambda>(ptr, m, b). if refused ptr then None else Some (a + 1, ptr, b))
        else None)))"

text \<open>
  A block obtained from allocator \<open>a\<close> in state \<open>st\<close>: the state \<open>st'\<close> tracks it, accounts for it and
  holds its header and guards.
\<close>

definition obtained :: "u32 \<Rightarrow> u32 \<Rightarrow> nat \<Rightarrow> u32 \<Rightarrow> 'b mem_state \<Rightarrow> 'b mem_state \<Rightarrow> bool" where
  "obtained ptr len a flags st st' \<longleftrightarrow>
     tracker_ok st' \<and> accounts st' = accounts (account_alloc a len st)
   \<and> (\<exists>bid. live_block (ram st') ptr len a flags bid \<and> id_failed bid 0xFFFFFFFF = 0
        \<and> (if bid = UNTRACKED then memcheck_entries st' = memcheck_entries st
           else unat bid < MEMCHECK_ENTRIES \<and> e_ptr (memcheck_entries st ! unat bid) = 0
              \<and> map e_ptr (memcheck_entries st') = (map e_ptr (memcheck_entries st))[unat bid := ptr]))"

definition ram_block :: "u32 \<Rightarrow> u32 \<Rightarrow> bool" where
  "ram_block ptr n \<longleftrightarrow> unat ptr < 2 ^ 31 \<and> unat ptr mod 2 ^ 30 + unat n \<le> 2 ^ 30 \<and> 32 \<le> unat n"

definition user_ptr :: "u32 \<Rightarrow> u32 \<Rightarrow> u32" where
  "user_ptr flags p = (if flags AND MEM_DMA \<noteq> 0 then UNCACHEABLE p else CACHEABLE p)"

text \<open>
  What the code relies on in the backends: a pointer they return is a failure (null or odd) or a
  block of the requested size in RAM, through either alias.
\<close>

definition pools_in_ram :: "'b pools \<Rightarrow> bool" where
  "pools_in_ram P \<longleftrightarrow> (\<forall>A \<in> set (allocators P). \<forall>f flags. alloc_fun A flags = Some f \<longrightarrow>
     (\<forall>n s p m b. f n s = (p, m, b) \<longrightarrow> 32 \<le> unat n \<longrightarrow> p = 0 \<or> p AND 1 \<noteq> 0 \<or> ram_block p n))"

text \<open>
  The sizes that the pools report are values of \<^verbatim>\<open>int\<close> from 0 up. A request fits the largest region
  with 1 kB to spare or, where regions are not reported, a quarter of the free space.
\<close>

definition reports_ok :: "'b pools \<Rightarrow> 'b \<Rightarrow> bool" where
  "reports_ok P b \<longleftrightarrow> (\<forall>A \<in> set (allocators P). 0 \<le> free_space_of b A \<and> free_space_of b A < 2 ^ 31
     \<and> (\<forall>f. get_max_region A = Some f \<longrightarrow> 0 \<le> f b \<and> f b < 2 ^ 31))"

definition region_fits :: "'b \<Rightarrow> int \<Rightarrow> 'b mem_allocator \<Rightarrow> bool" where
  "region_fits b sz A \<longleftrightarrow>
     (case get_max_region A of Some f \<Rightarrow> sz + 1024 \<le> f b | None \<Rightarrow> 4 * sz \<le> free_space_of b A)"

text \<open>A backend with one free block at 1 MB in each pool, handed out through the cacheable alias.\<close>

definition sample_pools :: "int pools" where
  "sample_pools =
    (let al = (\<lambda>n (m, b). if b = 0 \<and> unat n \<le> 0x1000 then (0x100000, m, 1) else (0, m, b));
         fr = (\<lambda>p (m, b). (m, 0)) in
     \<lparr>p_malloc = al, p_free = fr, p_AllocateMemory = al, p_FreeMemory = fr, p_alloc_dma_memory = al, p_free_dma_memory = fr,
      p_shoot_malloc = al, p_shoot_free = fr, p_shoot_get_free_space = (\<lambda>_. 0), p_srm_malloc = al, p_srm_free = fr,
      p_srm_get_free_space = (\<lambda>_. 0), p_srm_get_max_region = (\<lambda>_. 0), p_GetMemoryInformation = (\<lambda>_. (0, 0)),
      p_GetSizeOfMaxRegion = (\<lambda>_. (0, 0)), p_malloc_status = (\<lambda>_. (1024 * 1024, 0))\<rparr>)"

section \<open>Facts\<close>

subsection \<open>Addresses\<close>

lemma fill_off: "d < 2 ^ 32 \<Longrightarrow> e + n \<le> 2 ^ 32 \<Longrightarrow>
    fill (q + of_nat e) n v m (q + of_nat d) = (if e \<le> d \<and> d < e + n then v else m (q + of_nat d))"
proof (induction n)
  case 0
  then show ?case by auto
next
  case (Suc n)
  have "q + of_nat e + of_nat n = q + of_nat (e + n)" by simp
  then show ?case using Suc off_eq [of d "e + n" q] by auto
qed

subsection \<open>Blocks\<close>

lemma user_writes_refl: "user_writes ptr len m m"
  by (simp add: user_writes_def)

text \<open>The bytes of a block after its header was written.\<close>

lemma write_header_bytes:
  assumes "unat len + 32 \<le> 2 ^ 32" and "d < 2 ^ 32"
  shows "d \<in> {8..<16} \<union> {16 + unat len..<32 + unat len} \<Longrightarrow>
    write_header ptr len a flags m (CACHEABLE ptr + of_nat d) = GUARD"
proof -
  let ?q = "CACHEABLE ptr"
  assume d: "d \<in> {8..<16} \<union> {16 + unat len..<32 + unat len}"
  let ?m1 = "fill ?q MEM_SEC_ZONE GUARD m"
  let ?m2 = "fill (?q + len + of_nat MEM_SEC_ZONE) MEM_SEC_ZONE GUARD ?m1"
  have m1: "?m1 (?q + of_nat d) = GUARD" if "d < 16"
    using that assms(2) fill_off [of d 0 16 ?q GUARD m] by (simp add: MEM_SEC_ZONE_def)
  have "?q + len + of_nat MEM_SEC_ZONE = ?q + of_nat (16 + unat len)" by (simp add: MEM_SEC_ZONE_def)
  then have "?m2 (?q + of_nat d) = (if 16 + unat len \<le> d \<and> d < 16 + unat len + MEM_SEC_ZONE then GUARD else ?m1 (?q + of_nat d))"
    using fill_off [of d "16 + unat len" MEM_SEC_ZONE ?q GUARD ?m1] assms by (simp only:) (simp add: MEM_SEC_ZONE_def)
  then have "?m2 (?q + of_nat d) = GUARD"
    using d m1 unfolding MEM_SEC_ZONE_def by auto
  then show ?thesis
    using d assms(2) wr32_off [of d 4 _ ?q] wr16_off [of d 0 _ ?q] wr16_off [of d 2 _ ?q]
    by (auto simp: write_header_def Let_def)
qed

lemma wr_rd_same:
  "rd32 (wr16 m (q + of_nat e) v) (q + of_nat f) = rd32 m (q + of_nat f)" if "e + 2 \<le> f" "f + 4 \<le> 2 ^ 32"
  for e f :: nat
  using that by (intro rd32_cong wr16_off) auto

lemma write_header_fields:
  "hdr_length (write_header ptr len a flags m) ptr = len"
  "hdr_allocator (write_header ptr len a flags m) ptr = of_nat a"
  "hdr_flags (write_header ptr len a flags m) ptr =
     ucast (flags OR (if ptr = UNCACHEABLE ptr then UNCACHEABLE_FLAG else 0))"
proof -
  let ?q = "CACHEABLE ptr"
  show "hdr_length (write_header ptr len a flags m) ptr = len"
    using wr_rd_same [of 2 4 _ ?q] wr_rd_same [of 0 4 _ ?q] by (simp add: hdr_length_def write_header_def Let_def mem_simps)
  have "rd16 (wr16 m' (?q + 2) v) ?q = rd16 m' ?q" for m' v
    using rd16_cong [of "wr16 m' (?q + 2) v" ?q 0 m'] wr16_off [of _ 2 m' ?q v] by auto
  then show "hdr_allocator (write_header ptr len a flags m) ptr = of_nat a"
    by (simp add: hdr_allocator_def write_header_def Let_def mem_simps)
  show "hdr_flags (write_header ptr len a flags m) ptr =
     ucast (flags OR (if ptr = UNCACHEABLE ptr then UNCACHEABLE_FLAG else 0))"
    by (simp add: hdr_flags_def write_header_def Let_def mem_simps)
qed

lemma set_hdr_id_off: "d < 2 ^ 32 \<Longrightarrow> d < 8 \<or> 12 \<le> d \<Longrightarrow>
    set_hdr_id ptr v m (CACHEABLE ptr + of_nat d) = m (CACHEABLE ptr + of_nat d)"
  using wr32_off [of d 8 m "CACHEABLE ptr" v] by (simp add: set_hdr_id_def)

lemma hdr_id_set: "hdr_id (set_hdr_id ptr v m) ptr = v"
  by (simp add: hdr_id_def set_hdr_id_def mem_simps)

lemma hdr_cong:
  assumes "\<And>d. d < 12 \<Longrightarrow> m' (CACHEABLE ptr + of_nat d) = m (CACHEABLE ptr + of_nat d)"
  shows "hdr_length m' ptr = hdr_length m ptr" "hdr_allocator m' ptr = hdr_allocator m ptr"
    "hdr_flags m' ptr = hdr_flags m ptr" "hdr_id m' ptr = hdr_id m ptr"
proof -
  let ?q = "CACHEABLE ptr"
  have "rd32 m' (?q + of_nat 4) = rd32 m (?q + of_nat 4)" by (rule rd32_cong, rule assms) simp
  then show "hdr_length m' ptr = hdr_length m ptr" by (simp add: hdr_length_def)
  have "rd16 m' (?q + of_nat 0) = rd16 m (?q + of_nat 0)" by (rule rd16_cong, rule assms) simp
  then show "hdr_allocator m' ptr = hdr_allocator m ptr" by (simp add: hdr_allocator_def)
  have "rd16 m' (?q + of_nat 2) = rd16 m (?q + of_nat 2)" by (rule rd16_cong, rule assms) simp
  then show "hdr_flags m' ptr = hdr_flags m ptr" by (simp add: hdr_flags_def)
  have "rd32 m' (?q + of_nat 8) = rd32 m (?q + of_nat 8)" by (rule rd32_cong, rule assms) simp
  then show "hdr_id m' ptr = hdr_id m ptr" by (simp add: hdr_id_def)
qed

lemma set_hdr_id_fields:
  "hdr_length (set_hdr_id ptr v m) ptr = hdr_length m ptr" "hdr_allocator (set_hdr_id ptr v m) ptr = hdr_allocator m ptr"
  "hdr_flags (set_hdr_id ptr v m) ptr = hdr_flags m ptr"
proof -
  let ?q = "CACHEABLE ptr" and ?m = "set_hdr_id ptr v m"
  have "rd32 ?m (?q + of_nat 4) = rd32 m (?q + of_nat 4)" by (rule rd32_cong, rule set_hdr_id_off) simp_all
  then show "hdr_length ?m ptr = hdr_length m ptr" by (simp add: hdr_length_def)
  have "rd16 ?m (?q + of_nat 0) = rd16 m (?q + of_nat 0)" by (rule rd16_cong, rule set_hdr_id_off) simp_all
  then show "hdr_allocator ?m ptr = hdr_allocator m ptr" by (simp add: hdr_allocator_def)
  have "rd16 ?m (?q + of_nat 2) = rd16 m (?q + of_nat 2)" by (rule rd16_cong, rule set_hdr_id_off) simp_all
  then show "hdr_flags ?m ptr = hdr_flags m ptr" by (simp add: hdr_flags_def)
qed

lemma live_block_new:
  assumes "unat len + 32 \<le> 2 ^ 32"
  shows "live_block (set_hdr_id ptr bid (write_header ptr len a flags m)) ptr len a flags bid"
proof -
  have "set_hdr_id ptr bid (write_header ptr len a flags m) (CACHEABLE ptr + of_nat d) = GUARD"
    if "d \<in> {12..<16} \<union> {16 + unat len..<32 + unat len}" for d
    using that assms set_hdr_id_off [of d ptr bid] write_header_bytes [OF assms, of d ptr a flags m] by auto
  then show ?thesis
    by (simp add: live_block_def set_hdr_id_fields write_header_fields hdr_id_set)
qed

lemma live_block_user_writes:
  assumes "unat len + 32 \<le> 2 ^ 32" and "live_block m ptr len a flags bid" and "user_writes ptr len m m'"
  shows "live_block m' ptr len a flags bid"
proof -
  have same: "m' (CACHEABLE ptr + of_nat d) = m (CACHEABLE ptr + of_nat d)" if "d < 2 ^ 32" "d < 16 \<or> 16 + unat len \<le> d" for d
    using assms(3) that by (auto simp: user_writes_def)
  have "m' (CACHEABLE ptr + of_nat d) = GUARD" if "d \<in> {12..<16} \<union> {16 + unat len..<32 + unat len}" for d
    using that assms(1,2) same [of d] by (auto simp: live_block_def)
  then show ?thesis
    using hdr_cong [of m' ptr m] same assms(2) by (simp add: live_block_def)
qed

lemma guards_failed_zero:
  assumes "live_block m ptr len a flags bid"
  shows "guards_failed m ptr = 0"
proof -
  let ?q = "CACHEABLE ptr"
  have g: "\<forall>d \<in> {12..<16} \<union> {16 + unat len..<32 + unat len}. m (?q + of_nat d) = GUARD" and l: "hdr_length m ptr = len"
    using assms by (simp_all add: live_block_def)
  have "m (?q + of_nat MEM_SEC_ZONE + len + of_nat pos) = GUARD" if "pos < 16" for pos
  proof -
    have "?q + of_nat MEM_SEC_ZONE + len + of_nat pos = ?q + of_nat (16 + unat len + pos)" by (simp add: MEM_SEC_ZONE_def)
    moreover have "m (?q + of_nat (16 + unat len + pos)) = GUARD" using that by (intro bspec [OF g]) simp
    ultimately show ?thesis by (simp only:)
  qed
  moreover have "m (?q + of_nat pos) = GUARD" if "12 \<le> pos" "pos < 16" for pos using g that by simp
  note this [of 12] this [of 13] this [of 14] this [of 15]
  ultimately show ?thesis
    using l by (simp add: guards_failed_def list_ex_iff sizeof_hdr_def MEM_SEC_ZONE_def)
qed

lemma guards_failed_detects:
  assumes "hdr_length m ptr = len" and "d \<in> {12..<16} \<union> {16 + unat len..<32 + unat len}"
    and "m (CACHEABLE ptr + of_nat d) \<noteq> GUARD"
  shows "guards_failed m ptr \<noteq> 0"
proof (cases "d \<in> {12..<16}")
  case True
  then have "list_ex (\<lambda>pos. m (CACHEABLE ptr + of_nat pos) \<noteq> GUARD) [sizeof_hdr..<MEM_SEC_ZONE]"
    unfolding list_ex_iff using assms(3) by (intro bexI [of _ d]) (auto simp: sizeof_hdr_def MEM_SEC_ZONE_def)
  then show ?thesis by (auto simp: guards_failed_def)
next
  case False
  then obtain pos where pos: "d = 16 + unat len + pos" "pos < 16"
    using assms(2) by (auto intro: that [of "d - 16 - unat len"])
  have "CACHEABLE ptr + of_nat MEM_SEC_ZONE + len + of_nat pos = CACHEABLE ptr + of_nat d"
    by (simp add: MEM_SEC_ZONE_def pos(1))
  then have "m (CACHEABLE ptr + of_nat MEM_SEC_ZONE + hdr_length m ptr + of_nat pos) \<noteq> GUARD"
    unfolding assms(1) using assms(3) by metis
  then have "list_ex (\<lambda>pos. m (CACHEABLE ptr + of_nat MEM_SEC_ZONE + hdr_length m ptr + of_nat pos) \<noteq> GUARD) [0..<MEM_SEC_ZONE]"
    unfolding list_ex_iff using pos(2) by (intro bexI [of _ pos]) (auto simp: MEM_SEC_ZONE_def)
  then show ?thesis by (auto simp: guards_failed_def)
qed

subsection \<open>The tracking table\<close>

lemma find_slot_Some:
  "find_slot n es pos = (Some i, pos') \<Longrightarrow> pos < MEMCHECK_ENTRIES \<Longrightarrow> i < MEMCHECK_ENTRIES \<and> e_ptr (es ! i) = 0 \<and> pos' = i"
proof (induction n arbitrary: pos)
  case (Suc n)
  then show ?case by (auto simp: Let_def MEMCHECK_ENTRIES_def split: if_splits)
qed simp

lemma find_slot_pos: "find_slot n es pos = (r, pos') \<Longrightarrow> pos < MEMCHECK_ENTRIES \<Longrightarrow> pos' < MEMCHECK_ENTRIES"
proof (induction n arbitrary: pos)
  case (Suc n)
  then show ?case by (auto simp: Let_def MEMCHECK_ENTRIES_def split: if_splits)
qed simp

text \<open>The search visits all 256 entries before it gives up.\<close>

lemma find_slot_None:
  "find_slot n es pos = (None, pos') \<Longrightarrow> pos < MEMCHECK_ENTRIES \<Longrightarrow> k < n \<Longrightarrow>
   e_ptr (es ! ((pos + k) mod MEMCHECK_ENTRIES)) \<noteq> 0"
proof (induction n arbitrary: pos k)
  case (Suc n)
  show ?case
  proof (cases k)
    case 0
    then show ?thesis using Suc.prems by (auto split: if_splits)
  next
    case (Suc j)
    have "n \<noteq> 0" using Suc Suc.prems by auto
    then have "find_slot n es ((pos + 1) mod MEMCHECK_ENTRIES) = (None, pos')"
      using Suc.prems(1) by (auto simp: Let_def split: if_splits)
    from Suc.IH [OF this, of j] show ?thesis
      using Suc Suc.prems by (simp add: MEMCHECK_ENTRIES_def mod_simps)
  qed
qed simp

lemma unat_max32: "unat (0xFFFFFFFF :: u32) = 2 ^ 32 - 1"
  by simp

lemma memcheck_check_intact:
  assumes "live_block (ram st) ptr len a flags bid" and "id_failed bid 0xFFFFFFFF = 0" and "tracker_ok st"
  shows "memcheck_check ptr 0xFFFFFFFF st = (0, st)"
proof -
  have "hdr_id (ram st) ptr = bid" using assms(1) by (simp add: live_block_def)
  then show ?thesis
    using guards_failed_zero [OF assms(1)] assms(2,3)
    by (simp add: memcheck_check_def Let_def tracker_ok_def MEMCHECK_ENTRIES_def)
qed

text \<open>What \<^verbatim>\<open>memcheck_add\<close> leaves behind.\<close>

lemma memcheck_add_props:
  assumes "tracker_ok st" and "ram st = write_header ptr len a flags m" and "unat len + 32 \<le> 2 ^ 32"
  obtains bid st' where "memcheck_add ptr file line task st = st'" "live_block (ram st') ptr len a flags bid"
    "id_failed bid 0xFFFFFFFF = 0" "tracker_ok st'"
    "bid \<noteq> UNTRACKED \<longrightarrow> unat bid < MEMCHECK_ENTRIES \<and> e_ptr (memcheck_entries st ! unat bid) = 0
       \<and> map e_ptr (memcheck_entries st') = (map e_ptr (memcheck_entries st))[unat bid := ptr]"
    "bid = UNTRACKED \<longrightarrow> memcheck_entries st' = memcheck_entries st"
    "pool_state st' = pool_state st" "mem_used st' = mem_used st" "num_blocks st' = num_blocks st"
    "alloc_total st' = alloc_total st" "alloc_total_with_memcheck st' = alloc_total_with_memcheck st"
proof (cases "find_slot MEMCHECK_ENTRIES (memcheck_entries st) (memcheck_bufpos st)")
  case (Pair r pos)
  have pos: "pos < MEMCHECK_ENTRIES" using find_slot_pos [OF Pair] assms(1) by (simp add: tracker_ok_def)
  show ?thesis
  proof (cases r)
    case None
    then show ?thesis
      using Pair assms pos live_block_new [OF assms(3), of ptr UNTRACKED a flags m]
      by (intro that [of "memcheck_add ptr file line task st" UNTRACKED])
        (simp_all add: memcheck_add_def id_failed_def tracker_ok_def)
  next
    case (Some i)
    then have i: "i < MEMCHECK_ENTRIES" "e_ptr (memcheck_entries st ! i) = 0"
      using find_slot_Some [of _ _ _ i pos] Pair assms(1) by (auto simp: tracker_ok_def)
    then have u: "unat (of_nat i :: u32) = i" by (intro unat_of_nat32) (simp add: MEMCHECK_ENTRIES_def)
    have nu: "of_nat i \<noteq> UNTRACKED" "of_nat i \<noteq> JUST_FREED"
      using i(1) u by (auto simp: UNTRACKED_def JUST_FREED_def MEMCHECK_ENTRIES_def dest: arg_cong [of _ _ unat])
    then show ?thesis
      using Some Pair assms pos i u live_block_new [OF assms(3), of ptr "of_nat i" a flags m]
      by (intro that [of "memcheck_add ptr file line task st" "of_nat i"])
        (simp_all add: memcheck_add_def id_failed_def tracker_ok_def map_update)
  qed
qed

subsection \<open>Allocation and release\<close>

lemma account_simps [simp]:
  "ram (account_alloc a len st) = ram st" "pool_state (account_alloc a len st) = pool_state st"
  "memcheck_entries (account_alloc a len st) = memcheck_entries st"
  "memcheck_bufpos (account_alloc a len st) = memcheck_bufpos st"
  "ram (account_free a len st) = ram st" "pool_state (account_free a len st) = pool_state st"
  "memcheck_entries (account_free a len st) = memcheck_entries st"
  by (simp_all add: account_alloc_def account_free_def update_history_def Let_def)

lemma account_free_alloc:
  assumes "accounts st2 = accounts (account_alloc a len st1)" and "a < length (mem_used st1)" and "a < length (num_blocks st1)"
  shows "accounts (account_free a len st2) = accounts st1"
  using assms by (simp add: accounts_def account_free_def account_alloc_def update_history_def Let_def)

lemma account_alloc_lengths:
  "length (mem_used (account_alloc a len st)) = length (mem_used st)"
  "length (num_blocks (account_alloc a len st)) = length (num_blocks st)"
  by (simp_all add: account_alloc_def update_history_def Let_def)

lemma memcheck_malloc_cases:
  assumes "memcheck_malloc as len file line task a flags st = Inr (buf, st')" and "tracker_ok st"
    and "unat len + 32 \<le> 2 ^ 32"
  obtains f ptr m b where "alloc_fun (as ! a) flags = Some f" "a < length as"
    "f (block_size len) (ram st, pool_state st) = (ptr, m, b)" "pool_state st' = b"
    "ptr AND 1 \<noteq> 0 \<or> ptr = 0 \<Longrightarrow> buf = 0 \<and> st' = st\<lparr>ram := m, pool_state := b\<rparr>"
    "\<not> (ptr AND 1 \<noteq> 0 \<or> ptr = 0) \<Longrightarrow> buf = ptr + 16 \<and> obtained ptr len a flags st st'"
proof -
  obtain f where f: "alloc_fun (as ! a) flags = Some f" "a < length as"
    using assms(1) by (auto simp: memcheck_malloc_def alloc_fun_def split: if_splits option.splits)
  obtain ptr m b where r: "f (block_size len) (ram st, pool_state st) = (ptr, m, b)"
    using prod_cases3 by blast
  let ?st1 = "st\<lparr>ram := m, pool_state := b\<rparr>"
  have eq: "memcheck_malloc as len file line task a flags st =
      (if ptr AND 1 \<noteq> 0 \<or> ptr = 0 then Inr (0, ?st1)
       else Inr (ptr + 16, account_alloc a len (memcheck_add ptr file line task (?st1\<lparr>ram := write_header ptr len a flags m\<rparr>))))"
    using f r by (simp add: memcheck_malloc_def alloc_fun_def [symmetric] Let_def MEM_SEC_ZONE_def)
  show ?thesis
  proof (cases "ptr AND 1 \<noteq> 0 \<or> ptr = 0")
    case True
    then show ?thesis using that [OF f r] eq assms(1) by auto
  next
    case False
    let ?st2 = "?st1\<lparr>ram := write_header ptr len a flags m\<rparr>"
    have trk: "tracker_ok ?st2" using assms(2) by (simp add: tracker_ok_def)
    have rm: "ram ?st2 = write_header ptr len a flags m" by simp
    obtain bid st3 where st3: "memcheck_add ptr file line task ?st2 = st3" "live_block (ram st3) ptr len a flags bid"
        "id_failed bid 0xFFFFFFFF = 0" "tracker_ok st3"
        "bid \<noteq> UNTRACKED \<longrightarrow> unat bid < MEMCHECK_ENTRIES \<and> e_ptr (memcheck_entries ?st2 ! unat bid) = 0
           \<and> map e_ptr (memcheck_entries st3) = (map e_ptr (memcheck_entries ?st2))[unat bid := ptr]"
        "bid = UNTRACKED \<longrightarrow> memcheck_entries st3 = memcheck_entries ?st2"
        "pool_state st3 = pool_state ?st2" "mem_used st3 = mem_used ?st2" "num_blocks st3 = num_blocks ?st2"
        "alloc_total st3 = alloc_total ?st2" "alloc_total_with_memcheck st3 = alloc_total_with_memcheck ?st2"
      by (rule memcheck_add_props [OF trk rm assms(3)])
    have st': "buf = ptr + 16" "st' = account_alloc a len st3" using eq False assms(1) st3(1) by auto
    have "accounts st' = accounts (account_alloc a len st)"
      using st'(2) st3(8-11) by (simp add: accounts_def account_alloc_def update_history_def Let_def)
    then have "obtained ptr len a flags st st'"
      unfolding obtained_def using st' st3(2-6)
      by (intro conjI exI [of _ bid]) (auto simp: tracker_ok_def account_alloc_lengths)
    then show ?thesis using that [OF f r] False st' st3(7) by auto
  qed
qed

lemma alias_addr:
  assumes "r < 2 ^ 30"
  shows "CACHEABLE (of_nat r) = of_nat r" "CACHEABLE (of_nat (r + 2 ^ 30)) = of_nat r"
    "UNCACHEABLE (of_nat r) = of_nat (r + 2 ^ 30)" "UNCACHEABLE (of_nat (r + 2 ^ 30)) = of_nat (r + 2 ^ 30)"
proof -
  have u: "unat (of_nat r :: u32) = r" "unat (of_nat (r + 2 ^ 30) :: u32) = r + 2 ^ 30"
    using assms by (intro unat_of_nat32; simp)+
  show "CACHEABLE (of_nat r) = of_nat r" "CACHEABLE (of_nat (r + 2 ^ 30)) = of_nat r"
    using unat_CACHEABLE [of "of_nat r"] unat_CACHEABLE [of "of_nat (r + 2 ^ 30)"] u assms
    by (simp_all add: word_unat_eq_iff)
  show "UNCACHEABLE (of_nat r) = of_nat (r + 2 ^ 30)"
    using UNCACHEABLE_low [of "of_nat r"] u assms by simp
  show "UNCACHEABLE (of_nat (r + 2 ^ 30)) = of_nat (r + 2 ^ 30)"
    using UNCACHEABLE_high [of "of_nat (r + 2 ^ 30)"] u by simp
qed

lemma user_ptr_back:
  assumes "ram_block ptr n"
  shows "CACHEABLE (user_ptr flags (ptr + 16) - 16) = CACHEABLE ptr"
    "(if ptr = UNCACHEABLE ptr then UNCACHEABLE (user_ptr flags (ptr + 16)) else CACHEABLE (user_ptr flags (ptr + 16))) = ptr + 16"
    "user_ptr flags (ptr + 16) \<noteq> 0"
proof -
  define r where "r = unat ptr mod 2 ^ 30"
  have r: "r + 16 < 2 ^ 30" "r < 2 ^ 30" using assms by (simp_all add: ram_block_def r_def)
  have "unat ptr = r \<or> unat ptr = r + 2 ^ 30"
  proof (cases "unat ptr < 2 ^ 30")
    case True
    then show ?thesis by (simp add: r_def)
  next
    case False
    then have "unat ptr mod 2 ^ 30 = (unat ptr - 2 ^ 30) mod 2 ^ 30" by (intro le_mod_geq) simp
    also have "\<dots> = unat ptr - 2 ^ 30" using assms False by (intro mod_less) (simp add: ram_block_def less_diff_conv2)
    finally show ?thesis using False by (simp add: r_def)
  qed
  moreover have "ptr = of_nat (unat ptr)" by simp
  ultimately have p: "ptr = of_nat r \<or> ptr = of_nat (r + 2 ^ 30)" by metis
  have plus: "(of_nat r :: u32) + 16 = of_nat (r + 16)" "(of_nat (r + 2 ^ 30) :: u32) + 16 = of_nat (r + 16 + 2 ^ 30)"
    "(of_nat (r + 16) :: u32) - 16 = of_nat r" "(of_nat (r + 16 + 2 ^ 30) :: u32) - 16 = of_nat (r + 2 ^ 30)" by simp_all
  have ne: "(of_nat r :: u32) \<noteq> of_nat (r + 2 ^ 30)" "(of_nat (r + 16) :: u32) \<noteq> 0" "(of_nat (r + 16 + 2 ^ 30) :: u32) \<noteq> 0"
    using r unat_of_nat32 [of r] unat_of_nat32 [of "r + 2 ^ 30"] unat_of_nat32 [of "r + 16"] unat_of_nat32 [of "r + 16 + 2 ^ 30"]
    by (auto dest: arg_cong [of _ _ unat])
  note al = alias_addr [OF r(1)] alias_addr [OF r(2)]
  show "CACHEABLE (user_ptr flags (ptr + 16) - 16) = CACHEABLE ptr"
    "(if ptr = UNCACHEABLE ptr then UNCACHEABLE (user_ptr flags (ptr + 16)) else CACHEABLE (user_ptr flags (ptr + 16))) = ptr + 16"
    "user_ptr flags (ptr + 16) \<noteq> 0"
    using p unfolding user_ptr_def by (elim disjE; simp only: plus al ne if_cancel if_True if_False split: if_split; simp add: ne)+
qed

lemma memcheck_free_obtained:
  assumes ob: "obtained ptr len a flags st st'" and uw: "user_writes ptr len (ram st') m'" and trk: "tracker_ok st"
    and a: "a < 4" and len: "unat len + 32 \<le> 2 ^ 32"
  shows "accounts (memcheck_free as (ptr + 16) a fl (st'\<lparr>ram := m'\<rparr>)) = accounts st"
    "map e_ptr (memcheck_entries (memcheck_free as (ptr + 16) a fl (st'\<lparr>ram := m'\<rparr>))) = map e_ptr (memcheck_entries st)"
    "(ram (memcheck_free as (ptr + 16) a fl (st'\<lparr>ram := m'\<rparr>)), pool_state (memcheck_free as (ptr + 16) a fl (st'\<lparr>ram := m'\<rparr>))) =
       free_fun (as ! a) fl ptr (set_hdr_id ptr JUST_FREED m', pool_state st')"
proof -
  let ?s = "st'\<lparr>ram := m'\<rparr>"
  obtain bid where bid: "live_block (ram st') ptr len a flags bid" "id_failed bid 0xFFFFFFFF = 0"
      "if bid = UNTRACKED then memcheck_entries st' = memcheck_entries st
       else unat bid < MEMCHECK_ENTRIES \<and> e_ptr (memcheck_entries st ! unat bid) = 0
          \<and> map e_ptr (memcheck_entries st') = (map e_ptr (memcheck_entries st))[unat bid := ptr]"
    and acc: "accounts st' = accounts (account_alloc a len st)" and trk': "tracker_ok st'"
    using ob by (auto simp: obtained_def)
  have live: "live_block m' ptr len a flags bid" using live_block_user_writes [OF len bid(1) uw] .
  then have chk: "memcheck_check ptr 0xFFFFFFFF ?s = (0, ?s)"
    using memcheck_check_intact [of ?s ptr len a flags bid] bid(2) trk' by (simp add: tracker_ok_def)
  define s2 where "s2 = memcheck_remove ptr 0 ?s"
  have id: "hdr_id m' ptr = bid" "hdr_length m' ptr = len" using live by (simp_all add: live_block_def)
  have ram2: "ram s2 = set_hdr_id ptr JUST_FREED m'" and rest: "accounts s2 = accounts st'" "pool_state s2 = pool_state st'"
    by (auto simp: s2_def memcheck_remove_def Let_def accounts_def)
  have len_e: "length (memcheck_entries st') = MEMCHECK_ENTRIES" "length (memcheck_entries st) = MEMCHECK_ENTRIES"
    using trk trk' by (simp_all add: tracker_ok_def)
  have ents: "map e_ptr (memcheck_entries s2) = map e_ptr (memcheck_entries st)"
  proof (cases "bid = UNTRACKED")
    case True
    then show ?thesis using bid(3) id by (simp add: s2_def memcheck_remove_def Let_def)
  next
    case False
    then have i: "unat bid < MEMCHECK_ENTRIES" "e_ptr (memcheck_entries st ! unat bid) = 0"
      "map e_ptr (memcheck_entries st') = (map e_ptr (memcheck_entries st))[unat bid := ptr]" using bid(3) by simp_all
    then have "e_ptr (memcheck_entries st' ! unat bid) = ptr"
      using len_e by (metis length_list_update length_map nth_list_update_eq nth_map)
    then have "map e_ptr (memcheck_entries s2) = (map e_ptr (memcheck_entries st'))[unat bid := 0]"
      using False i(1) id by (simp add: s2_def memcheck_remove_def Let_def map_update)
    also have "\<dots> = map e_ptr (memcheck_entries st)"
      unfolding i(3) using i(1,2) len_e by (simp add: list_update_same_conv)
    finally show ?thesis .
  qed
  have l2: "hdr_length (ram s2) ptr = len" using ram2 id(2) by (simp add: set_hdr_id_fields)
  have eq: "memcheck_free as (ptr + 16) a fl ?s =
      (case free_fun (as ! a) fl ptr (ram s2, pool_state s2) of (m, b) \<Rightarrow> (account_free a len s2)\<lparr>ram := m, pool_state := b\<rparr>)"
    using chk l2 by (simp add: memcheck_free_def MEM_SEC_ZONE_def Let_def s2_def [symmetric] free_fun_def)
  have "accounts (account_free a len s2) = accounts st"
    using rest(1) acc a trk by (intro account_free_alloc) (simp_all add: tracker_ok_def)
  then show "accounts (memcheck_free as (ptr + 16) a fl ?s) = accounts st"
    "map e_ptr (memcheck_entries (memcheck_free as (ptr + 16) a fl ?s)) = map e_ptr (memcheck_entries st)"
    "(ram (memcheck_free as (ptr + 16) a fl ?s), pool_state (memcheck_free as (ptr + 16) a fl ?s)) =
       free_fun (as ! a) fl ptr (set_hdr_id ptr JUST_FREED m', pool_state st')"
    using ents rest(2) ram2 unfolding eq by (auto simp: accounts_def split: prod.split)
qed

lemma unat_block_size: "unat len + 32 < 2 ^ 32 \<Longrightarrow> unat (block_size len) = unat len + 32"
  by (simp add: block_size_def MEM_SEC_ZONE_def unat_word_ariths)

lemma backend_block:
  assumes "pools_in_ram P" and "unat sz + 32 < 2 ^ 32" and "i < 4"
    and "backend_call (allocators P ! i) flags (block_size sz) s = Some (ptr, m, b)" and "\<not> refused ptr"
  shows "ram_block ptr (block_size sz)" and "ptr + 16 \<noteq> 0"
proof -
  obtain f where f: "alloc_fun (allocators P ! i) flags = Some f" "f (block_size sz) s = (ptr, m, b)"
    using assms(4) by (auto simp: backend_call_def)
  have "allocators P ! i \<in> set (allocators P)" using assms(3) by (intro nth_mem) (simp add: allocators_def)
  moreover have "32 \<le> unat (block_size sz)" using unat_block_size [OF assms(2)] by simp
  ultimately show rb: "ram_block ptr (block_size sz)"
    using assms(1,5) f unfolding pools_in_ram_def refused_def by blast
  have "unat (ptr + 16) \<noteq> 0" using rb unfolding ram_block_def by (simp add: unat_word_ariths)
  then show "ptr + 16 \<noteq> 0" by auto
qed

lemma memcheck_malloc_calls:
  assumes "memcheck_malloc (allocators P) sz file line task i flags st = Inr (buf, st')" and "tracker_ok st"
    and "unat sz + 32 < 2 ^ 32" and "pools_in_ram P"
  obtains ptr m b where "i < 4" "backend_call (allocators P ! i) flags (block_size sz) (ram st, pool_state st) = Some (ptr, m, b)"
    "if refused ptr then buf = 0 \<and> st' = st\<lparr>ram := m, pool_state := b\<rparr>
     else buf = ptr + 16 \<and> buf \<noteq> 0 \<and> pool_state st' = b \<and> obtained ptr sz i flags st st' \<and> ram_block ptr (block_size sz)"
proof -
  have sz: "unat sz + 32 \<le> 2 ^ 32" using assms(3) by simp
  from memcheck_malloc_cases [OF assms(1,2) sz] obtain f ptr m b where
    f: "alloc_fun (allocators P ! i) flags = Some f" "i < length (allocators P)"
      "f (block_size sz) (ram st, pool_state st) = (ptr, m, b)" "pool_state st' = b"
      "ptr AND 1 \<noteq> 0 \<or> ptr = 0 \<Longrightarrow> buf = 0 \<and> st' = st\<lparr>ram := m, pool_state := b\<rparr>"
      "\<not> (ptr AND 1 \<noteq> 0 \<or> ptr = 0) \<Longrightarrow> buf = ptr + 16 \<and> obtained ptr sz i flags st st'" by metis
  have i: "i < 4" using f(2) by (simp add: allocators_def)
  have c: "backend_call (allocators P ! i) flags (block_size sz) (ram st, pool_state st) = Some (ptr, m, b)"
    using f(1,3) by (simp add: backend_call_def)
  show thesis using that [OF i c] f(4-6) backend_block [OF assms(4,3) i c] by (simp add: refused_def)
qed

lemma mem_malloc_obtains:
  assumes "mem_malloc P sz flags file line task st = Inr (buf, st')" and "buf \<noteq> 0" and "tracker_ok st"
    and "unat sz + 32 < 2 ^ 32" and "pools_in_ram P"
  obtains ptr a st0 where "buf = user_ptr flags (ptr + 16)" "a < 4" "ram_block ptr (block_size sz)"
    "obtained ptr sz a flags st0 st'" "tracker_ok st0" "accounts st0 = accounts st" "memcheck_entries st0 = memcheck_entries st"
    "served P sz flags (ram st, pool_state st) = Some (a, ptr, pool_state st')"
proof -
  obtain a ptr1 st1 ptr2 where ch: "choose_allocator P (pool_state st) (sint sz) flags = Some a"
    and a: "memcheck_malloc (allocators P) sz (file_name_without_path file) line task a flags st = Inr (ptr1, st1)"
    "ptr2 \<noteq> 0" "buf = user_ptr flags ptr2"
    "(if ptr1 = 0 \<and> try_next_allocator (allocators P ! a)
      then memcheck_malloc (allocators P) sz (file_name_without_path file) line task (a + 1) flags st1 else Inr (ptr1, st1)) = Inr (ptr2, st')"
    using assms(1,2) by (auto simp: mem_malloc_def Let_def user_ptr_def split: option.splits sum.splits if_splits)
  from memcheck_malloc_calls [OF a(1) assms(3-5)] obtain p m b where
    c: "a < 4" "backend_call (allocators P ! a) flags (block_size sz) (ram st, pool_state st) = Some (p, m, b)"
      "if refused p then ptr1 = 0 \<and> st1 = st\<lparr>ram := m, pool_state := b\<rparr>
       else ptr1 = p + 16 \<and> ptr1 \<noteq> 0 \<and> pool_state st1 = b \<and> obtained p sz a flags st st1 \<and> ram_block p (block_size sz)" .
  show thesis
  proof (cases "refused p")
    case False
    then have "ptr1 = p + 16" "ptr1 \<noteq> 0" using c(3) by auto
    then have "ptr2 = p + 16" "st' = st1" using a(4) by simp_all
    then show thesis using that [of p a st] c False a(3) assms(3) ch by (simp add: served_def Let_def)
  next
    case True
    then have st1: "ptr1 = 0" "st1 = st\<lparr>ram := m, pool_state := b\<rparr>" using c(3) by simp_all
    then have nx: "try_next_allocator (allocators P ! a)"
      "memcheck_malloc (allocators P) sz (file_name_without_path file) line task (a + 1) flags st1 = Inr (ptr2, st')"
      using a(2,4) by (simp_all split: if_splits)
    have t1: "tracker_ok st1" "accounts st1 = accounts st" "memcheck_entries st1 = memcheck_entries st"
      using assms(3) st1(2) by (simp_all add: tracker_ok_def accounts_def)
    from memcheck_malloc_calls [OF nx(2) t1(1) assms(4,5)] obtain p' m' b' where
      c': "a + 1 < 4" "backend_call (allocators P ! (a + 1)) flags (block_size sz) (ram st1, pool_state st1) = Some (p', m', b')"
        "if refused p' then ptr2 = 0 \<and> st' = st1\<lparr>ram := m', pool_state := b'\<rparr>
         else ptr2 = p' + 16 \<and> ptr2 \<noteq> 0 \<and> pool_state st' = b' \<and> obtained p' sz (a + 1) flags st1 st' \<and> ram_block p' (block_size sz)" .
    have "\<not> refused p'" using c'(3) a(2) by auto
    then show thesis using that [of p' "a + 1" st1] c c' True a(3) t1 ch nx(1) st1(2) by (simp add: served_def Let_def)
  qed
qed

lemma stored_flags:
  assumes "flags AND UNCACHEABLE_FLAG = 0"
  shows "(ucast (ucast (flags OR (if c then UNCACHEABLE_FLAG else 0)) :: u16) :: u32) AND UNCACHEABLE_FLAG \<noteq> 0 \<longleftrightarrow> c"
    "(ucast (ucast (flags OR (if c then UNCACHEABLE_FLAG else 0)) :: u16) :: u32) AND MEM_DMA = flags AND MEM_DMA"
proof -
  have e: "UNCACHEABLE_FLAG = 2 ^ 15" "MEM_DMA = 2 ^ 0" by (simp_all add: UNCACHEABLE_FLAG_def MEM_DMA_def)
  have b: "bit UNCACHEABLE_FLAG n \<longleftrightarrow> n = 15" "bit MEM_DMA n \<longleftrightarrow> n = 0" for n
    unfolding e by (simp_all only: bit_exp_iff possible_bit_word) auto
  have f15: "\<not> bit flags 15" using arg_cong [OF assms, of "\<lambda>w. bit w 15"] by (simp add: bit_and_iff b)
  let ?w = "(ucast (ucast (flags OR (if c then UNCACHEABLE_FLAG else 0)) :: u16) :: u32)"
  have w: "bit ?w n \<longleftrightarrow> n < 16 \<and> (bit flags n \<or> c \<and> n = 15)" for n
    by (auto simp: bit_ucast_iff bit_or_iff b)
  show "?w AND UNCACHEABLE_FLAG \<noteq> 0 \<longleftrightarrow> c"
  proof
    assume "?w AND UNCACHEABLE_FLAG \<noteq> 0"
    then obtain n where "bit (?w AND UNCACHEABLE_FLAG) n" by (auto simp: bit_eq_iff)
    then show c using f15 by (auto simp: bit_and_iff b w)
  next
    assume c
    then have "bit (?w AND UNCACHEABLE_FLAG) 15" unfolding bit_and_iff b w by simp
    then show "?w AND UNCACHEABLE_FLAG \<noteq> 0" by auto
  qed
  show "?w AND MEM_DMA = flags AND MEM_DMA"
    by (rule bit_word_eqI) (auto simp: bit_and_iff b w)
qed

lemma mem_free_obtained:
  assumes "hdr_allocator m' ptr = of_nat a" and "a < 4"
    and "hdr_flags m' ptr = ucast (flags OR (if ptr = UNCACHEABLE ptr then UNCACHEABLE_FLAG else 0))"
    and "flags AND UNCACHEABLE_FLAG = 0" and "ram_block ptr n"
  shows "\<exists>fl. fl AND MEM_DMA = flags AND MEM_DMA \<and>
    mem_free P (user_ptr flags (ptr + 16)) (st'\<lparr>ram := m'\<rparr>) = memcheck_free (allocators P) (ptr + 16) a fl (st'\<lparr>ram := m'\<rparr>)"
proof -
  let ?buf = "user_ptr flags (ptr + 16)" and ?c = "ptr = UNCACHEABLE ptr"
  let ?fl = "ucast (ucast (flags OR (if ?c then UNCACHEABLE_FLAG else 0)) :: u16) :: u32"
  have hdr: "hdr_allocator m' (?buf - 16) = of_nat a" "hdr_flags m' (?buf - 16) = hdr_flags m' ptr"
    using user_ptr_back(1) [OF assms(5), of flags] assms(1) by (simp_all add: hdr_allocator_def hdr_flags_def)
  have a: "unat (of_nat a :: u16) = a" using assms(2) by (simp add: unsigned_of_nat take_bit_nat_eq_self)
  have len4: "length (allocators P) = 4" by (simp add: allocators_def)
  have bk: "(if ?fl AND UNCACHEABLE_FLAG \<noteq> 0 then UNCACHEABLE ?buf else CACHEABLE ?buf) = ptr + 16"
    unfolding stored_flags(1) [OF assms(4)] by (rule user_ptr_back(2) [OF assms(5)])
  have "mem_free P ?buf (st'\<lparr>ram := m'\<rparr>) = memcheck_free (allocators P) (ptr + 16) a ?fl (st'\<lparr>ram := m'\<rparr>)"
    unfolding mem_free_def Let_def using user_ptr_back(3) [OF assms(5), of flags] hdr a assms(2,3) len4 bk
    by (simp add: MEM_SEC_ZONE_def)
  then show ?thesis using stored_flags(2) [OF assms(4)] by blast
qed

section \<open>Properties\<close>

text \<open>
  C1: \<^verbatim>\<open>__mem_free\<close> undoes \<^verbatim>\<open>__mem_malloc\<close>. Whatever the owner wrote into the block
  it got, freeing it passes all checks and is one call of the release function of the allocator that
  served the request, with the pointer which that allocator had handed out; only the identifier in the header was
  marked as freed before. The accounting and the set of tracked pointers are what they were before the allocation.
\<close>

theorem mem_free_undoes_malloc:
  assumes "pools_in_ram P" and "tracker_ok st" and "unat sz + 32 < 2 ^ 32" and "flags AND UNCACHEABLE_FLAG = 0"
    and "mem_malloc P sz flags file line task st = Inr (buf, st')" and "buf \<noteq> 0"
    and "user_writes (buf - 16) sz (ram st') m'"
  shows "accounts (mem_free P buf (st'\<lparr>ram := m'\<rparr>)) = accounts st
    \<and> map e_ptr (memcheck_entries (mem_free P buf (st'\<lparr>ram := m'\<rparr>))) = map e_ptr (memcheck_entries st)
    \<and> (\<exists>a ptr. served P sz flags (ram st, pool_state st) = Some (a, ptr, pool_state st')
        \<and> buf = user_ptr flags (ptr + 16)
        \<and> (ram (mem_free P buf (st'\<lparr>ram := m'\<rparr>)), pool_state (mem_free P buf (st'\<lparr>ram := m'\<rparr>)))
           = free_fun (allocators P ! a) flags ptr (set_hdr_id ptr JUST_FREED m', pool_state st'))"
proof -
  obtain ptr a st0 where o: "buf = user_ptr flags (ptr + 16)" "a < 4" "ram_block ptr (block_size sz)"
      "obtained ptr sz a flags st0 st'" "tracker_ok st0" "accounts st0 = accounts st" "memcheck_entries st0 = memcheck_entries st"
      "served P sz flags (ram st, pool_state st) = Some (a, ptr, pool_state st')"
    using mem_malloc_obtains [OF assms(5,6,2,3,1)] by blast
  have sz: "unat sz + 32 \<le> 2 ^ 32" using assms(3) by simp
  have uw: "user_writes ptr sz (ram st') m'"
    using assms(7) user_ptr_back(1) [OF o(3), of flags] o(1) by (simp add: user_writes_def)
  obtain bid where "live_block (ram st') ptr sz a flags bid" using o(4) by (auto simp: obtained_def)
  from live_block_user_writes [OF sz this uw]
  have "hdr_allocator m' ptr = of_nat a" "hdr_flags m' ptr = ucast (flags OR (if ptr = UNCACHEABLE ptr then UNCACHEABLE_FLAG else 0))"
    by (simp_all add: live_block_def)
  from mem_free_obtained [OF this(1) o(2) this(2) assms(4) o(3), of P st']
  obtain fl where fl: "fl AND MEM_DMA = flags AND MEM_DMA"
      "mem_free P buf (st'\<lparr>ram := m'\<rparr>) = memcheck_free (allocators P) (ptr + 16) a fl (st'\<lparr>ram := m'\<rparr>)"
    using o(1) by blast
  have "free_fun (allocators P ! a) fl = free_fun (allocators P ! a) flags" using fl(1) by (simp add: free_fun_def)
  then show ?thesis
    using memcheck_free_obtained [OF o(4) uw o(5,2) sz, of "allocators P" fl] fl(2) o(1,6-8) by auto
qed

text \<open>
  C5: A block whose guard zone was overwritten is never released. If any of the 4 bytes before the
  user area or of the 16 bytes after it no longer holds the guard value while the header is
  intact, \<^verbatim>\<open>__mem_free\<close> records an error and does not call the backend, so its state is
  unchanged.
\<close>

theorem mem_free_keeps_damaged_block:
  assumes "pools_in_ram P" and "tracker_ok st" and "unat sz + 32 < 2 ^ 32" and "flags AND UNCACHEABLE_FLAG = 0"
    and "mem_malloc P sz flags file line task st = Inr (buf, st')" and "buf \<noteq> 0"
    and "\<forall>d < 12. m' (CACHEABLE (buf - 16) + of_nat d) = ram st' (CACHEABLE (buf - 16) + of_nat d)"
    and "d \<in> {12..<16} \<union> {16 + unat sz..<32 + unat sz}" and "m' (CACHEABLE (buf - 16) + of_nat d) \<noteq> GUARD"
  shows "pool_state (mem_free P buf (st'\<lparr>ram := m'\<rparr>)) = pool_state st'
    \<and> last_error (mem_free P buf (st'\<lparr>ram := m'\<rparr>)) \<noteq> 0"
proof -
  obtain ptr a st0 where o: "buf = user_ptr flags (ptr + 16)" "a < 4" "ram_block ptr (block_size sz)" "obtained ptr sz a flags st0 st'"
    using mem_malloc_obtains [OF assms(5,6,2,3,1)] by metis
  have q: "CACHEABLE (buf - 16) = CACHEABLE ptr" using user_ptr_back(1) [OF o(3), of flags] o(1) by simp
  obtain bid where live: "live_block (ram st') ptr sz a flags bid" using o(4) by (auto simp: obtained_def)
  have h: "hdr_length m' ptr = sz" "hdr_allocator m' ptr = of_nat a"
    "hdr_flags m' ptr = ucast (flags OR (if ptr = UNCACHEABLE ptr then UNCACHEABLE_FLAG else 0))"
    using hdr_cong [of m' ptr "ram st'"] assms(7) live unfolding q by (simp_all add: live_block_def)
  have "guards_failed m' ptr \<noteq> 0" using guards_failed_detects [OF h(1) assms(8)] assms(9) unfolding q .
  then obtain failed s1 where s1: "memcheck_check ptr 0xFFFFFFFF (st'\<lparr>ram := m'\<rparr>) = (failed, s1)" "failed \<noteq> 0"
      "pool_state s1 = pool_state st'" "last_error s1 \<noteq> 0"
    by (auto simp: memcheck_check_def Let_def or_eq_0_iff)
  from mem_free_obtained [OF h(2) o(2) h(3) assms(4) o(3), of P st'] obtain fl where
    "mem_free P buf (st'\<lparr>ram := m'\<rparr>) = memcheck_free (allocators P) (ptr + 16) a fl (st'\<lparr>ram := m'\<rparr>)" using o(1) by blast
  then have "mem_free P buf (st'\<lparr>ram := m'\<rparr>) = memcheck_remove ptr failed s1"
    using s1(1,2) by (simp add: memcheck_free_def MEM_SEC_ZONE_def Let_def)
  then show ?thesis using s1(3,4) by (simp add: memcheck_remove_def Let_def)
qed

lemma first_some_SomeD: "first_some xs = Some x \<Longrightarrow> Some x \<in> set xs"
  by (induction xs rule: first_some.induct) auto

lemma first_some_None: "first_some xs = None \<longleftrightarrow> (\<forall>x \<in> set xs. x = None)"
  by (induction xs rule: first_some.induct) auto

lemma search_weaken:
  assumes "search_for_allocator P b sz ps fs tmp dma = Some a" and "fs \<in> {1, 0, - 1}"
  shows "a < 4 \<and> dma_matches dma (allocators P ! a) \<and> region_matches b sz (allocators P ! a)
    \<and> malloc_available P b (allocators P ! a) \<and> space_matches b sz (- 1) (allocators P ! a)"
proof -
  note D = find_index_SomeD [OF assms(1) [unfolded search_for_allocator_def]]
  have "space_matches b sz (- 1) (allocators P ! a)"
    using D(2) assms(2) by (auto simp: space_matches_def Let_def)
  then show ?thesis using D by (simp add: allocators_def)
qed

lemma minimum_free_space_nonneg: "A \<in> set (allocators P) \<Longrightarrow> 0 \<le> minimum_free_space A"
  by (auto simp: allocators_def)

text \<open>
  A request that does not fit the free space by more than the range of \<^verbatim>\<open>int\<close> does not fit the largest
  region either, so that the wrapped difference does no harm.
\<close>

lemma space_and_region:
  assumes "reports_ok P b" and "A \<in> set (allocators P)" and "0 \<le> sz" and "sz < 2 ^ 31"
  shows "region_matches b sz A \<longleftrightarrow> region_fits b sz A"
    and "region_fits b sz A \<Longrightarrow> headroom (free_space_of b A) sz = free_space_of b A - sz - 1024"
proof -
  have f: "0 \<le> free_space_of b A" "free_space_of b A < 2 ^ 31" and g: "\<And>f. get_max_region A = Some f \<Longrightarrow> 0 \<le> f b \<and> f b < 2 ^ 31"
    using assms(1,2) by (auto simp: reports_ok_def)
  have d: "sz \<le> c_div (free_space_of b A) 4 \<longleftrightarrow> 4 * sz \<le> free_space_of b A" using f(1) by (simp add: c_div_nonneg) linarith
  have s: "s32 (f b - 1024) = f b - 1024" if "get_max_region A = Some f" for f
    using g [OF that] by (intro s32_id) auto
  show "region_matches b sz A \<longleftrightarrow> region_fits b sz A"
    using s d by (auto simp: region_matches_def region_fits_def not_less split: option.split)
  assume "region_fits b sz A"
  then have "sz < 2 ^ 31 - 1024 \<or> 4 * sz \<le> free_space_of b A"
    using g by (auto simp: region_fits_def split: option.splits)
  then have "- (2 ^ 31) \<le> free_space_of b A - sz - 1024" "free_space_of b A - sz - 1024 < 2 ^ 31"
    using f assms(3,4) by auto
  then show "headroom (free_space_of b A) sz = free_space_of b A - sz - 1024" unfolding headroom_def by (rule s32_id)
qed

text \<open>
  C10: For a request of less than 2 GB, and pools that report sizes from 0 to 2 GB: the allocator that
  \<^verbatim>\<open>choose_allocator\<close> returns provides the kind of memory asked for, has a region that is 1 kB larger
  than the request (four times the request in total where it does not report regions), keeps more
  than a quarter of its reserve and 1 kB after the allocation, and does not depend on malloc
  and AllocateMemory while one of them has less than 16 kB. No allocator is returned only if each one that
  provides the kind of memory would violate its reserve (a quarter of it for requests below a 64th of the
  reserve), has no region of that size, or depends on exhausted pools.
\<close>

theorem choose_allocator_correct:
  assumes "reports_ok P b" and "0 \<le> sz" and "sz < 2 ^ 31"
  shows "case choose_allocator P b sz flags of
     Some a \<Rightarrow> a < length (allocators P)
       \<and> (let A = allocators P ! a in
           alloc_fun A flags \<noteq> None \<and> region_fits b sz A
         \<and> sz + 1024 + minimum_free_space A div 4 < free_space_of b A
         \<and> (depends_on_malloc A \<longrightarrow> 16384 \<le> GetFreeMemForMalloc P b \<and> 16384 \<le> GetMaxRegionForAllocateMemory P b))
   | None \<Rightarrow> (\<forall>A \<in> set (allocators P). alloc_fun A flags \<noteq> None \<longrightarrow>
         free_space_of b A \<le> sz + 1024 + (if sz < minimum_free_space A div 64 then minimum_free_space A div 4 else minimum_free_space A)
       \<or> \<not> region_fits b sz A
       \<or> depends_on_malloc A \<and> (GetFreeMemForMalloc P b < 16384 \<or> GetMaxRegionForAllocateMemory P b < 16384))"
proof (cases "choose_allocator P b sz flags")
  case None
  then have n: "search_for_allocator P b sz (- 1) (- 1) 0 (flags AND MEM_DMA \<noteq> 0) = None"
    by (simp add: choose_allocator_def Let_def first_some_None)
  have "\<not> (space_matches b sz (- 1) A \<and> region_fits b sz A \<and> malloc_available P b A)"
    if "A \<in> set (allocators P)" "alloc_fun A flags \<noteq> None" for A
    using n that space_and_region(1) [OF assms(1) that(1) assms(2,3)]
    by (auto simp: search_for_allocator_def find_index_None dma_matches_def tmp_matches_def size_matches_def alloc_fun_def Let_def
        split: if_splits)
  then show ?thesis
    using None minimum_free_space_nonneg space_and_region(2) [OF assms(1) _ assms(2,3)]
    by (fastforce simp: space_matches_def malloc_available_def c_div_nonneg Let_def)
next
  case (Some a)
  then obtain ps fs tmp where s: "search_for_allocator P b sz ps fs tmp (flags AND MEM_DMA \<noteq> 0) = Some a" "fs \<in> {1, 0, - 1}"
    using first_some_SomeD [OF Some [unfolded choose_allocator_def Let_def]] by (auto split: if_splits)
  note w = search_weaken [OF s]
  have len: "length (allocators P) = 4" by (simp add: allocators_def)
  then have A: "allocators P ! a \<in> set (allocators P)" using w by simp
  note rf = space_and_region [OF assms(1) A assms(2,3)]
  have "sz + 1024 + minimum_free_space (allocators P ! a) div 4 < free_space_of b (allocators P ! a)"
    using w rf minimum_free_space_nonneg [OF A] by (auto simp: space_matches_def c_div_nonneg Let_def)
  then show ?thesis
    using Some w len rf(1) by (auto simp: dma_matches_def alloc_fun_def malloc_available_def Let_def)
qed

text \<open>
  The size passed to the backend is computed modulo 2 to the 32. A request of 16 bytes less
  than 4 GB is taken for the size -16 when the allocator is chosen, so with 1 MB free in the
  malloc pool that pool is asked for a block of only 16 bytes, smaller than the guard zones that
  are then written around it.
\<close>

theorem mem_malloc_size_wraps:
  assumes "GetFreeMemForMalloc P b = 1024 * 1024"
  shows "choose_allocator P b (sint (- 16 :: u32)) 0 = Some 0 \<and> block_size (- 16) = 16"
proof -
  have none: "search_for_allocator P b (- 16) ps fs tmp dma = None" if "ps \<noteq> - 1" for ps fs tmp dma
    using that by (auto simp: search_for_allocator_def find_index_None size_matches_def allocators_def Let_def)
  have last: "search_for_allocator P b (- 16) (- 1) (- 1) 0 False = Some 0"
    using assms by (simp add: search_for_allocator_def allocators_def dma_matches_def tmp_matches_def size_matches_def
        space_matches_def headroom_def free_space_of_def region_matches_def malloc_available_def c_int_simps Let_def)
  show ?thesis
    using none last by (simp add: choose_allocator_def Let_def block_size_def MEM_SEC_ZONE_def)
qed

subsection \<open>Witnesses\<close>

lemma sample_pools_in_ram: "pools_in_ram sample_pools"
  by (auto simp: pools_in_ram_def sample_pools_def allocators_def alloc_fun_def ram_block_def Let_def split: if_splits)

lemma sample_choice: "choose_allocator sample_pools 0 0x100 0 = Some 0"
  by (simp add: choose_allocator_def search_for_allocator_def allocators_def dma_matches_def tmp_matches_def size_matches_def
      space_matches_def headroom_def free_space_of_def region_matches_def malloc_available_def c_int_simps Let_def sample_pools_def
      GetFreeMemForMalloc_def)

lemma sample_malloc:
  "\<exists>st'. mem_malloc sample_pools 0x100 0 ''a.c'' 1 ''t'' (mem_init (\<lambda>_. 0) 0) = Inr (0x100010, st') \<and> pool_state st' = 1"
proof -
  have "p_malloc sample_pools (block_size 0x100) (\<lambda>_. 0, 0) = (0x100000, \<lambda>_. 0, 1)"
    by (simp add: sample_pools_def Let_def block_size_def MEM_SEC_ZONE_def)
  then obtain st' where "memcheck_malloc (allocators sample_pools) 0x100 (file_name_without_path ''a.c'') 1 ''t'' 0 0 (mem_init (\<lambda>_. 0) 0)
      = Inr (0x100010, st')" "pool_state st' = 1"
    by (simp add: memcheck_malloc_def mem_init_def allocators_def Let_def MEM_SEC_ZONE_def memcheck_add_def split: prod.split option.split)
  then show ?thesis using sample_choice by (simp add: mem_malloc_def mem_init_def Let_def CACHEABLE_def)
qed

lemma tracker_ok_init: "tracker_ok (mem_init m b)"
  by (simp add: tracker_ok_def mem_init_def MEMCHECK_ENTRIES_def)

theorem mem_free_undoes_malloc_witness:
  "\<exists>st'. mem_malloc sample_pools 0x100 0 ''a.c'' 1 ''t'' (mem_init (\<lambda>_. 0) 0) = Inr (0x100010, st')
    \<and> accounts (mem_free sample_pools 0x100010 st') = accounts (mem_init (\<lambda>_. 0) (0 :: int))"
proof -
  obtain st' where st': "mem_malloc sample_pools 0x100 0 ''a.c'' 1 ''t'' (mem_init (\<lambda>_. 0) 0) = Inr (0x100010, st')"
    using sample_malloc by blast
  from mem_free_undoes_malloc [OF sample_pools_in_ram tracker_ok_init _ _ st' _ user_writes_refl]
  show ?thesis using st' by simp
qed

theorem choose_allocator_correct_witness:
  "choose_allocator sample_pools 0 0x100 0 = Some 0 \<and> 0x100 + 1024 + 64 * 1024 < free_space_of 0 (allocators sample_pools ! 0)"
proof -
  have "reports_ok sample_pools 0"
    by (simp add: reports_ok_def allocators_def free_space_of_def sample_pools_def GetFreeMemForMalloc_def
        GetFreeMemForAllocateMemory_def GetMaxRegionForAllocateMemory_def Let_def)
  from choose_allocator_correct [OF this, of "0x100" 0] show ?thesis
    using sample_choice by (simp add: Let_def allocators_def)
qed

theorem mem_free_keeps_damaged_block_witness:
  "\<exists>st'. mem_malloc sample_pools 0x100 0 ''a.c'' 1 ''t'' (mem_init (\<lambda>_. 0) 0) = Inr (0x100010, st')
    \<and> last_error (mem_free sample_pools 0x100010 (st'\<lparr>ram := (ram st')(0x100110 := 0)\<rparr>)) \<noteq> 0"
proof -
  obtain st' where st': "mem_malloc sample_pools 0x100 0 ''a.c'' 1 ''t'' (mem_init (\<lambda>_. 0) 0) = Inr (0x100010, st')"
    using sample_malloc by blast
  have c: "CACHEABLE (0x100010 - 16) = 0x100000" by (simp add: CACHEABLE_def)
  have "\<forall>d < 12. ((ram st')(0x100110 := 0)) (CACHEABLE (0x100010 - 16) + of_nat d) = ram st' (CACHEABLE (0x100010 - 16) + of_nat d)"
    unfolding c
  proof (intro allI impI)
    fix d :: nat assume "d < 12"
    then have "(0x100000 :: u32) + of_nat d \<noteq> 0x100000 + of_nat 0x110" using off_eq [of d "0x110" "0x100000"] by auto
    then show "((ram st')(0x100110 := 0)) (0x100000 + of_nat d) = ram st' (0x100000 + of_nat d)" by simp
  qed
  moreover have "((ram st')(0x100110 := 0)) (CACHEABLE (0x100010 - 16) + of_nat 0x110) \<noteq> GUARD"
    unfolding c by (simp add: GUARD_def)
  ultimately show ?thesis
    using mem_free_keeps_damaged_block [where m' = "(ram st')(0x100110 := 0)" and d = "0x110",
        OF sample_pools_in_ram tracker_ok_init _ _ st'] st'
    by simp
qed

theorem mem_malloc_size_wraps_witness:
  "choose_allocator sample_pools 0 (sint (- 16 :: u32)) 0 = Some 0"
  using mem_malloc_size_wraps [of sample_pools 0] by (simp add: sample_pools_def GetFreeMemForMalloc_def Let_def)

end
