(* ===== verification/ML_Aligned.thy ===== *)
theory ML_Aligned
  imports ML_Prelude "HOL-Library.Multiset"
begin

text \<open>
  The aligned allocations of \<^verbatim>\<open>src/src/mem.c\<close>: \<^verbatim>\<open>malloc_aligned\<close> and
  \<^verbatim>\<open>free_aligned\<close> with their table of 16 blocks. DryOS's \<^verbatim>\<open>_malloc\<close> and
  \<^verbatim>\<open>_free\<close> are arguments; they act on a heap of their own.
\<close>

section \<open>Data and operations\<close>

record aligned_alloc =
  start :: u32
  len :: u32

record aligned_state =
  aligned_allocs :: "aligned_alloc list"
  alloc_count :: u32

definition MAX_ALIGNED_ALLOCS :: nat where
  "MAX_ALIGNED_ALLOCS = 16"

definition alloc_none :: aligned_alloc where
  "alloc_none = \<lparr>start = 0, len = 0\<rparr>"

definition aligned_init :: aligned_state where
  "aligned_init = \<lparr>aligned_allocs = replicate MAX_ALIGNED_ALLOCS alloc_none, alloc_count = 0\<rparr>"

datatype aligned_error = Table_overrun | Divide_by_zero

text \<open>The slot search; without a free slot the index is 16, one past the table.\<close>

definition find_aligned_slot :: "aligned_state \<Rightarrow> nat" where
  "find_aligned_slot st =
     (if start (aligned_allocs st ! unat (alloc_count st)) = 0 then unat (alloc_count st)
      else case find_index (\<lambda>e. start e = 0) (aligned_allocs st) of Some i \<Rightarrow> i | None \<Rightarrow> MAX_ALIGNED_ALLOCS)"

definition align_up :: "u32 \<Rightarrow> u32 \<Rightarrow> u32" where
  "align_up p alignment = (if p mod alignment \<noteq> 0 then p + (alignment - p mod alignment) else p)"

definition malloc_aligned ::
  "(u32 \<Rightarrow> 'h \<Rightarrow> u32 \<times> 'h) \<Rightarrow> u32 \<Rightarrow> u32 \<Rightarrow> aligned_state \<times> 'h \<Rightarrow> aligned_error + u32 \<times> aligned_state \<times> 'h" where
  "malloc_aligned malloc n alignment s =
     (let (st, h) = s in
      if unat (alloc_count st) \<ge> MAX_ALIGNED_ALLOCS then Inr (0, st, h)
      else
        (let (raw_ptr, h) = malloc (n + alignment) h
         in if raw_ptr = 0 then Inr (0, st, h)
            else let i = find_aligned_slot st in
                 if i \<ge> MAX_ALIGNED_ALLOCS then Inl Table_overrun
                 else if alignment = 0 then Inl Divide_by_zero
                 else Inr (align_up raw_ptr alignment,
                           st\<lparr>aligned_allocs := (aligned_allocs st)[i := \<lparr>start = raw_ptr, len = n\<rparr>],
                              alloc_count := alloc_count st + 1\<rparr>, h)))"

definition holds_ptr :: "u32 \<Rightarrow> aligned_alloc \<Rightarrow> bool" where
  "holds_ptr ptr e \<longleftrightarrow> start e \<le> ptr \<and> start e + len e > ptr"

definition free_aligned :: "(u32 \<Rightarrow> 'h \<Rightarrow> 'h) \<Rightarrow> u32 \<Rightarrow> aligned_state \<times> 'h \<Rightarrow> aligned_state \<times> 'h" where
  "free_aligned free ptr s =
     (let (st, h) = s in
      case find_index (holds_ptr ptr) (aligned_allocs st) of
        None \<Rightarrow> (st, h)
      | Some i \<Rightarrow> (st\<lparr>aligned_allocs := (aligned_allocs st)[i := alloc_none], alloc_count := alloc_count st - 1\<rparr>,
                  free (start (aligned_allocs st ! i)) h))"

section \<open>Specification vocabulary\<close>

text \<open>The count is the number of used slots; used slots hold disjoint blocks that do not wrap.\<close>

definition used :: "aligned_state \<Rightarrow> aligned_alloc list" where
  "used st = filter (\<lambda>e. start e \<noteq> 0) (aligned_allocs st)"

definition aligned_ok :: "aligned_state \<Rightarrow> bool" where
  "aligned_ok st \<longleftrightarrow> length (aligned_allocs st) = MAX_ALIGNED_ALLOCS \<and> unat (alloc_count st) = length (used st)
     \<and> (\<forall>e \<in> set (aligned_allocs st). start e = 0 \<longrightarrow> len e = 0)"

text \<open>
  What the code relies on in \<^verbatim>\<open>_malloc\<close>: a pointer other than null starts a block of the requested
  size that ends below the top of memory. \<open>owns h p a\<close> says that in heap \<open>h\<close> the byte at \<open>a\<close> belongs to the block
  that was handed out at \<open>p\<close>.
\<close>

definition malloc_gives :: "(u32 \<Rightarrow> 'h \<Rightarrow> u32 \<times> 'h) \<Rightarrow> ('h \<Rightarrow> u32 \<Rightarrow> u32 \<Rightarrow> bool) \<Rightarrow> bool" where
  "malloc_gives malloc owns \<longleftrightarrow> (\<forall>n h p h'. malloc n h = (p, h') \<and> p \<noteq> 0 \<longrightarrow>
     unat p + unat n < 2 ^ 32 \<and> (\<forall>d < unat n. owns h' p (p + of_nat d)))"

text \<open>A heap that hands out one block of up to 4 kB, at the address of the comment; its state is the size of the block.\<close>

definition one_block_malloc :: "u32 \<Rightarrow> u32 \<Rightarrow> u32 \<times> u32" where
  "one_block_malloc n h = (if h = 0 \<and> n \<le> 0x1000 then (0x100104, n) else (0, h))"

definition one_block_owns :: "u32 \<Rightarrow> u32 \<Rightarrow> u32 \<Rightarrow> bool" where
  "one_block_owns h p a \<longleftrightarrow> p = 0x100104 \<and> a - p < h"

section \<open>Facts\<close>

lemma used_le: "aligned_ok st \<Longrightarrow> length (used st) \<le> MAX_ALIGNED_ALLOCS"
  by (metis aligned_ok_def length_filter_le used_def)

lemma slot_free:
  assumes "aligned_ok st" and "unat (alloc_count st) < MAX_ALIGNED_ALLOCS"
  shows "find_aligned_slot st < MAX_ALIGNED_ALLOCS \<and> start (aligned_allocs st ! find_aligned_slot st) = 0"
proof -
  have "\<exists>e \<in> set (aligned_allocs st). start e = 0"
  proof (rule ccontr)
    assume "\<not> ?thesis"
    then have "used st = aligned_allocs st" by (simp add: used_def filter_id_conv)
    then show False using assms by (simp add: aligned_ok_def)
  qed
  then obtain i where "find_index (\<lambda>e. start e = 0) (aligned_allocs st) = Some i"
    using find_index_None [of "\<lambda>e. start e = 0" "aligned_allocs st"] by (cases "find_index (\<lambda>e. start e = 0) (aligned_allocs st)") auto
  then show ?thesis
    using find_index_SomeD [of "\<lambda>e. start e = 0" "aligned_allocs st" i] assms
    by (simp add: find_aligned_slot_def aligned_ok_def)
qed

lemma mset_filter_update:
  "i < length xs \<Longrightarrow> mset (filter P (xs[i := x])) + (if P (xs ! i) then {#xs ! i#} else {#})
    = mset (filter P xs) + (if P x then {#x#} else {#})"
proof (induction xs arbitrary: i)
  case (Cons y ys)
  show ?case
  proof (cases i)
    case (Suc k)
    then show ?thesis using Cons.IH [of k] Cons.prems by (auto split: if_splits)
  qed auto
qed simp

lemma align_up_props:
  assumes "alignment \<noteq> 0" and "unat p + unat alignment < 2 ^ 32"
  shows "unat p \<le> unat (align_up p alignment)" "unat (align_up p alignment) < unat p + unat alignment"
    "unat (align_up p alignment) mod unat alignment = 0"
proof -
  let ?a = "unat alignment" and ?r = "unat p mod unat alignment"
  have pos: "0 < ?a" using assms(1) by (simp add: unat_gt_0)
  have r: "?r < ?a" using pos by simp
  have u: "unat (align_up p alignment) = (if ?r = 0 then unat p else unat p + (?a - ?r))"
  proof (cases "?r = 0")
    case True
    then have "p mod alignment = 0" by (metis unat_0 unat_mod word_unat_eq_iff)
    then show ?thesis using True by (simp add: align_up_def)
  next
    case False
    then have nz: "p mod alignment \<noteq> 0" by (metis unat_0 unat_mod)
    have "unat (alignment - p mod alignment) = ?a - ?r"
      using r by (subst unat_sub) (simp_all add: word_le_nat_alt unat_mod)
    then have "unat (p + (alignment - p mod alignment)) = unat p + (?a - ?r)"
      using assms(2) r by (subst unat_add_lem [THEN iffD1]) simp_all
    then show ?thesis using nz False by (simp add: align_up_def)
  qed
  show "unat p \<le> unat (align_up p alignment)" using u by simp
  show "unat (align_up p alignment) < unat p + unat alignment" using u r pos by auto
  show "unat (align_up p alignment) mod unat alignment = 0"
  proof (cases "?r = 0")
    case False
    have "unat p + (?a - ?r) = (unat p div ?a + 1) * ?a"
    proof -
      have "unat p = unat p div ?a * ?a + ?r" by (simp add: div_mult_mod_eq)
      then have "unat p + (?a - ?r) = unat p div ?a * ?a + ?a" using r by linarith
      then show ?thesis by simp
    qed
    then show ?thesis using u False by simp
  qed (simp add: u)
qed

section \<open>Properties\<close>

text \<open>
  C12: Under the table's invariant \<^verbatim>\<open>malloc_aligned\<close> never writes outside its table. When it
  succeeds, the pointer is a multiple of the alignment, every one of the \<open>n\<close> bytes behind it belongs to the
  block that \<^verbatim>\<open>_malloc\<close> handed out, the table gains an entry with the start of that block, and the
  invariant holds. It fails exactly when the table is full or \<^verbatim>\<open>_malloc\<close> fails. The sum of size
  and alignment must not wrap.
\<close>

theorem malloc_aligned_correct:
  assumes "malloc_gives malloc owns" and "aligned_ok st" and "alignment \<noteq> 0" and "unat n + unat alignment < 2 ^ 32"
  shows "\<exists>ptr st' h'. malloc_aligned malloc n alignment (st, h) = Inr (ptr, st', h') \<and> aligned_ok st'
    \<and> (if unat (alloc_count st) \<ge> MAX_ALIGNED_ALLOCS then ptr = 0 \<and> st' = st \<and> h' = h
       else if fst (malloc (n + alignment) h) = 0 then ptr = 0 \<and> st' = st
       else ptr \<noteq> 0 \<and> unat ptr mod unat alignment = 0
         \<and> (let raw_ptr = fst (malloc (n + alignment) h)
            in mset (used st') = mset (used st) + {#\<lparr>start = raw_ptr, len = n\<rparr>#}
              \<and> (\<forall>d < unat n. owns h' raw_ptr (ptr + of_nat d))))"
proof (cases "unat (alloc_count st) \<ge> MAX_ALIGNED_ALLOCS \<or> fst (malloc (n + alignment) h) = 0")
  case True
  then show ?thesis using assms(2) by (cases "malloc (n + alignment) h") (auto simp: malloc_aligned_def)
next
  case False
  obtain p h' where m: "malloc (n + alignment) h = (p, h')" by fastforce
  let ?i = "find_aligned_slot st" and ?e = "\<lparr>start = p, len = n\<rparr>"
  let ?st = "st\<lparr>aligned_allocs := (aligned_allocs st)[?i := ?e], alloc_count := alloc_count st + 1\<rparr>"
  have p: "p \<noteq> 0" using False m by simp
  have sum: "unat (n + alignment) = unat n + unat alignment" using assms(4) by (intro unat_add_lem [THEN iffD1]) simp
  have own: "unat p + (unat n + unat alignment) < 2 ^ 32" "\<forall>d < unat n + unat alignment. owns h' p (p + of_nat d)"
    using assms(1) m p unfolding malloc_gives_def sum [symmetric] by blast+
  have i: "?i < MAX_ALIGNED_ALLOCS" "start (aligned_allocs st ! ?i) = 0" using slot_free [OF assms(2)] False by auto
  have eq: "malloc_aligned malloc n alignment (st, h) = Inr (align_up p alignment, ?st, h')"
    using False i(1) assms(3) m p by (simp add: malloc_aligned_def Let_def)
  have lt: "unat p + unat alignment < 2 ^ 32" using own(1) by simp
  note al = align_up_props [OF assms(3) lt]
  have nz: "align_up p alignment \<noteq> 0" using al(1) p by (auto simp: unat_eq_0)
  have in_block: "owns h' p (align_up p alignment + of_nat d)" if "d < unat n" for d
  proof -
    let ?k = "unat (align_up p alignment) - unat p"
    have "?k + d < unat n + unat alignment" using al(1,2) that by linarith
    moreover have "of_nat (unat p + ?k) = align_up p alignment" using al(1) by simp
    then have "align_up p alignment = p + of_nat ?k" by simp
    then have "align_up p alignment + of_nat d = p + of_nat (?k + d)" by simp
    ultimately show ?thesis using own(2) by metis
  qed
  have used: "mset (used ?st) = mset (used st) + {#?e#}"
    using mset_filter_update [of ?i "aligned_allocs st" "\<lambda>e. start e \<noteq> 0" ?e] i assms(2) p
    by (simp add: used_def aligned_ok_def)
  then have cnt: "length (used ?st) = length (used st) + 1" by (metis size_mset size_add_mset add_mset_add_single Suc_eq_plus1)
  have "unat (alloc_count st + 1) = unat (alloc_count st) + 1"
    using False by (simp add: unat_word_ariths MAX_ALIGNED_ALLOCS_def)
  then have "aligned_ok ?st"
    using assms(2) cnt p by (auto simp: aligned_ok_def dest!: set_update_subset_insert [THEN subsetD])
  then show ?thesis using False m eq al(3) nz used in_block by auto
qed

lemma alloc_count_init: "alloc_count aligned_init = 0"
  by (simp add: aligned_init_def)

text \<open>
  \<^verbatim>\<open>free_aligned\<close> looks for the pointer in the first \<open>n\<close> bytes of a raw block of
  \<open>n + alignment\<close> bytes. If aligning moved the pointer by \<open>n\<close> bytes or more, it finds nothing: the
  block of a fresh table is never given back and its slot stays occupied.
\<close>

theorem free_aligned_leaks:
  assumes "malloc (n + alignment) h = (raw_ptr, h')" and "raw_ptr \<noteq> 0" and "alignment \<noteq> 0"
    and "unat raw_ptr + unat n + unat alignment < 2 ^ 32"
    and "unat raw_ptr + unat n \<le> unat (align_up raw_ptr alignment)"
    and "malloc_aligned malloc n alignment (aligned_init, h) = Inr (ptr, st, h')"
  shows "free_aligned free ptr (st, h') = (st, h') \<and> length (used st) = 1"
proof -
  have slot: "find_aligned_slot aligned_init = 0"
    by (simp add: find_aligned_slot_def aligned_init_def MAX_ALIGNED_ALLOCS_def alloc_none_def)
  have "malloc_aligned malloc n alignment (aligned_init, h) = Inr (align_up raw_ptr alignment,
      aligned_init\<lparr>aligned_allocs := (aligned_allocs aligned_init)[0 := \<lparr>start = raw_ptr, len = n\<rparr>],
        alloc_count := alloc_count aligned_init + 1\<rparr>, h')"
    using assms(1-3) slot by (simp add: malloc_aligned_def MAX_ALIGNED_ALLOCS_def Let_def alloc_count_init)
  then have st: "ptr = align_up raw_ptr alignment"
      "st = \<lparr>aligned_allocs = \<lparr>start = raw_ptr, len = n\<rparr> # replicate 15 alloc_none, alloc_count = 1\<rparr>"
    using assms(6) by (simp_all add: aligned_init_def MAX_ALIGNED_ALLOCS_def numeral_eq_Suc)
  have "unat (raw_ptr + n) = unat raw_ptr + unat n"
    using assms(4) by (intro unat_add_lem [THEN iffD1]) simp
  then have "\<not> holds_ptr ptr \<lparr>start = raw_ptr, len = n\<rparr>"
    using assms(5) st(1) by (simp add: holds_ptr_def word_less_nat_alt)
  moreover have "\<not> holds_ptr ptr alloc_none" by (simp add: holds_ptr_def alloc_none_def)
  ultimately have "find_index (holds_ptr ptr) (aligned_allocs st) = None"
    using st(2) by (auto simp: find_index_None)
  moreover have "length (used st) = 1"
    using st(2) assms(2) by (simp add: used_def alloc_none_def)
  ultimately show ?thesis by (simp add: free_aligned_def)
qed

subsection \<open>Witnesses\<close>

lemma aligned_ok_init: "aligned_ok aligned_init"
  by (simp add: aligned_ok_def aligned_init_def used_def alloc_none_def)

lemma one_block_malloc_gives: "malloc_gives one_block_malloc one_block_owns"
proof -
  have "unat n \<le> 0x1000" if "n \<le> 0x1000" for n :: u32 using that by (simp add: word_le_nat_alt)
  then show ?thesis
    by (fastforce simp: malloc_gives_def one_block_malloc_def one_block_owns_def word_less_nat_alt unat_of_nat take_bit_nat_eq_self
        split: if_splits)
qed

theorem malloc_aligned_correct_witness:
  "\<exists>ptr st' h'. malloc_aligned one_block_malloc 0x80 0x100 (aligned_init, 0) = Inr (ptr, st', h') \<and> aligned_ok st'
    \<and> unat ptr mod 0x100 = 0 \<and> (\<forall>d < 0x80. one_block_owns h' 0x100104 (ptr + of_nat d))"
  using malloc_aligned_correct [OF one_block_malloc_gives aligned_ok_init, of "0x100" "0x80" 0]
  by (fastforce simp: alloc_count_init MAX_ALIGNED_ALLOCS_def one_block_malloc_def)

theorem free_aligned_leaks_witness:
  "\<exists>st. malloc_aligned one_block_malloc 0x80 0x100 (aligned_init, 0) = Inr (0x100200, st, 0x180)
    \<and> free_aligned (\<lambda>_ _. 0) 0x100200 (st, 0x180 :: u32) = (st, 0x180)"
proof -
  have al: "align_up 0x100104 0x100 = 0x100200" by (simp add: align_up_def)
  have m: "one_block_malloc (0x80 + 0x100) 0 = (0x100104, 0x180)" by (simp add: one_block_malloc_def)
  have "find_aligned_slot aligned_init = 0"
    by (simp add: find_aligned_slot_def aligned_init_def MAX_ALIGNED_ALLOCS_def alloc_none_def)
  then obtain st where st: "malloc_aligned one_block_malloc 0x80 0x100 (aligned_init, 0) = Inr (0x100200, st, 0x180)"
    using al m by (simp add: malloc_aligned_def MAX_ALIGNED_ALLOCS_def Let_def aligned_init_def)
  show ?thesis using free_aligned_leaks [OF m _ _ _ _ st] st al by auto
qed

end
