(* ===== verification/ML_Cache.thy ===== *)
theory ML_Cache
  imports ML_Prelude
begin

text \<open>
  Cache lockdown on DIGIC 4 and 5, \<^verbatim>\<open>src/src/cache_hacks.c\<close>. The CP15 test registers of
  the ARM946E-S give access to the tag and data RAM of each cache; segment 0, which lockdown
  reserves, has 64 lines of 8 words here. A tag word holds the address bits above the word offset and the valid bit
  4. A fetch or a load of a ROM address that hits a locked line returns the locked word, otherwise
  the word in memory. Interrupts are disabled during every operation.
\<close>

section \<open>Cache geometry\<close>

datatype cache_type = DCACHE | ICACHE

definition CACHE_SIZE_BITS :: nat where
  "CACHE_SIZE_BITS = 13"

definition CACHE_INDEX_BITS :: nat where
  "CACHE_INDEX_BITS = CACHE_SIZE_BITS - 7"

definition CACHE_INDEX_TAGOFFSET :: nat where
  "CACHE_INDEX_TAGOFFSET = 5"

definition CACHE_INDEX_BITMASK :: u32 where
  "CACHE_INDEX_BITMASK = push_bit CACHE_INDEX_BITS 1 - 1"

definition CACHE_INDEX_ADDRMASK :: u32 where
  "CACHE_INDEX_ADDRMASK = push_bit CACHE_INDEX_TAGOFFSET CACHE_INDEX_BITMASK"

definition CACHE_TAG_BITS :: nat where
  "CACHE_TAG_BITS = 27 - CACHE_INDEX_BITS"

definition CACHE_TAG_TAGOFFSET :: nat where
  "CACHE_TAG_TAGOFFSET = 5 + CACHE_INDEX_BITS"

definition CACHE_TAG_BITMASK :: u32 where
  "CACHE_TAG_BITMASK = push_bit CACHE_TAG_BITS 1 - 1"

definition CACHE_TAG_ADDRMASK :: u32 where
  "CACHE_TAG_ADDRMASK = push_bit CACHE_TAG_TAGOFFSET CACHE_TAG_BITMASK"

definition CACHE_WORD_BITS :: nat where
  "CACHE_WORD_BITS = 3"

definition CACHE_WORD_TAGOFFSET :: nat where
  "CACHE_WORD_TAGOFFSET = 2"

definition CACHE_WORD_BITMASK :: u32 where
  "CACHE_WORD_BITMASK = push_bit CACHE_WORD_BITS 1 - 1"

definition CACHE_WORD_ADDRMASK :: u32 where
  "CACHE_WORD_ADDRMASK = push_bit CACHE_WORD_TAGOFFSET CACHE_WORD_BITMASK"

definition cache_get_size :: "u32 \<Rightarrow> cache_type \<Rightarrow> u32" where
  "cache_get_size cache_type_register t =
     (let cache_info = (if t = DCACHE then drop_bit 12 cache_type_register else cache_type_register);
          sz = drop_bit 6 cache_info AND 0x0F;
          absent = drop_bit 2 cache_info AND 0x01
      in if sz < 3 \<or> absent \<noteq> 0 then 0 else sz + 9)"

section \<open>Processor state\<close>

text \<open>
  The tag RAM is indexed by the line, the data RAM by the line and the word, both of segment 0 as
  the index register selects them. \<open>main\<close> is RAM and ROM.
\<close>

record cache_ram =
  tag :: "u32 \<Rightarrow> u32"
  data :: "u32 \<Rightarrow> u32"

record cpu =
  main :: memory
  icache :: cache_ram
  dcache :: cache_ram
  lockdown :: bool

definition cache_of :: "cache_type \<Rightarrow> cpu \<Rightarrow> cache_ram" where
  "cache_of t c = (case t of ICACHE \<Rightarrow> icache c | DCACHE \<Rightarrow> dcache c)"

definition set_cache :: "cache_type \<Rightarrow> cache_ram \<Rightarrow> cpu \<Rightarrow> cpu" where
  "set_cache t r c = (case t of ICACHE \<Rightarrow> c\<lparr>icache := r\<rparr> | DCACHE \<Rightarrow> c\<lparr>dcache := r\<rparr>)"

text \<open>
  The physical address of a pointer: below 2 GB the uncacheable alias is dropped.
\<close>

definition phys :: "u32 \<Rightarrow> u32" where
  "phys a = (if a < 0x80000000 then CACHEABLE a else a)"

definition tag_index_mask :: u32 where
  "tag_index_mask = CACHE_TAG_ADDRMASK OR CACHE_INDEX_ADDRMASK"

definition seg_index_word :: "u32 \<Rightarrow> u32" where
  "seg_index_word a = a AND (CACHE_INDEX_ADDRMASK OR CACHE_WORD_ADDRMASK)"

definition line_index :: "u32 \<Rightarrow> u32" where
  "line_index a = a AND CACHE_INDEX_ADDRMASK"

definition hits :: "cache_ram \<Rightarrow> u32 \<Rightarrow> bool" where
  "hits r a \<longleftrightarrow> tag r (line_index a) AND 0x10 \<noteq> 0 \<and> tag r (line_index a) AND tag_index_mask = a AND tag_index_mask"

text \<open>
  \<open>load_word\<close> loads and \<open>fetch32\<close> fetches an aligned word. \<open>load32\<close> is the load
  instruction of ARMv5, which ignores the low two address bits and rotates the word by them;
  \<open>load8\<close> and \<open>load16\<close> are the narrow loads, the latter at even addresses.
\<close>

definition load_word :: "cpu \<Rightarrow> u32 \<Rightarrow> u32" where
  "load_word c a = (if IS_ROM_PTR a \<and> hits (dcache c) a then data (dcache c) (seg_index_word a) else rd32 (main c) (phys a))"

definition fetch32 :: "cpu \<Rightarrow> u32 \<Rightarrow> u32" where
  "fetch32 c a = (if IS_ROM_PTR a \<and> hits (icache c) a then data (icache c) (seg_index_word a) else rd32 (main c) (phys a))"

definition load32 :: "cpu \<Rightarrow> u32 \<Rightarrow> u32" where
  "load32 c a = word_rotr (8 * unat (a AND 3)) (load_word c (a AND NOT 3))"

definition load8 :: "cpu \<Rightarrow> u32 \<Rightarrow> u8" where
  "load8 c a =
     (if IS_ROM_PTR a \<and> hits (dcache c) a
      then ucast (drop_bit (8 * unat (a AND 3)) (data (dcache c) (seg_index_word a)))
      else main c (phys a))"

definition load16 :: "cpu \<Rightarrow> u32 \<Rightarrow> u16" where
  "load16 c a = ucast (load8 c a) OR push_bit 8 (ucast (load8 c (a + 1)))"

section \<open>Operations\<close>

definition cache_patch_single_word :: "u32 \<Rightarrow> u32 \<Rightarrow> cache_type \<Rightarrow> cpu \<Rightarrow> cpu" where
  "cache_patch_single_word address d t c =
     (let cache_seg_index_word = address AND (CACHE_INDEX_ADDRMASK OR CACHE_WORD_ADDRMASK);
          cache_tag_index = (address AND (CACHE_TAG_ADDRMASK OR CACHE_INDEX_ADDRMASK)) OR 0x10;
          r = cache_of t c
      in set_cache t (r\<lparr>tag := (tag r)(line_index cache_seg_index_word := cache_tag_index),
                        data := (data r)(cache_seg_index_word := d)\<rparr>) c)"

definition cache_fetch_line :: "u32 \<Rightarrow> cache_type \<Rightarrow> cpu \<Rightarrow> cpu" where
  "cache_fetch_line address t c =
     (let base = address AND NOT 0x1F;
          temp_cacheline = map (\<lambda>pos. load_word c (base + of_nat pos * 4)) [0..<8]
      in fold (\<lambda>pos. cache_patch_single_word (base + of_nat pos * 4) (temp_cacheline ! pos) t) [0..<8] c)"

definition cache_get_content :: "u32 \<Rightarrow> u32 \<Rightarrow> cache_type \<Rightarrow> cpu \<Rightarrow> u32 \<times> u32" where
  "cache_get_content index word t c =
     (let cache_seg_index_word =
            push_bit CACHE_INDEX_TAGOFFSET (index AND CACHE_INDEX_BITMASK)
            OR push_bit CACHE_WORD_TAGOFFSET (word AND CACHE_WORD_BITMASK)
      in (tag (cache_of t c) (line_index cache_seg_index_word), data (cache_of t c) cache_seg_index_word))"

text \<open>The returned code with the value stored through \<open>current_value\<close>.\<close>

definition cache_is_patchable :: "u32 \<Rightarrow> cache_type \<Rightarrow> cpu \<Rightarrow> u32 \<times> u32" where
  "cache_is_patchable address t c =
     (let (stored_tag_index, stored_data) =
            cache_get_content (drop_bit CACHE_INDEX_TAGOFFSET (address AND CACHE_INDEX_ADDRMASK))
              (drop_bit CACHE_WORD_TAGOFFSET (address AND CACHE_WORD_ADDRMASK)) t c
      in if stored_tag_index AND 0x10 = 0 then (1, 0xFFFFFFFF)
         else if stored_tag_index AND tag_index_mask = address AND tag_index_mask
         then (if stored_data = load32 c address then 1 else 2, stored_data)
         else (0, stored_data))"

definition cache_get_cached :: "u32 \<Rightarrow> cache_type \<Rightarrow> cpu \<Rightarrow> bool" where
  "cache_get_cached address t c =
     (let cache_seg_index_word = address AND (CACHE_INDEX_ADDRMASK OR CACHE_WORD_ADDRMASK);
          stored_tag_index = tag (cache_of t c) (line_index cache_seg_index_word);
          tag_index_valid_mask = CACHE_TAG_ADDRMASK OR CACHE_INDEX_ADDRMASK OR 0x10;
          cache_tag_index = (address AND tag_index_valid_mask) OR 0x10
      in stored_tag_index AND tag_index_valid_mask = cache_tag_index)"

definition cache_fake :: "u32 \<Rightarrow> u32 \<Rightarrow> cache_type \<Rightarrow> cpu \<Rightarrow> cpu" where
  "cache_fake address d t c =
     (let c1 = (if cache_get_cached address t c then c else cache_fetch_line address t c)
      in cache_patch_single_word address d t c1)"

text \<open>
  The loops over all lines of segment 0 write to each tag the shifted line number, whose valid bit
  is clear. Cleaning and flushing the data cache writes nothing back here: only ROM lines are
  ever locked.
\<close>

definition invalidate_lines :: "cache_ram \<Rightarrow> cache_ram" where
  "invalidate_lines r =
     fold (\<lambda>index r. let i = push_bit 5 (of_nat index) in r\<lparr>tag := (tag r)(line_index i := i)\<rparr>)
       [0..<2 ^ CACHE_INDEX_BITS] r"

definition icache_unlock :: "cpu \<Rightarrow> cpu" where
  "icache_unlock c = c\<lparr>icache := invalidate_lines (icache c), lockdown := False\<rparr>"

definition dcache_unlock :: "cpu \<Rightarrow> cpu" where
  "dcache_unlock c = c\<lparr>dcache := invalidate_lines (dcache c)\<rparr>"

definition icache_lock :: "cpu \<Rightarrow> cpu" where
  "icache_lock c = c\<lparr>lockdown := True, icache := invalidate_lines (icache c)\<rparr>"

definition dcache_lock :: "cpu \<Rightarrow> cpu" where
  "dcache_lock c = c\<lparr>dcache := invalidate_lines (dcache c)\<rparr>"

definition cache_locked :: "cpu \<Rightarrow> bool" where
  "cache_locked c = lockdown c"

definition cache_lock :: "cpu \<Rightarrow> cpu" where
  "cache_lock c = dcache_lock (icache_lock c)"

definition cache_unlock :: "cpu \<Rightarrow> cpu" where
  "cache_unlock c = dcache_unlock (icache_unlock c)"

definition view :: "cache_type \<Rightarrow> cpu \<Rightarrow> u32 \<Rightarrow> u32" where
  "view t c a = (case t of ICACHE \<Rightarrow> fetch32 c a | DCACHE \<Rightarrow> load_word c a)"

definition rom_cpu :: cpu where
  "rom_cpu = \<lparr>main = (\<lambda>a. ucast (a AND 0xFF)), icache = \<lparr>tag = (\<lambda>_. 0), data = (\<lambda>_. 0)\<rparr>,
     dcache = \<lparr>tag = (\<lambda>_. 0), data = (\<lambda>_. 0)\<rparr>, lockdown = True\<rparr>"

lemmas geometry = CACHE_SIZE_BITS_def CACHE_INDEX_BITS_def CACHE_INDEX_TAGOFFSET_def CACHE_INDEX_BITMASK_def
  CACHE_INDEX_ADDRMASK_def CACHE_TAG_BITS_def CACHE_TAG_TAGOFFSET_def CACHE_TAG_BITMASK_def CACHE_TAG_ADDRMASK_def
  CACHE_WORD_BITS_def CACHE_WORD_TAGOFFSET_def CACHE_WORD_BITMASK_def CACHE_WORD_ADDRMASK_def tag_index_mask_def

lemma index_mask: "CACHE_INDEX_ADDRMASK = 0x7E0"
  by (simp add: geometry)

lemma word_mask: "CACHE_WORD_ADDRMASK = 0x1C"
  by (simp add: geometry)

lemma tag_mask: "tag_index_mask = 0xFFFFFFE0"
  by (simp add: geometry)

lemma tag_index_masks: "CACHE_TAG_ADDRMASK OR CACHE_INDEX_ADDRMASK = tag_index_mask"
  by (simp add: tag_index_mask_def)

lemmas geo_simps = index_mask word_mask tag_mask

lemma line_seg [simp]: "line_index (seg_index_word a) = line_index a"
  by (simp add: line_index_def seg_index_word_def geo_simps and.assoc)

lemma cache_of_set [simp]:
  "cache_of t (set_cache u r c) = (if t = u then r else cache_of t c)"
  by (cases t; cases u) (simp_all add: cache_of_def set_cache_def)

lemma main_set [simp]: "main (set_cache t r c) = main c" "lockdown (set_cache t r c) = lockdown c"
  by (cases t; simp add: set_cache_def)+

lemma patch_word_eq:
  "cache_patch_single_word a d t c =
     set_cache t ((cache_of t c)\<lparr>tag := (tag (cache_of t c))(line_index a := (a AND tag_index_mask) OR 0x10),
                     data := (data (cache_of t c))(seg_index_word a := d)\<rparr>) c"
  by (simp add: cache_patch_single_word_def Let_def tag_index_masks flip: seg_index_word_def)

lemma and_all_ones: "(a :: u32) AND 0xFFFFFFFF = a"
proof -
  have "(0xFFFFFFFF :: u32) = - 1" by simp
  then show ?thesis by (simp only: and.right_neutral)
qed

lemma same_word:
  assumes "seg_index_word a = seg_index_word b" and "a AND tag_index_mask = b AND tag_index_mask"
    and "a AND 3 = 0" and "b AND 3 = 0"
  shows "a = b"
proof -
  have s: "a AND 0x7FC = b AND 0x7FC" "a AND 0xFFFFFFE0 = b AND 0xFFFFFFE0"
    using assms(1,2) by (simp_all add: seg_index_word_def geo_simps)
  have "(a AND 0x7FC) OR (a AND 0xFFFFFFE0) OR (a AND 3) = a" for a :: u32
    by (simp add: and_all_ones flip: bit.conj_disj_distrib)
  then show "a = b" using s assms(3,4) by metis
qed

lemma push_drop_mask:
  "push_bit n (drop_bit n (a :: u32)) = a AND NOT (mask n)"
  by (rule bit_word_eqI) (auto simp: bit_simps)

lemma index_word_fields:
  "push_bit 5 (drop_bit 5 (a AND 0x7E0) AND 0x3F) OR push_bit 2 (drop_bit 2 (a AND 0x1C) AND 7) = (a :: u32) AND 0x7FC"
proof -
  have "drop_bit 5 (a AND 0x7E0) AND 0x3F = drop_bit 5 (a AND 0x7E0)"
    and "drop_bit 2 (a AND 0x1C) AND 7 = drop_bit 2 (a AND 0x1C)"
    by (simp_all add: and.assoc)
  moreover have "NOT (mask 5 :: u32) = 0xFFFFFFE0" "NOT (mask 2 :: u32) = 0xFFFFFFFC"
    by (simp_all add: mask_eq_exp_minus_1)
  ultimately show ?thesis
    by (simp add: push_drop_mask and.assoc flip: bit.conj_disj_distrib)
qed

lemma patchable_eq:
  "cache_is_patchable a t c =
     (if tag (cache_of t c) (line_index a) AND 0x10 = 0 then (1, 0xFFFFFFFF)
      else if hits (cache_of t c) a
      then (if data (cache_of t c) (seg_index_word a) = load32 c a then 1 else 2, data (cache_of t c) (seg_index_word a))
      else (0, data (cache_of t c) (seg_index_word a)))"
proof -
  have "cache_get_content (drop_bit CACHE_INDEX_TAGOFFSET (a AND CACHE_INDEX_ADDRMASK))
      (drop_bit CACHE_WORD_TAGOFFSET (a AND CACHE_WORD_ADDRMASK)) t c
      = (tag (cache_of t c) (line_index a), data (cache_of t c) (seg_index_word a))"
  proof -
    have m: "CACHE_INDEX_TAGOFFSET = 5" "CACHE_WORD_TAGOFFSET = 2" "CACHE_INDEX_BITMASK = 0x3F" "CACHE_WORD_BITMASK = 7"
      by (simp_all add: geometry)
    have "a AND 0x7FC = seg_index_word a" by (simp add: seg_index_word_def geo_simps)
    then show ?thesis
      by (simp only: cache_get_content_def Let_def m index_mask word_mask index_word_fields line_seg)
  qed
  then show ?thesis by (simp add: cache_is_patchable_def hits_def)
qed

section \<open>The fetched line\<close>

lemma line_word:
  assumes "base AND 0x1F = 0" and "k < 8"
  shows "(base + of_nat k * 4) AND tag_index_mask = base"
    and "line_index (base + of_nat k * 4) = line_index base"
    and "seg_index_word (base + of_nat k * 4) = line_index base OR of_nat k * 4"
proof -
  have k: "k \<in> {0, 1, 2, 3, 4, 5, 6, 7}" using assms(2) by auto
  then have m: "(of_nat k * 4 :: u32) AND 0x1F = of_nat k * 4" "(of_nat k * 4 :: u32) AND 0xFFFFFFE0 = 0"
    "(of_nat k * 4 :: u32) AND 0x7E0 = 0" "(of_nat k * 4 :: u32) AND 0x7FC = of_nat k * 4" by auto
  have "base AND of_nat k * 4 = (base AND 0x1F) AND of_nat k * 4"
    unfolding and.assoc by (metis m(1) and.commute)
  then have "base + of_nat k * 4 = base OR of_nat k * 4"
    using assms(1) by (simp add: disjunctive_add_eq_or)
  moreover have b: "base AND 0xFFFFFFE0 = base"
  proof -
    have "(base AND 0xFFFFFFE0) OR (base AND 0x1F) = base" by (simp add: and_all_ones flip: bit.conj_disj_distrib)
    then show ?thesis using assms(1) by simp
  qed
  moreover have "base AND 0x7FC = base AND 0x7E0"
    by (subst (1 2) b [symmetric]) (simp add: and.assoc)
  ultimately show "(base + of_nat k * 4) AND tag_index_mask = base"
    and "line_index (base + of_nat k * 4) = line_index base"
    and "seg_index_word (base + of_nat k * 4) = line_index base OR of_nat k * 4"
    by (simp_all add: geo_simps line_index_def seg_index_word_def bit.conj_disj_distrib2 m)
qed

lemma line_word_inj:
  assumes "base AND 0x1F = 0" and "j < 8" and "k < 8"
  shows "seg_index_word (base + of_nat j * 4) = seg_index_word (base + of_nat k * 4) \<longleftrightarrow> j = k"
proof
  assume s: "seg_index_word (base + of_nat j * 4) = seg_index_word (base + of_nat k * 4)"
  have "j \<in> {0, 1, 2, 3, 4, 5, 6, 7}" "k \<in> {0, 1, 2, 3, 4, 5, 6, 7}" using assms(2,3) by auto
  moreover have "(x AND 0x7E0) AND 0x1C = 0" for x :: u32 by (simp add: and.assoc)
  then have "(line_index base OR of_nat i * 4) AND 0x1C = of_nat i * 4 AND 0x1C" for i
    by (simp add: line_index_def geo_simps bit.conj_disj_distrib2)
  then have "(of_nat j * 4 :: u32) AND 0x1C = of_nat k * 4 AND 0x1C"
    using s unfolding line_word(3) [OF assms(1,2)] line_word(3) [OF assms(1,3)] by metis
  ultimately show "j = k" by auto
qed simp

lemma cache_of_patch [simp]:
  "cache_of u (cache_patch_single_word a d t c) =
     (if u = t then (cache_of t c)\<lparr>tag := (tag (cache_of t c))(line_index a := (a AND tag_index_mask) OR 0x10),
                     data := (data (cache_of t c))(seg_index_word a := d)\<rparr>
      else cache_of u c)"
  "main (cache_patch_single_word a d t c) = main c"
  "lockdown (cache_patch_single_word a d t c) = lockdown c"
  by (simp_all add: patch_word_eq)

lemma fetch_fold:
  fixes t c v base
  defines "F n \<equiv> fold (\<lambda>pos. cache_patch_single_word (base + of_nat pos * 4) (v pos) t) [0..<n] c"
  assumes base: "base AND 0x1F = 0"
  shows "n \<le> 8 \<Longrightarrow> tag (cache_of t (F n)) =
           (if n = 0 then tag (cache_of t c) else (tag (cache_of t c))(line_index base := base OR 0x10))"
    and "n \<le> 8 \<Longrightarrow> k < n \<Longrightarrow> data (cache_of t (F n)) (seg_index_word (base + of_nat k * 4)) = v k"
    and "n \<le> 8 \<Longrightarrow> line_index i \<noteq> line_index base \<Longrightarrow> data (cache_of t (F n)) i = data (cache_of t c) i"
    and "u \<noteq> t \<Longrightarrow> cache_of u (F n) = cache_of u c"
    and "main (F n) = main c" and "lockdown (F n) = lockdown c"
proof -
  have F: "F (Suc n) = cache_patch_single_word (base + of_nat n * 4) (v n) t (F n)" "F 0 = c" for n
    by (simp_all add: F_def)
  show "n \<le> 8 \<Longrightarrow> tag (cache_of t (F n)) =
           (if n = 0 then tag (cache_of t c) else (tag (cache_of t c))(line_index base := base OR 0x10))"
    by (induction n) (simp_all add: F line_word [OF base])
  show "n \<le> 8 \<Longrightarrow> k < n \<Longrightarrow> data (cache_of t (F n)) (seg_index_word (base + of_nat k * 4)) = v k"
    by (induction n) (auto simp: F line_word_inj [OF base] less_Suc_eq)
  show "n \<le> 8 \<Longrightarrow> line_index i \<noteq> line_index base \<Longrightarrow> data (cache_of t (F n)) i = data (cache_of t c) i"
  proof (induction n)
    case (Suc n)
    then have "line_index (seg_index_word (base + of_nat n * 4)) \<noteq> line_index i"
      using line_word(2) [OF base, of n] by simp
    then have "i \<noteq> seg_index_word (base + of_nat n * 4)" by blast
    then show ?case using Suc by (simp add: F)
  qed (simp add: F)
  show "u \<noteq> t \<Longrightarrow> cache_of u (F n) = cache_of u c" by (induction n) (simp_all add: F)
  show "main (F n) = main c" by (induction n) (simp_all add: F)
  show "lockdown (F n) = lockdown c" by (induction n) (simp_all add: F)
qed

section \<open>The view of the processor\<close>

lemma view_eq:
  "view t c a = (if IS_ROM_PTR a \<and> hits (cache_of t c) a then data (cache_of t c) (seg_index_word a) else rd32 (main c) (phys a))"
  by (cases t) (simp_all add: view_def fetch32_def load_word_def cache_of_def)

lemma load_word_eq_view: "load_word c = view DCACHE c"
  by (simp add: view_def fun_eq_iff)

lemma valid_bit: "((a AND tag_index_mask) OR 0x10) AND 0x10 \<noteq> 0" "((a AND tag_index_mask) OR 0x10) AND tag_index_mask = a AND tag_index_mask"
  by (simp_all add: geo_simps and.assoc bit.conj_disj_distrib2)

lemma hits_same_line:
  "tag r (line_index a) = (a AND tag_index_mask) OR 0x10 \<Longrightarrow> line_index b = line_index a \<Longrightarrow>
   hits r b \<longleftrightarrow> b AND tag_index_mask = a AND tag_index_mask"
  using valid_bit [of a] by (auto simp: hits_def)

lemma line_index_tag: "a AND tag_index_mask = b AND tag_index_mask \<Longrightarrow> line_index a = line_index b"
proof -
  have "(x AND 0xFFFFFFE0) AND 0x7E0 = x AND 0x7E0" for x :: u32 by (simp add: and.assoc)
  then show "a AND tag_index_mask = b AND tag_index_mask \<Longrightarrow> line_index a = line_index b"
    by (metis line_index_def tag_mask index_mask)
qed

lemma and_0x10: "s AND 0x10 = (if s AND 0x10 = 0 then 0 else (0x10 :: u32))"
proof -
  have "s AND 2 ^ n = (if bit s n then 2 ^ n else 0)" for n
    by (rule bit_word_eqI) (auto simp: bit_simps)
  from this [of 4] show ?thesis by simp
qed

lemma tag_match:
  "s AND 0xFFFFFFF0 = (a AND 0xFFFFFFF0) OR 0x10 \<longleftrightarrow> s AND 0x10 \<noteq> 0 \<and> s AND 0xFFFFFFE0 = a AND (0xFFFFFFE0 :: u32)"
proof
  assume e: "s AND 0xFFFFFFF0 = (a AND 0xFFFFFFF0) OR 0x10"
  have "s AND 0x10 = (s AND 0xFFFFFFF0) AND 0x10" "s AND 0xFFFFFFE0 = (s AND 0xFFFFFFF0) AND 0xFFFFFFE0"
    by (simp_all add: and.assoc)
  then show "s AND 0x10 \<noteq> 0 \<and> s AND 0xFFFFFFE0 = a AND 0xFFFFFFE0"
    unfolding e by (simp add: bit.conj_disj_distrib2 and.assoc)
next
  assume "s AND 0x10 \<noteq> 0 \<and> s AND 0xFFFFFFE0 = a AND 0xFFFFFFE0"
  moreover have "x AND 0xFFFFFFF0 = (x AND 0xFFFFFFE0) OR (x AND 0x10)" for x :: u32
    by (simp flip: bit.conj_disj_distrib)
  moreover have "(y OR (a AND 0x10)) OR 0x10 = y OR 0x10" for y
    by (subst and_0x10) (simp add: or.assoc)
  moreover have "s AND 0x10 = 0x10 \<or> s AND 0x10 = 0" using and_0x10 [of s] by argo
  ultimately show "s AND 0xFFFFFFF0 = (a AND 0xFFFFFFF0) OR 0x10" by metis
qed

lemma get_cached_eq: "cache_get_cached a t c \<longleftrightarrow> hits (cache_of t c) a"
proof -
  have "CACHE_TAG_ADDRMASK OR CACHE_INDEX_ADDRMASK OR 0x10 = 0xFFFFFFF0" by (simp add: geometry)
  then show ?thesis
    using tag_match [of "tag (cache_of t c) (line_index a)" a]
    unfolding cache_get_cached_def Let_def hits_def tag_mask
    by (simp flip: seg_index_word_def)
qed

lemma same_line_word:
  assumes "b AND tag_index_mask = a AND tag_index_mask" and "b AND 3 = 0"
  obtains k where "k < 8" and "b = (a AND tag_index_mask) + of_nat k * 4"
proof
  let ?k = "unat (drop_bit 2 (b AND 0x1C))"
  have "b AND 0x1C \<le> 0x1C" by (rule word_and_le1)
  then have "unat (b AND 0x1C) \<le> 28" by (simp add: word_le_nat_alt)
  then have "unat (b AND 0x1C) div 4 < 8" by linarith
  then show "?k < 8" by (simp add: drop_bit_eq_div unat_div_distrib)
  have "of_nat ?k * 4 = push_bit 2 (drop_bit 2 (b AND 0x1C))" by (simp add: push_bit_eq_mult)
  also have "\<dots> = b AND 0x1C" by (simp add: push_drop_mask mask_eq_exp_minus_1 and.assoc)
  finally have k: "of_nat ?k * 4 = b AND 0x1C" .
  have "(b AND 0xFFFFFFE0) OR (b AND 0x1C) OR (b AND 3) = b"
    by (simp add: and_all_ones flip: bit.conj_disj_distrib)
  moreover have "(b AND x) AND (b AND y) = b AND (x AND y)" for x y
    by (rule bit_word_eqI) (auto simp: bit_and_iff)
  then have "(b AND 0xFFFFFFE0) + (b AND 0x1C) = (b AND 0xFFFFFFE0) OR (b AND 0x1C)"
    by (intro disjunctive_add_eq_or) simp
  ultimately show "b = (a AND tag_index_mask) + of_nat ?k * 4"
    unfolding k using assms by (simp add: tag_mask)
qed

lemma line_base: "(a AND tag_index_mask) AND 0x1F = 0" "line_index (a AND tag_index_mask) = line_index a"
  "(a AND tag_index_mask) AND tag_index_mask = a AND tag_index_mask"
  by (simp_all add: tag_mask line_index_def index_mask and.assoc)

lemma fetch_line_eq:
  "cache_fetch_line a t c = fold (\<lambda>pos. cache_patch_single_word ((a AND tag_index_mask) + of_nat pos * 4)
     (load_word c ((a AND tag_index_mask) + of_nat pos * 4)) t) [0..<8] c"
proof -
  have "a AND NOT 0x1F = a AND tag_index_mask" 
  proof -
    have "(NOT 0x1F :: u32) = 0xFFFFFFE0" by simp
    then show ?thesis by (simp only: tag_mask)
  qed
  then show ?thesis unfolding cache_fetch_line_def Let_def by (intro fold_cong) simp_all
qed

lemma fetch_line_view:
  assumes "b AND 3 = 0" and "b AND tag_index_mask = a AND tag_index_mask"
  shows "hits (cache_of t (cache_fetch_line a t c)) b"
    and "data (cache_of t (cache_fetch_line a t c)) (seg_index_word b) = load_word c b"
proof -
  let ?base = "a AND tag_index_mask"
  obtain k where k: "k < 8" "b = ?base + of_nat k * 4" using assms(2,1) by (rule same_line_word)
  show "data (cache_of t (cache_fetch_line a t c)) (seg_index_word b) = load_word c b"
    unfolding fetch_line_eq k(2) by (rule fetch_fold(2) [OF line_base(1)]) (use k(1) in simp_all)
  have "tag (cache_of t (cache_fetch_line a t c)) (line_index a) = ?base OR 0x10"
    unfolding fetch_line_eq by (subst fetch_fold(1) [OF line_base(1)]) (simp_all add: line_base)
  then show "hits (cache_of t (cache_fetch_line a t c)) b"
    using hits_same_line [OF _ line_index_tag [OF assms(2)]] assms(2) by blast
qed

lemma fetch_line_other:
  assumes "line_index b \<noteq> line_index a"
  shows "hits (cache_of t (cache_fetch_line a t c)) b = hits (cache_of t c) b"
    and "data (cache_of t (cache_fetch_line a t c)) (seg_index_word b) = data (cache_of t c) (seg_index_word b)"
proof -
  let ?base = "a AND tag_index_mask"
  have "tag (cache_of t (cache_fetch_line a t c)) (line_index b) = tag (cache_of t c) (line_index b)"
    unfolding fetch_line_eq by (subst fetch_fold(1) [OF line_base(1)]) (use assms in \<open>simp_all add: line_base\<close>)
  then show "hits (cache_of t (cache_fetch_line a t c)) b = hits (cache_of t c) b" by (simp add: hits_def)
  show "data (cache_of t (cache_fetch_line a t c)) (seg_index_word b) = data (cache_of t c) (seg_index_word b)"
    unfolding fetch_line_eq by (rule fetch_fold(3) [OF line_base(1)]) (use assms in \<open>simp_all add: line_base\<close>)
qed

lemma fetch_line_frame:
  "u \<noteq> t \<Longrightarrow> cache_of u (cache_fetch_line a t c) = cache_of u c"
  "main (cache_fetch_line a t c) = main c" "lockdown (cache_fetch_line a t c) = lockdown c"
  unfolding fetch_line_eq by (rule fetch_fold(4-6) [OF line_base(1)]; assumption?)+

lemma patch_word_view:
  assumes "IS_ROM_PTR a" and "a AND 3 = 0" and "b AND 3 = 0" and "hits (cache_of t c) a"
  shows "view t (cache_patch_single_word a d t c) b = (if b = a then d else view t c b)"
proof -
  let ?r = "cache_of t (cache_patch_single_word a d t c)"
  have "hits ?r b = hits (cache_of t c) b"
  proof (cases "line_index b = line_index a")
    case True
    then have "hits ?r b \<longleftrightarrow> b AND tag_index_mask = a AND tag_index_mask"
      by (intro hits_same_line) simp_all
    then show ?thesis using assms(4) True by (auto simp: hits_def)
  qed (simp add: hits_def)
  moreover have "seg_index_word b \<noteq> seg_index_word a" if "b \<noteq> a" "hits (cache_of t c) b"
  proof
    assume s: "seg_index_word b = seg_index_word a"
    then have "line_index b = line_index a" by (metis line_seg)
    then have "b AND tag_index_mask = a AND tag_index_mask" using that(2) assms(4) by (simp add: hits_def)
    then show False using same_word [OF s _ assms(3,2)] that(1) by blast
  qed
  ultimately show ?thesis using assms(1,4) by (auto simp: view_eq)
qed

lemma fetch_line_view_all:
  assumes "fst (cache_is_patchable a t c) \<noteq> 0" and "b AND 3 = 0" and "\<not> hits (cache_of t c) a"
    and "t = ICACHE \<Longrightarrow> \<not> hits (dcache c) a"
  shows "view t (cache_fetch_line a t c) b = view t c b"
proof (cases "b AND tag_index_mask = a AND tag_index_mask")
  case True
  have h: "hits r b = hits r a" for r using True line_index_tag [OF True] by (simp add: hits_def)
  have "load_word c b = rd32 (main c) (phys b)"
    using assms(3,4) h by (cases t) (simp_all add: load_word_def cache_of_def)
  then show ?thesis
    using fetch_line_view [OF assms(2) True] assms(3) h by (simp add: view_eq fetch_line_frame)
next
  case ne: False
  show ?thesis
  proof (cases "line_index b = line_index a")
    case True
    have "tag (cache_of t c) (line_index a) AND 0x10 = 0"
      using assms(1,3) by (simp add: patchable_eq split: if_splits)
    then have "\<not> hits (cache_of t c) b" using True by (simp add: hits_def)
    moreover have "tag (cache_of t (cache_fetch_line a t c)) (line_index a) = (a AND tag_index_mask) OR 0x10"
      unfolding fetch_line_eq by (subst fetch_fold(1) [OF line_base(1)]) (simp_all add: line_base)
    then have "\<not> hits (cache_of t (cache_fetch_line a t c)) b" using ne hits_same_line [OF _ True] by blast
    ultimately show ?thesis by (simp add: view_eq fetch_line_frame)
  next
    case False
    then show ?thesis by (simp add: view_eq fetch_line_other fetch_line_frame)
  qed
qed

lemma cache_fake_view:
  assumes "IS_ROM_PTR a" and "a AND 3 = 0" and "b AND 3 = 0" and "fst (cache_is_patchable a t c) \<noteq> 0"
    and "t = ICACHE \<Longrightarrow> \<not> hits (icache c) a \<Longrightarrow> \<not> hits (dcache c) a"
  shows "view t (cache_fake a d t c) b = (if b = a then d else view t c b)"
proof (cases "hits (cache_of t c) a")
  case True
  then show ?thesis using patch_word_view [OF assms(1-3)] by (simp add: cache_fake_def get_cached_eq)
next
  case False
  then have "t = ICACHE \<Longrightarrow> \<not> hits (dcache c) a" using assms(5) by (simp add: cache_of_def)
  then show ?thesis
    using False patch_word_view [OF assms(1-3) fetch_line_view(1) [OF assms(2) refl]]
      fetch_line_view_all [OF assms(4,3) False]
    by (simp add: cache_fake_def get_cached_eq)
qed

lemma load32_aligned: "a AND 3 = 0 \<Longrightarrow> load32 c a = load_word c a"
  by (simp only: load32_def and_3_aligned word_rotr_0 unat_0 mult_zero_right)

section \<open>Locking and unlocking\<close>

lemma invalidate_fold:
  "n \<le> 64 \<Longrightarrow> k < n \<Longrightarrow>
   tag (fold (\<lambda>index r. let i = push_bit 5 (of_nat index) in r\<lparr>tag := (tag r)(line_index i := i)\<rparr>) [0..<n] r)
     (push_bit 5 (of_nat k)) = push_bit 5 (of_nat k)"
proof (induction n)
  case (Suc n)
  have "line_index (push_bit 5 (of_nat n)) = push_bit 5 (of_nat n :: u32)"
  proof -
    have "push_bit 5 (of_nat n AND 0x3F) = push_bit 5 (of_nat n :: u32) AND 0x7E0"
      by (simp add: push_bit_and)
    moreover have "take_bit 6 n = n" using Suc.prems by (simp add: take_bit_nat_eq_self)
    then have "take_bit 6 (of_nat n :: u32) = of_nat n" by (simp only: take_bit_of_nat)
    then have "(of_nat n :: u32) AND 0x3F = of_nat n" by (simp add: take_bit_eq_mask mask_eq_exp_minus_1)
    ultimately show ?thesis by (simp add: line_index_def index_mask)
  qed
  then show ?case using Suc by (auto simp: Let_def less_Suc_eq)
qed simp

lemma line_index_cases:
  obtains k where "k < 64" and "line_index a = push_bit 5 (of_nat k)"
proof
  let ?k = "unat (drop_bit 5 (line_index a))"
  have "line_index a \<le> 0x7E0" by (simp add: line_index_def index_mask word_and_le1)
  then have "unat (line_index a) \<le> 2016" by (simp add: word_le_nat_alt)
  then have "unat (line_index a) div 32 < 64" by linarith
  then show "?k < 64" by (simp add: drop_bit_eq_div unat_div_distrib)
  show "line_index a = push_bit 5 (of_nat ?k)"
    by (simp add: push_drop_mask mask_eq_exp_minus_1 line_index_def index_mask and.assoc)
qed

lemma invalidated_tag: "tag (invalidate_lines r) (line_index a) AND 0x10 = 0"
proof -
  obtain k where k: "k < 64" "line_index a = push_bit 5 (of_nat k)" by (rule line_index_cases)
  have "tag (invalidate_lines r) (line_index a) = line_index a"
    using invalidate_fold [OF order.refl k(1)] by (simp add: invalidate_lines_def geometry k(2))
  then show ?thesis by (simp add: line_index_def index_mask and.assoc)
qed

lemma not_hits_invalidated [simp]: "\<not> hits (invalidate_lines r) a"
  by (simp add: hits_def invalidated_tag)

lemma cache_of_lock:
  "cache_of t (cache_lock c) = invalidate_lines (cache_of t c)"
  "cache_of t (cache_unlock c) = invalidate_lines (cache_of t c)"
  by (cases t; simp add: cache_of_def cache_lock_def cache_unlock_def icache_lock_def icache_unlock_def
    dcache_lock_def dcache_unlock_def)+

lemma lock_frame:
  "main (cache_lock c) = main c" "main (cache_unlock c) = main c" "lockdown (cache_lock c)" "\<not> lockdown (cache_unlock c)"
  by (simp_all add: cache_lock_def cache_unlock_def icache_lock_def icache_unlock_def dcache_lock_def dcache_unlock_def)

lemma view_lock: "view t (cache_lock c) a = rd32 (main c) (phys a)"
  by (simp add: view_eq cache_of_lock lock_frame)

lemma view_unlock: "view t (cache_unlock c) a = rd32 (main c) (phys a)"
  by (simp add: view_eq cache_of_lock lock_frame)

section \<open>Properties\<close>

text \<open>
  C6: Faking a word of ROM in a locked cache (\<^verbatim>\<open>cache_fake\<close>) changes exactly that
  word for the processor: if the word is patchable, fetches (instruction cache) or loads (data
  cache) of the address return the new value, and every other aligned word, of the same cache line or of
  another, reads as before. For the instruction cache this needs that the line to be fetched
  is not patched in the data cache, since the line is filled with data loads.
\<close>

theorem cache_fake_changes_one_word:
  assumes "IS_ROM_PTR a" and "a AND 3 = 0" and "fst (cache_is_patchable a t c) \<noteq> 0"
    and "t = ICACHE \<Longrightarrow> \<not> hits (icache c) a \<Longrightarrow> \<not> hits (dcache c) a"
    and "b AND 3 = 0"
  shows "view t (cache_fake a d t c) b = (if b = a then d else view t c b)"
  using cache_fake_view [OF assms(1,2,5,3,4)] .

text \<open>
  Locking or unlocking the caches leaves the processor with the contents of memory:
  no word of segment 0 is patched any more, and every address is patchable in either cache.
\<close>

theorem cache_lock_unlock_transparent:
  "cache_locked (cache_lock c) \<and> \<not> cache_locked (cache_unlock c)
   \<and> view t (cache_lock c) a = rd32 (main c) (phys a)
   \<and> view t (cache_unlock c) a = rd32 (main c) (phys a)
   \<and> fst (cache_is_patchable a t (cache_lock c)) = 1
   \<and> fst (cache_is_patchable a t (cache_unlock c)) = 1"
  by (simp add: view_lock view_unlock patchable_eq cache_of_lock lock_frame cache_locked_def invalidated_tag)

text \<open>
  \<^verbatim>\<open>cache_is_patchable\<close> classifies an aligned instruction address of ROM as its
  comments say: 0 if and only if the line is in use for another address, 2 if and only if the line
  holds the address with a changed word. For the data cache it never reports 2: the comparison
  with the memory word is itself a data load that hits the locked line, so a patched word
  counts as original.
\<close>

theorem cache_is_patchable_codes:
  assumes "IS_ROM_PTR a" and "a AND 3 = 0" and "\<not> hits (dcache c) a"
  shows "fst (cache_is_patchable a ICACHE c) =
      (if tag (icache c) (line_index a) AND 0x10 = 0 then 1
       else if \<not> hits (icache c) a then 0
       else if fetch32 c a = rd32 (main c) (phys a) then 1 else 2)
    \<and> fst (cache_is_patchable a DCACHE (cache_fake a d DCACHE c)) = 1"
proof
  show "fst (cache_is_patchable a ICACHE c) =
      (if tag (icache c) (line_index a) AND 0x10 = 0 then 1
       else if \<not> hits (icache c) a then 0
       else if fetch32 c a = rd32 (main c) (phys a) then 1 else 2)"
    using assms by (simp add: patchable_eq cache_of_def load32_aligned load_word_def fetch32_def)
  let ?c = "cache_fake a d DCACHE c"
  have "hits (cache_of DCACHE ?c) a"
    by (simp add: cache_fake_def hits_def) (use valid_bit [of a] in simp)
  moreover from this have "load32 ?c a = data (cache_of DCACHE ?c) (seg_index_word a)"
    using assms(1,2) by (simp add: load32_aligned load_word_def cache_of_def)
  ultimately show "fst (cache_is_patchable a DCACHE ?c) = 1" by (simp add: patchable_eq)
qed

theorem cache_fake_changes_one_word_witness:
  "view ICACHE (cache_fake 0xFF010004 0xE12FFF1E ICACHE rom_cpu) 0xFF010004 = 0xE12FFF1E
   \<and> view ICACHE (cache_fake 0xFF010004 0xE12FFF1E ICACHE rom_cpu) 0xFF010008 = 0x0B0A0908"
proof -
  have p: "fst (cache_is_patchable 0xFF010004 ICACHE rom_cpu) \<noteq> 0" "\<not> hits (dcache rom_cpu) 0xFF010004"
    by (simp_all add: patchable_eq hits_def rom_cpu_def cache_of_def)
  have v: "view ICACHE rom_cpu 0xFF010008 = 0x0B0A0908"
    by (simp add: view_eq hits_def rom_cpu_def cache_of_def rd32_def phys_def)
  have r: "IS_ROM_PTR 0xFF010004" by (simp add: IS_ROM_PTR_def)
  note f = cache_fake_changes_one_word [OF r _ p(1) p(2), of _ "0xE12FFF1E"]
  show ?thesis using f [of "0xFF010004"] f [of "0xFF010008"] v by simp
qed

theorem cache_is_patchable_codes_witness:
  "fst (cache_is_patchable 0xFF010004 DCACHE (cache_fake 0xFF010004 7 DCACHE rom_cpu)) = 1"
  using cache_is_patchable_codes [of "0xFF010004" rom_cpu 7] by (simp add: IS_ROM_PTR_def hits_def rom_cpu_def)

end
