(* ===== verification/ML_Patch.thy ===== *)
theory ML_Patch
  imports ML_Cache ML_Strings
begin

text \<open>
  Memory patching on DIGIC 4 and 5: the patch table and \<^verbatim>\<open>apply_patches\<close> of
  \<^verbatim>\<open>src/src/patch.c\<close>, and the cache based backend \<^verbatim>\<open>src/src/patch_cache.c\<close>
  with its function hooks. ROM words are patched by faking a locked cache line, RAM words by a write.
  Flushing the unlocked part of the caches has no effect on the model, whose memory is coherent;
  interrupts are disabled throughout every operation.
\<close>

section \<open>State\<close>

record patch =
  addr :: u32
  old_value :: u32
  new_value :: u32
  psize :: u32
  description :: "string option"
  is_instruction :: bool

text \<open>
  The hook code, with the words of the union under their names.
\<close>

record function_hook_code =
  arm_asm :: "u32 list"
  reloc_insn :: u32
  jump_back :: u32
  haddr :: u32
  fixup :: u32
  hook_function :: u32

text \<open>
  \<open>patches_global\<close> holds the first \<^verbatim>\<open>num_patches\<close> entries of the array, \<open>hooks_at\<close> is
  the address of the array of hook code.
\<close>

record patch_state =
  machine :: cpu
  patches_global :: "patch list"
  function_hooks :: "function_hook_code list"
  hooks_at :: u32

section \<open>Error codes\<close>

definition E_PATCH_OK :: u32 where "E_PATCH_OK = 0"
definition E_PATCH_UNKNOWN_ERROR :: u32 where "E_PATCH_UNKNOWN_ERROR = 0x1"
definition E_PATCH_ALREADY_PATCHED :: u32 where "E_PATCH_ALREADY_PATCHED = 0x2"
definition E_PATCH_TOO_MANY_PATCHES :: u32 where "E_PATCH_TOO_MANY_PATCHES = 0x4"
definition E_PATCH_OLD_VALUE_MISMATCH :: u32 where "E_PATCH_OLD_VALUE_MISMATCH = 0x8"
definition E_PATCH_CACHE_COLLISION :: u32 where "E_PATCH_CACHE_COLLISION = 0x10"
definition E_PATCH_CACHE_ERROR :: u32 where "E_PATCH_CACHE_ERROR = 0x20"
definition E_PATCH_REG_NOT_FOUND :: u32 where "E_PATCH_REG_NOT_FOUND = 0x40"
definition E_PATCH_WRONG_CPU :: u32 where "E_PATCH_WRONG_CPU = 0x80"
definition E_PATCH_NO_SGI_HANDLER :: u32 where "E_PATCH_NO_SGI_HANDLER = 0x100"
definition E_PATCH_CPU1_SUSPEND_FAIL :: u32 where "E_PATCH_CPU1_SUSPEND_FAIL = 0x200"
definition E_PATCH_MMU_NOT_INIT :: u32 where "E_PATCH_MMU_NOT_INIT = 0x400"
definition E_PATCH_BAD_MMU_PAGE :: u32 where "E_PATCH_BAD_MMU_PAGE = 0x800"
definition E_PATCH_CANNOT_MALLOC :: u32 where "E_PATCH_CANNOT_MALLOC = 0x1000"
definition E_PATCH_MALFORMED :: u32 where "E_PATCH_MALFORMED = 0x2000"
definition E_PATCH_TOO_SMALL :: u32 where "E_PATCH_TOO_SMALL = 0x4000"
definition E_PATCH_BAD_ADDR :: u32 where "E_PATCH_BAD_ADDR = 0x8000"
definition E_UNPATCH_OK :: u32 where "E_UNPATCH_OK = 0"
definition E_UNPATCH_NOT_PATCHED :: u32 where "E_UNPATCH_NOT_PATCHED = 0x10000"
definition E_UNPATCH_OVERWRITTEN :: u32 where "E_UNPATCH_OVERWRITTEN = 0x20000"
definition E_UNPATCH_REG_NOT_FOUND :: u32 where "E_UNPATCH_REG_NOT_FOUND = 0x80000"

text \<open>\<^verbatim>\<open>STR_APPEND\<close> on a buffer of \<open>n\<close> bytes.\<close>

definition STR_APPEND :: "nat \<Rightarrow> string \<Rightarrow> string \<Rightarrow> string" where
  "STR_APPEND n orig s = orig @ snprintf (n - length orig) s"

definition error_msg :: "u32 \<Rightarrow> string" where
  "error_msg err =
     (let msg = fold (\<lambda>(flag, s) msg. if err AND flag \<noteq> 0 then STR_APPEND 128 msg s else msg)
        [(E_PATCH_UNKNOWN_ERROR, ''UNKNOWN_ERROR,''), (E_PATCH_ALREADY_PATCHED, ''ALREADY_PATCHED,''),
         (E_PATCH_TOO_MANY_PATCHES, ''TOO_MANY_PATCHES,''), (E_PATCH_OLD_VALUE_MISMATCH, ''OLD_VAL_MISMATCH,''),
         (E_PATCH_CACHE_COLLISION, ''CACHE_COLLISION,''), (E_PATCH_CACHE_ERROR, ''CACHE_ERROR,''),
         (E_PATCH_REG_NOT_FOUND, ''REG_NOT_FOUND,''), (E_PATCH_WRONG_CPU, ''WRONG_CPU,''),
         (E_PATCH_NO_SGI_HANDLER, ''NO_SGI_HANDLER,''), (E_PATCH_CPU1_SUSPEND_FAIL, ''CPU1_SUSPEND_FAIL,''),
         (E_PATCH_MMU_NOT_INIT, ''MMU_NOT_INIT,''), (E_PATCH_BAD_MMU_PAGE, ''BAD_MMU_PAGE,''),
         (E_PATCH_CANNOT_MALLOC, ''CANNOT_MALLOC,''), (E_PATCH_MALFORMED, ''MALFORMED,''),
         (E_PATCH_TOO_SMALL, ''TOO_SMALL,''), (E_PATCH_BAD_ADDR, ''BAD_ADDR,''),
         (E_UNPATCH_NOT_PATCHED, ''NOT_PATCHED,''), (E_UNPATCH_OVERWRITTEN, ''OVERWRITTEN,''),
         (E_UNPATCH_REG_NOT_FOUND, ''REG_NOT_FOUND,'')] []
      in if msg \<noteq> [] then butlast msg else msg)"

definition MAX_PATCHES :: nat where "MAX_PATCHES = 32"
definition MAX_FUNCTION_HOOKS :: nat where "MAX_FUNCTION_HOOKS = 32"

definition zero_hook :: function_hook_code where
  "zero_hook = \<lparr>arm_asm = replicate 11 0, reloc_insn = 0, jump_back = 0, haddr = 0, fixup = 0, hook_function = 0\<rparr>"

section \<open>Cache backend\<close>

definition set_cache_lock_state :: "bool \<Rightarrow> cpu \<Rightarrow> cpu" where
  "set_cache_lock_state lock c =
     (if lock then if \<not> cache_locked c then cache_lock c else c else cache_unlock c)"

text \<open>
  The switches on the alignment of the address: \<open>load_value\<close> of \<^verbatim>\<open>read_value\<close>,
  \<open>store_value\<close> of \<^verbatim>\<open>apply_patch\<close>.
\<close>

definition load_value :: "u32 \<Rightarrow> cpu \<Rightarrow> u32" where
  "load_value a c =
     (if a AND 3 = 0 then load32 c a
      else if a AND 3 = 2 then ucast (load16 c a)
      else ucast (load8 c a))"

definition read_value :: "u32 \<Rightarrow> bool \<Rightarrow> cpu \<Rightarrow> u32" where
  "read_value a is_instr c =
     (if is_instr \<and> IS_ROM_PTR a \<and> cache_locked c \<and> fst (cache_is_patchable a ICACHE c) = 2
      then snd (cache_is_patchable a ICACHE c)
      else load_value (if is_instr then UNCACHEABLE a else a) c)"

definition store_value :: "u32 \<Rightarrow> u32 \<Rightarrow> memory \<Rightarrow> memory" where
  "store_value a v m =
     (if a AND 3 = 0 then wr32 m (phys a) v
      else if a AND 3 = 2 then wr16 m (phys a) (ucast v)
      else m(phys a := ucast v))"

definition patch_cache_type :: "patch \<Rightarrow> cache_type" where
  "patch_cache_type p = (if is_instruction p then ICACHE else DCACHE)"

text \<open>The result code, the patch as the caller finds it afterwards, and the machine.\<close>

definition apply_patch :: "patch \<Rightarrow> cpu \<Rightarrow> u32 \<times> patch \<times> cpu" where
  "apply_patch p c =
     (if psize p \<noteq> 4 then (E_PATCH_MALFORMED, p, c)
      else if IS_ROM_PTR (addr p) then
        (let c1 = set_cache_lock_state True c; t = patch_cache_type p
         in if fst (cache_is_patchable (addr p) t c1) \<noteq> 0 then
              (let c2 = cache_fake (addr p) (new_value p) t c1
               in if read_value (addr p) (is_instruction p) c2 \<noteq> new_value p then (E_PATCH_CACHE_ERROR, p, c2)
                  else (E_PATCH_OK, p, c2))
            else (E_PATCH_CACHE_COLLISION, p, c1))
      else
        (let p' = (if is_instruction p then p\<lparr>addr := UNCACHEABLE (addr p)\<rparr> else p)
         in (E_PATCH_OK, p', c\<lparr>main := store_value (addr p') (new_value p') (main c)\<rparr>)))"

definition reapply_cache_patch :: "patch \<Rightarrow> cpu \<Rightarrow> u32 \<times> cpu" where
  "reapply_cache_patch p c =
     (let current = read_value (addr p) (is_instruction p) c; patched = new_value p
      in if current \<noteq> patched then
           (let c' = cache_fake (addr p) patched (patch_cache_type p) c
            in if read_value (addr p) (is_instruction p) c' \<noteq> patched then (E_PATCH_CACHE_ERROR, c') else (E_PATCH_OK, c'))
         else (E_PATCH_OK, c))"

fun reapply_cache_patches :: "patch list \<Rightarrow> cpu \<Rightarrow> u32 \<times> cpu" where
  "reapply_cache_patches [] c = (0, c)"
| "reapply_cache_patches (p # ps) c =
     (let (e, c1) = (if IS_ROM_PTR (addr p) then reapply_cache_patch p c else (0, c));
          (err, c2) = reapply_cache_patches ps c1
      in (e OR err, c2))"

definition sync_locked_caches :: "patch list \<Rightarrow> cpu \<Rightarrow> u32 \<times> cpu" where
  "sync_locked_caches ps c =
     (if cache_locked c then reapply_cache_patches ps (cache_lock (cache_unlock c)) else (0, c))"

definition check_cache_lock_still_needed :: "patch list \<Rightarrow> cpu \<Rightarrow> cpu" where
  "check_cache_lock_still_needed ps c =
     (if \<not> cache_locked c then c
      else if \<not> list_ex (\<lambda>p. IS_ROM_PTR (addr p)) ps then set_cache_lock_state False c else c)"

definition is_patch_still_applied :: "patch \<Rightarrow> cpu \<Rightarrow> bool" where
  "is_patch_still_applied p c \<longleftrightarrow> read_value (addr p) (is_instruction p) c = new_value p"

section \<open>Unpatching\<close>

definition remove_at :: "nat \<Rightarrow> 'a list \<Rightarrow> 'a list" where
  "remove_at i xs = take i xs @ drop (Suc i) xs"

text \<open>
  After the shift, \<^verbatim>\<open>p\<close> points to the entry that followed the removed one, if any.
\<close>

definition unpatch_memory :: "u32 \<Rightarrow> patch_state \<Rightarrow> u32 \<times> patch_state" where
  "unpatch_memory a st =
     (case find_index (\<lambda>p. addr p = a) (patches_global st) of
        None \<Rightarrow> (E_UNPATCH_OK, st)
      | Some i \<Rightarrow>
          let p = patches_global st ! i in
          if psize p \<noteq> 4 then (E_PATCH_MALFORMED, st)
          else if \<not> is_patch_still_applied p (machine st) then (E_UNPATCH_OVERWRITTEN, st)
          else
            (let (err, c) = (if \<not> IS_ROM_PTR a
                  then (let (e, _, c) = apply_patch (p\<lparr>old_value := new_value p, new_value := old_value p\<rparr>) (machine st)
                        in (e, c))
                  else (E_UNPATCH_OK, machine st))
             in if err \<noteq> 0 then (err, st\<lparr>machine := c\<rparr>)
                else
                  (let ps = remove_at i (patches_global st);
                       hooks = map (\<lambda>h. if haddr h = a then zero_hook else h) (function_hooks st);
                       p' = (if i < length ps then ps ! i else p);
                       (err', c') = (if IS_ROM_PTR a then reapply_cache_patches ps (cache_lock (cache_unlock c))
                                     else if is_instruction p' then sync_locked_caches ps c else (err, c))
                   in (err', st\<lparr>machine := check_cache_lock_still_needed ps c', patches_global := ps,
                                function_hooks := hooks\<rparr>))))"

section \<open>Applying patches\<close>

text \<open>
  One round of the loop over the patches: on an error the loop is left. The error
  of the cache synchronisation does not leave the loop, but is the result if the round
  is the last one.
\<close>

definition apply_one :: "patch \<Rightarrow> patch_state \<Rightarrow> u32 \<times> bool \<times> patch \<times> patch_state" where
  "apply_one p st =
     (if psize p \<noteq> 4 then (E_PATCH_UNKNOWN_ERROR, False, p, st)
      else if list_ex (\<lambda>q. addr q = addr p) (patches_global st) then (E_PATCH_ALREADY_PATCHED, False, p, st)
      else if length (patches_global st) \<ge> MAX_PATCHES then (E_PATCH_TOO_MANY_PATCHES, False, p, st)
      else
        (let old = read_value (addr p) (is_instruction p) (machine st)
         in if old \<noteq> old_value p then (E_PATCH_OLD_VALUE_MISMATCH, False, p, st)
            else
              (let new_patch = p\<lparr>old_value := old\<rparr>;
                   (err, p', c) = apply_patch p (machine st)
               in if err \<noteq> 0 then (err, False, p', st\<lparr>machine := c\<rparr>)
                  else
                    (let (err', c') = (if is_instruction p' \<and> \<not> IS_ROM_PTR (addr p')
                           then sync_locked_caches (patches_global st) c else (err, c))
                     in (err', True, p', st\<lparr>machine := c', patches_global := patches_global st @ [new_patch]\<rparr>)))))"

fun apply_loop :: "patch list \<Rightarrow> u32 \<Rightarrow> patch_state \<Rightarrow> u32 \<times> patch list \<times> patch_state" where
  "apply_loop [] err st = (err, [], st)"
| "apply_loop (p # ps) _ st =
     (let (err, continue, p', st') = apply_one p st
      in if \<not> continue then (err, p' # ps, st')
         else (let (err', ps', st'') = apply_loop ps err st' in (err', p' # ps', st'')))"

definition apply_patches :: "patch list \<Rightarrow> patch_state \<Rightarrow> u32 \<times> patch list \<times> patch_state" where
  "apply_patches patches st =
     (let (err, patches', st') = apply_loop patches E_PATCH_OK st
      in if err \<noteq> 0 then (err, patches', fold (\<lambda>p st. snd (unpatch_memory (addr p) st)) patches' st')
         else (err, patches', st'))"

section \<open>Function hooks\<close>

definition B_INSTR :: "u32 \<Rightarrow> u32 \<Rightarrow> u32" where
  "B_INSTR pc dest = 0xEA000000 OR (drop_bit 2 (dest - pc - 8) AND 0x00FFFFFF)"

definition REG_PC :: u32 where "REG_PC = 15"
definition LOAD_MASK :: u32 where "LOAD_MASK = 0x0C000000"
definition LOAD_INSTR :: u32 where "LOAD_INSTR = 0x04000000"

text \<open>The new instruction, and the word written to \<open>fixup\<close> if there is one.\<close>

definition reloc_instr :: "u32 \<Rightarrow> u32 \<Rightarrow> u32 \<Rightarrow> cpu \<Rightarrow> u32 \<times> u32 option" where
  "reloc_instr pc new_pc fix c =
     (let instr = load32 c pc; load = instr AND LOAD_MASK
      in if load = LOAD_INSTR then
           (let reg_base = drop_bit 16 instr AND 0xF; offset = instr AND 0xFFF
            in if reg_base \<noteq> REG_PC then (instr, None)
               else
                 (let offset' = (if instr AND push_bit 23 1 = 0 then - offset else offset);
                      dest = pc + offset' + 8;
                      d = load32 c dest;
                      new_offset = fix - new_pc - 8;
                      new_instr = push_bit 23 1 OR (instr AND NOT 0xFFF) OR (new_offset AND 0xFFF)
                  in (new_instr, Some d)))
         else (instr, None))"

definition check_jump_range :: "u32 \<Rightarrow> u32 \<Rightarrow> bool" where
  "check_jump_range pc dest =
     (let offset = push_bit 8 (B_INSTR pc dest AND 0x00FFFFFF);
          new_dest = ucast (drop_bit 6 (push_bit 6 ((ucast pc :: u64) + 8) + scast offset)) :: u32
      in dest = new_dest)"

definition hook_addr :: "patch_state \<Rightarrow> nat \<Rightarrow> u32" where
  "hook_addr st slot = hooks_at st + of_nat (64 * slot)"

definition hook_asm :: "u32 list" where
  "hook_asm = [0xe92d5fff, 0xe10f0000, 0xe92d0001, 0xe28d0004, 0xe28d103c, 0xe59f2018,
               0xe1a0e00f, 0xe59ff018, 0xe8bd0001, 0xe128f000, 0xe8bd5fff]"

definition patch_hook_function :: "u32 \<Rightarrow> u32 \<Rightarrow> u32 \<Rightarrow> string option \<Rightarrow> patch_state \<Rightarrow> u32 \<times> patch_state" where
  "patch_hook_function a orig_instr hook_fn descr st =
     (case find_index (\<lambda>h. haddr h = 0) (function_hooks st) of
        None \<Rightarrow> (E_PATCH_TOO_MANY_PATCHES, st)
      | Some slot \<Rightarrow>
          let hook = hook_addr st slot in
          if \<not> check_jump_range (hook + 44) (a + 4) \<or> \<not> check_jump_range a hook then (E_PATCH_UNKNOWN_ERROR, st)
          else
            (let (insn, fix) = reloc_instr a (hook + 44) (hook + 56) (machine st);
                 fixup_word = (case fix of Some d \<Rightarrow> d | None \<Rightarrow> fixup (function_hooks st ! slot));
                 code = \<lparr>arm_asm = hook_asm, reloc_insn = insn, jump_back = B_INSTR (hook + 48) (a + 4),
                         haddr = a, fixup = fixup_word, hook_function = hook_fn\<rparr>;
                 (_, c) = sync_locked_caches (patches_global st) (machine st);
                 st1 = st\<lparr>machine := c, function_hooks := (function_hooks st)[slot := code]\<rparr>;
                 p = \<lparr>addr = a, old_value = orig_instr, new_value = B_INSTR a hook, psize = 4,
                      description = descr, is_instruction = True\<rparr>;
                 (err, _, st2) = apply_patches [p] st1
             in if err \<noteq> 0 then (err, st2\<lparr>function_hooks := (function_hooks st2)[slot := zero_hook]\<rparr>)
                else (err, st2)))"

section \<open>Specification vocabulary\<close>

definition rom_kept :: "memory \<Rightarrow> cpu \<Rightarrow> bool" where
  "rom_kept m c \<longleftrightarrow> (\<forall>a. a > 0xF0000003 \<longrightarrow> main c a = m a)"

definition patch_inv :: "memory \<Rightarrow> patch_state \<Rightarrow> bool" where
  "patch_inv m st \<longleftrightarrow> length (patches_global st) \<le> MAX_PATCHES \<and> distinct (map addr (patches_global st))
     \<and> list_all (\<lambda>p. psize p = 4) (patches_global st) \<and> length (function_hooks st) = MAX_FUNCTION_HOOKS
     \<and> rom_kept m (machine st)"

text \<open>A patch that \<^verbatim>\<open>apply_patches\<close> accepts.\<close>

definition acceptable :: "patch \<Rightarrow> patch_state \<Rightarrow> bool" where
  "acceptable p st \<longleftrightarrow> psize p = 4 \<and> addr p \<notin> addr ` set (patches_global st)
     \<and> length (patches_global st) < MAX_PATCHES
     \<and> read_value (addr p) (is_instruction p) (machine st) = old_value p"

text \<open>
  The target of an ARM branch and of a load relative to the program counter, as the architecture
  defines them. The second is the address of the operand for the instructions of \<open>pc_load\<close>: a load of
  a word or a byte, with the program counter as base register, an immediate offset in either direction
  and no write-back.
\<close>

definition branch_target :: "u32 \<Rightarrow> u32 \<Rightarrow> u32" where
  "branch_target pc instr = pc + 8 + word_of_int (4 * signed_take_bit 23 (uint instr))"

definition ldr_target :: "u32 \<Rightarrow> u32 \<Rightarrow> u32" where
  "ldr_target pc instr = pc + 8 + (if bit instr 23 then instr AND 0xFFF else - (instr AND 0xFFF))"

definition pc_load :: "u32 \<Rightarrow> bool" where
  "pc_load instr \<longleftrightarrow> instr AND 0x0F3F0000 = 0x051F0000"

definition hook_words :: "function_hook_code \<Rightarrow> u32 list" where
  "hook_words h = arm_asm h @ [reloc_insn h, jump_back h, haddr h, fixup h, hook_function h]"

text \<open>A camera after startup, with memory that counts its bytes.\<close>

definition booted :: patch_state where
  "booted = \<lparr>machine = rom_cpu\<lparr>lockdown := False\<rparr>, patches_global = [],
     function_hooks = replicate MAX_FUNCTION_HOOKS zero_hook, hooks_at = 0x400000\<rparr>"

definition sample_patch :: patch where
  "sample_patch = \<lparr>addr = 0x1000, old_value = 0x03020100, new_value = 7, psize = 4,
     description = None, is_instruction = True\<rparr>"

definition patched :: patch_state where
  "patched = snd (snd (apply_patches [sample_patch] booted))"

definition rom_patched :: patch_state where
  "rom_patched = \<lparr>machine = cache_fake 0xFF010004 7 DCACHE rom_cpu, patches_global =
     [\<lparr>addr = 0xFF010004, old_value = 0x07060504, new_value = 7, psize = 4, description = None, is_instruction = False\<rparr>],
     function_hooks = replicate MAX_FUNCTION_HOOKS zero_hook, hooks_at = 0x400000\<rparr>"

section \<open>What the operations keep\<close>

lemmas patch_errors = E_PATCH_OK_def E_PATCH_UNKNOWN_ERROR_def E_PATCH_ALREADY_PATCHED_def
  E_PATCH_TOO_MANY_PATCHES_def E_PATCH_OLD_VALUE_MISMATCH_def E_PATCH_CACHE_COLLISION_def
  E_PATCH_CACHE_ERROR_def E_PATCH_MALFORMED_def E_UNPATCH_OK_def E_UNPATCH_OVERWRITTEN_def

named_theorems patch_frame "what the cache operations leave alone"

lemma main_fake [patch_frame]: "main (cache_fake a d t c) = main c" "lockdown (cache_fake a d t c) = lockdown c"
  by (simp_all add: cache_fake_def fetch_line_frame)

lemmas main_lock [patch_frame] = lock_frame

lemma main_lock_state [patch_frame]: "main (set_cache_lock_state l c) = main c"
  "lockdown (set_cache_lock_state l c) = l"
  by (simp_all add: set_cache_lock_state_def cache_locked_def patch_frame)

lemma main_reapply1 [patch_frame]: "main (snd (reapply_cache_patch p c)) = main c"
  by (simp add: reapply_cache_patch_def Let_def patch_frame)

lemma main_reapply [patch_frame]: "main (snd (reapply_cache_patches ps c)) = main c"
  by (induction ps arbitrary: c) (simp_all add: case_prod_beta Let_def patch_frame)

lemma main_sync [patch_frame]: "main (snd (sync_locked_caches ps c)) = main c"
  by (simp add: sync_locked_caches_def patch_frame)

lemma main_check [patch_frame]: "main (check_cache_lock_still_needed ps c) = main c"
  by (simp add: check_cache_lock_still_needed_def patch_frame)

lemma phys_ram:
  assumes "\<not> IS_ROM_PTR a" shows "phys a \<le> 0xF0000000"
proof (cases "a < 0x80000000")
  case True
  have "CACHEABLE a \<le> a" by (simp add: CACHEABLE_def word_and_le2)
  then show ?thesis using True by (auto simp: phys_def word_le_nat_alt word_less_nat_alt)
qed (use assms in \<open>simp add: phys_def IS_ROM_PTR_def\<close>)

lemma above_ram:
  assumes "a \<le> 0xF0000000" and "x > 0xF0000003"
  shows "x \<noteq> a" and "x \<noteq> a + 1" and "x \<noteq> a + 2" and "x \<noteq> a + (3 :: u32)"
proof -
  have u: "unat (a + of_nat k) = unat a + k" if "k < 4" for k
  proof -
    have "unat a + unat (of_nat k :: u32) < 2 ^ 32"
      using assms(1) that by (simp add: word_le_nat_alt unat_of_nat32)
    then show ?thesis using that by (simp add: unat_word_ariths unat_of_nat32)
  qed
  have "x \<noteq> a + of_nat k" if "k < 4" for k
    using u [OF that] that assms by (auto simp: word_le_nat_alt word_less_nat_alt)
  from this [of 0] this [of 1] this [of 2] this [of 3]
  show "x \<noteq> a" and "x \<noteq> a + 1" and "x \<noteq> a + 2" and "x \<noteq> a + 3" by simp_all
qed

lemma store_value_rom: "\<not> IS_ROM_PTR a \<Longrightarrow> x > 0xF0000003 \<Longrightarrow> store_value a v m x = m x"
  using above_ram [OF phys_ram, of a x] by (simp add: store_value_def wr32_def wr16_def)

lemma apply_patch_rom:
  assumes "rom_kept m c" shows "rom_kept m (snd (snd (apply_patch p c)))"
proof (cases "psize p \<noteq> 4 \<or> IS_ROM_PTR (addr p)")
  case True
  then have "main (snd (snd (apply_patch p c))) = main c"
    by (auto simp: apply_patch_def Let_def patch_frame)
  then show ?thesis using assms by (simp add: rom_kept_def)
next
  case False
  define p' where "p' = (if is_instruction p then p\<lparr>addr := UNCACHEABLE (addr p)\<rparr> else p)"
  have "\<not> IS_ROM_PTR (addr p')" using False by (simp add: p'_def UNCACHEABLE_ram)
  moreover have "snd (snd (apply_patch p c)) = c\<lparr>main := store_value (addr p') (new_value p') (main c)\<rparr>"
    using False by (simp add: apply_patch_def Let_def p'_def)
  ultimately show ?thesis using assms by (simp add: rom_kept_def store_value_rom)
qed

lemma apply_one_table:
  assumes "apply_one p st = (e, b, p', st')"
  shows "function_hooks st' = function_hooks st" and "hooks_at st' = hooks_at st"
    and "patches_global st' = (if b then patches_global st @ [p] else patches_global st)"
    and "b \<Longrightarrow> addr p \<notin> addr ` set (patches_global st) \<and> length (patches_global st) < MAX_PATCHES \<and> psize p = 4"
    and "\<not> b \<Longrightarrow> e \<noteq> 0"
  using assms
  by (auto simp: apply_one_def Let_def list_ex_iff patch_errors split: if_splits prod.splits)

lemma apply_one_rom:
  assumes "rom_kept m (machine st)" shows "rom_kept m (machine (snd (snd (snd (apply_one p st)))))"
proof -
  have r: "rom_kept m (snd (snd (apply_patch p (machine st))))" using assms by (rule apply_patch_rom)
  then have "rom_kept m (snd (sync_locked_caches ps (snd (snd (apply_patch p (machine st))))))" for ps
    by (simp add: rom_kept_def patch_frame)
  then show ?thesis using r assms by (simp add: apply_one_def Let_def case_prod_beta)
qed

section \<open>The patch table\<close>

lemma apply_one_inv:
  assumes "patch_inv m st" shows "patch_inv m (snd (snd (snd (apply_one p st))))"
proof -
  obtain e b p' st' where r: "apply_one p st = (e, b, p', st')" by (metis prod_cases4)
  show ?thesis using apply_one_table [OF r] apply_one_rom [of m st p] assms
    by (cases b) (auto simp: patch_inv_def r)
qed

lemma apply_loop_inv: "patch_inv m st \<Longrightarrow> patch_inv m (snd (snd (apply_loop ps e st)))"
proof (induction ps arbitrary: e st)
  case (Cons p ps)
  then show ?case using apply_one_inv [OF Cons.prems, of p]
    by (simp add: case_prod_beta Let_def)
qed simp

lemma set_remove_at: "set (remove_at i xs) \<subseteq> set xs"
  by (auto simp: remove_at_def dest: in_set_takeD in_set_dropD)

lemma distinct_remove_at: "distinct (map f xs) \<Longrightarrow> distinct (map f (remove_at i xs))"
  unfolding remove_at_def map_append take_map [symmetric] drop_map [symmetric]
  using set_take_disj_set_drop_if_distinct [of "map f xs" i "Suc i"] by simp

lemma length_remove_at: "i < length xs \<Longrightarrow> length (remove_at i xs) = length xs - 1"
  by (simp add: remove_at_def)

lemma unpatch_table:
  obtains "patches_global (snd (unpatch_memory a st)) = patches_global st"
      "function_hooks (snd (unpatch_memory a st)) = function_hooks st"
  | i where "find_index (\<lambda>p. addr p = a) (patches_global st) = Some i"
      "patches_global (snd (unpatch_memory a st)) = remove_at i (patches_global st)"
      "function_hooks (snd (unpatch_memory a st)) = map (\<lambda>h. if haddr h = a then zero_hook else h) (function_hooks st)"
proof (cases "find_index (\<lambda>p. addr p = a) (patches_global st)")
  case None
  then show ?thesis using that(1) by (simp add: unpatch_memory_def)
next
  case (Some i)
  define p where "p = patches_global st ! i"
  define r where "r = apply_patch (p\<lparr>old_value := new_value p, new_value := old_value p\<rparr>) (machine st)"
  consider "psize p \<noteq> 4 \<or> \<not> is_patch_still_applied p (machine st) \<or> \<not> IS_ROM_PTR a \<and> fst r \<noteq> 0"
    | "psize p = 4" "is_patch_still_applied p (machine st)" "IS_ROM_PTR a \<or> fst r = 0" by blast
  then show ?thesis
  proof cases
    case 1
    then show ?thesis using that(1) by (auto simp: unpatch_memory_def Some Let_def case_prod_beta p_def r_def)
  next
    case 2
    then show ?thesis using that(2) [OF Some]
      by (auto simp: unpatch_memory_def Some Let_def case_prod_beta p_def r_def E_UNPATCH_OK_def)
  qed
qed

lemma unpatch_rom:
  assumes "rom_kept m (machine st)" shows "rom_kept m (machine (snd (unpatch_memory a st)))"
proof -
  have r: "rom_kept m (snd (snd (apply_patch p (machine st))))" for p using assms by (rule apply_patch_rom)
  then show ?thesis using assms
    by (simp add: unpatch_memory_def Let_def case_prod_beta rom_kept_def patch_frame split: option.split)
qed

lemma unpatch_inv: "patch_inv m st \<Longrightarrow> patch_inv m (snd (unpatch_memory a st))"
proof (rule unpatch_table [of a st])
  assume i: "patch_inv m st"
  {
    assume "patches_global (snd (unpatch_memory a st)) = patches_global st"
      "function_hooks (snd (unpatch_memory a st)) = function_hooks st"
    then show ?thesis using i unpatch_rom [of m st a] by (simp add: patch_inv_def)
  next
    fix k assume "find_index (\<lambda>p. addr p = a) (patches_global st) = Some k"
      "patches_global (snd (unpatch_memory a st)) = remove_at k (patches_global st)"
      "function_hooks (snd (unpatch_memory a st)) = map (\<lambda>h. if haddr h = a then zero_hook else h) (function_hooks st)"
    then show ?thesis using i unpatch_rom [of m st a] set_remove_at [of k "patches_global st"]
      by (auto simp: patch_inv_def distinct_remove_at length_remove_at list_all_iff dest: find_index_SomeD)
  }
qed

lemma apply_patches_inv: "patch_inv m st \<Longrightarrow> patch_inv m (snd (snd (apply_patches ps st)))"
proof -
  have f: "patch_inv m st \<Longrightarrow> patch_inv m (fold (\<lambda>p st. snd (unpatch_memory (addr p) st)) qs st)" for qs :: "patch list" and st
    by (induction qs arbitrary: st) (simp_all add: unpatch_inv)
  assume "patch_inv m st"
  then have "patch_inv m (snd (snd (apply_loop ps E_PATCH_OK st)))" by (rule apply_loop_inv)
  then show ?thesis using f [of "snd (snd (apply_loop ps E_PATCH_OK st))"]
    by (simp add: apply_patches_def case_prod_beta Let_def)
qed

lemma hook_inv: 
  assumes "patch_inv m st" shows "patch_inv m (snd (patch_hook_function a orig f d st))"
proof -
  have 1: "patch_inv m (st\<lparr>machine := snd (sync_locked_caches (patches_global st) (machine st)),
      function_hooks := (function_hooks st)[slot := h]\<rparr>)" for slot h
    using assms by (simp add: patch_inv_def rom_kept_def patch_frame)
  have 2: "patch_inv m st \<Longrightarrow> patch_inv m (st\<lparr>function_hooks := (function_hooks st)[slot := h]\<rparr>)" for st slot h
    by (simp add: patch_inv_def)
  show ?thesis
    using assms apply_patches_inv [OF 1] 2 [OF apply_patches_inv [OF 1]]
    by (simp add: patch_hook_function_def Let_def case_prod_beta split: option.split)
qed

text \<open>The states reachable by the public operations, over the ROM contents \<open>m\<close>.\<close>

inductive patch_reach :: "memory \<Rightarrow> patch_state \<Rightarrow> bool" for m where
  boot: "main (machine st) = m \<Longrightarrow> patches_global st = [] \<Longrightarrow>
    function_hooks st = replicate MAX_FUNCTION_HOOKS zero_hook \<Longrightarrow> patch_reach m st"
| apply_step: "patch_reach m st \<Longrightarrow> patch_reach m (snd (snd (apply_patches ps st)))"
| unpatch_step: "patch_reach m st \<Longrightarrow> patch_reach m (snd (unpatch_memory a st))"
| hook_step: "patch_reach m st \<Longrightarrow> patch_reach m (snd (patch_hook_function a orig f d st))"

lemma patch_reach_inv: "patch_reach m st \<Longrightarrow> patch_inv m st"
proof (induction rule: patch_reach.induct)
  case (boot st)
  then show ?case by (simp add: patch_inv_def rom_kept_def)
qed (simp_all add: apply_patches_inv unpatch_inv hook_inv)

section \<open>Reading what was written\<close>

lemma UNCACHEABLE_and_3: "UNCACHEABLE a AND 3 = a AND 3"
  by (simp add: UNCACHEABLE_def bit.conj_disj_distrib2)

lemma phys_UNCACHEABLE: "phys (UNCACHEABLE a) = phys a"
proof (cases "unat a < 2 ^ 30")
  case True
  then have u: "unat (a + 2 ^ 30) = unat a + 2 ^ 30"
    by (subst unat_plus_simple [THEN iffD1]) (simp_all add: word_le_nat_alt unat_word_ariths)
  have "unat (CACHEABLE (a + 2 ^ 30)) = unat (CACHEABLE a)"
    using True u unat_CACHEABLE [of a] unat_CACHEABLE [of "a + 2 ^ 30"] by simp
  then have "CACHEABLE (a + 2 ^ 30) = CACHEABLE a" by (simp add: word_unat_eq_iff)
  then show ?thesis using True u by (simp add: phys_def UNCACHEABLE_low word_less_nat_alt)
qed (simp add: UNCACHEABLE_high)

lemma read_value_ram:
  "\<not> IS_ROM_PTR a \<Longrightarrow> a AND 3 = 0 \<Longrightarrow> read_value a i c = rd32 (main c) (phys a)"
  using UNCACHEABLE_ram [of a]
  by (simp add: read_value_def load_value_def UNCACHEABLE_and_3 load32_aligned load_word_def phys_UNCACHEABLE)

lemma apply_patch_ram:
  assumes "psize p = 4" and "\<not> IS_ROM_PTR (addr p)" and "addr p AND 3 = 0"
  shows "apply_patch p c = (0, if is_instruction p then p\<lparr>addr := UNCACHEABLE (addr p)\<rparr> else p,
    c\<lparr>main := wr32 (main c) (phys (addr p)) (new_value p)\<rparr>)"
  using assms by (simp add: apply_patch_def Let_def store_value_def UNCACHEABLE_and_3 phys_UNCACHEABLE E_PATCH_OK_def)

lemma find_index_fresh: "x \<notin> addr ` set ps \<Longrightarrow> addr p = x \<Longrightarrow> find_index (\<lambda>q. addr q = x) (ps @ [p]) = Some (length ps)"
proof -
  assume a: "x \<notin> addr ` set ps" "addr p = x"
  then have "find_index (\<lambda>q. addr q = x) ps = None" by (subst find_index_None) blast
  then show ?thesis using a(2) by (simp add: find_index_append)
qed

lemma remove_at_snoc [simp]: "remove_at (length ps) (ps @ [p]) = ps"
  by (simp add: remove_at_def)

lemma apply_patches_single:
  "apply_patches [p] st =
     (let (err, b, p', st') = apply_one p st
      in (err, [p'], if err \<noteq> 0 then snd (unpatch_memory (addr p') st') else st'))"
  by (simp add: apply_patches_def Let_def case_prod_beta)

lemma machine_locked: "lockdown (check_cache_lock_still_needed ps c) \<longleftrightarrow> lockdown c \<and> list_ex (\<lambda>p. IS_ROM_PTR (addr p)) ps"
  by (simp add: check_cache_lock_still_needed_def patch_frame cache_locked_def)

lemma sync_unlocked: "\<not> cache_locked c \<Longrightarrow> sync_locked_caches ps c = (0, c)"
  by (simp add: sync_locked_caches_def)

lemma reapply_no_rom: "\<not> list_ex (\<lambda>p. IS_ROM_PTR (addr p)) ps \<Longrightarrow> reapply_cache_patches ps c = (0, c)"
  by (induction ps arbitrary: c) simp_all

lemma apply_one_acceptable:
  assumes "acceptable p st" and "\<not> IS_ROM_PTR (addr p)" and "addr p AND 3 = 0"
    and "is_instruction p \<Longrightarrow> \<not> cache_locked (machine st)"
  shows "apply_one p st = (0, True, if is_instruction p then p\<lparr>addr := UNCACHEABLE (addr p)\<rparr> else p,
    st\<lparr>machine := (machine st)\<lparr>main := wr32 (main (machine st)) (phys (addr p)) (new_value p)\<rparr>,
       patches_global := patches_global st @ [p]\<rparr>)"
proof -
  have "\<not> list_ex (\<lambda>q. addr q = addr p) (patches_global st)" 
    using assms(1) unfolding acceptable_def list_ex_iff by (elim conjE, intro notI, elim bexE) (metis image_eqI)
  then show ?thesis
    using assms UNCACHEABLE_ram [of "addr p"]
    by (simp add: apply_one_def acceptable_def Let_def apply_patch_ram sync_locked_caches_def cache_locked_def)
qed

lemma unpatch_ram:
  assumes "find_index (\<lambda>p. addr p = a) (patches_global st) = Some i" and "p = patches_global st ! i"
    and "psize p = 4" and "is_patch_still_applied p (machine st)" and "\<not> IS_ROM_PTR a" and "a AND 3 = 0"
    and "ps = remove_at i (patches_global st)"
    and "is_instruction (if i < length ps then ps ! i else p) \<Longrightarrow> \<not> cache_locked (machine st)"
  shows "unpatch_memory a st = (0, st\<lparr>machine := check_cache_lock_still_needed ps
       ((machine st)\<lparr>main := wr32 (main (machine st)) (phys a) (old_value p)\<rparr>),
     patches_global := ps, function_hooks := map (\<lambda>h. if haddr h = a then zero_hook else h) (function_hooks st)\<rparr>)"
proof -
  have "addr p = a" using find_index_SomeD [OF assms(1)] assms(2) by simp
  then have "apply_patch (p\<lparr>old_value := new_value p, new_value := old_value p\<rparr>) (machine st) =
      (0, if is_instruction p then p\<lparr>old_value := new_value p, new_value := old_value p, addr := UNCACHEABLE a\<rparr>
          else p\<lparr>old_value := new_value p, new_value := old_value p\<rparr>,
       (machine st)\<lparr>main := wr32 (main (machine st)) (phys a) (old_value p)\<rparr>)"
    using assms(3,5,6) by (subst apply_patch_ram) simp_all
  then show ?thesis
    using assms by (simp add: unpatch_memory_def Let_def sync_locked_caches_def cache_locked_def)
qed

section \<open>Branches\<close>

lemma imm24:
  fixes d :: u32
  shows "drop_bit 2 d AND 0x00FFFFFF = take_bit 24 (drop_bit 2 d)"
  by (simp add: take_bit_eq_mask mask_eq_exp_minus_1)

lemma B_INSTR_imm: "take_bit 24 (B_INSTR pc dest) = take_bit 24 (drop_bit 2 (dest - pc - 8))"
proof -
  have "take_bit 24 (0xEA000000 :: u32) = 0" by (simp add: take_bit_eq_mask mask_eq_exp_minus_1)
  then show ?thesis by (simp add: B_INSTR_def imm24)
qed

lemma signed_push: "signed_take_bit 31 (256 * k) = 256 * signed_take_bit 23 (k :: int)"
proof -
  have "signed_take_bit 31 (push_bit 8 k) = push_bit 8 (signed_take_bit 23 k)"
    by (rule bit_eqI) (auto simp: bit_simps min_def)
  then show ?thesis by (simp add: push_bit_eq_mult ac_simps)
qed

lemma jump_dest:
  fixes pc imm :: u32
  shows "(ucast (drop_bit 6 (push_bit 6 ((ucast pc :: u64) + 8) + scast (push_bit 8 imm))) :: u32)
    = pc + 8 + word_of_int (4 * signed_take_bit 23 (uint imm))"
proof -
  define s where "s = signed_take_bit 23 (uint imm)"
  define y where "y = uint pc + 8 + 4 * s"
  have "sint (push_bit 8 imm) = 256 * s"
  proof -
    have "push_bit 8 imm = word_of_int (256 * uint imm)" by (simp add: push_bit_eq_mult)
    then have "sint (push_bit 8 imm) = signed_take_bit 31 (256 * uint imm)"
      by (simp only: sint_sbintrunc') simp
    then show ?thesis by (simp only: signed_push s_def)
  qed
  then have sc: "(scast (push_bit 8 imm) :: u64) = word_of_int (256 * s)"
    by (metis scast_eq)
  have "(ucast pc :: u64) + 8 = word_of_int (uint pc + 8)" by simp
  then have "push_bit 6 ((ucast pc :: u64) + 8) = word_of_int (64 * (uint pc + 8))"
    by (simp add: push_bit_eq_mult)
  then have sum: "push_bit 6 ((ucast pc :: u64) + 8) + scast (push_bit 8 imm) = word_of_int (64 * y)"
    unfolding sc y_def by (simp add: algebra_simps)
  have p: "64 * y = push_bit 6 y" by (simp add: push_bit_eq_mult)
  have "(ucast (drop_bit 6 (word_of_int (push_bit 6 y) :: u64)) :: u32) = word_of_int y"
    by (rule bit_word_eqI) (simp add: bit_simps)
  also have "word_of_int y = pc + 8 + word_of_int (4 * s)" by (simp add: y_def)
  finally show ?thesis unfolding sum p s_def .
qed

lemma branch_target_take: "branch_target pc i = pc + 8 + word_of_int (4 * signed_take_bit 23 (uint (take_bit 24 i)))"
proof -
  have "signed_take_bit 23 (uint (take_bit 24 i)) = signed_take_bit 23 (uint i)"
    by (rule bit_eqI) (auto simp: bit_simps min_def)
  then show ?thesis by (simp add: branch_target_def)
qed

lemma check_jump_range_target: "check_jump_range pc dest \<longleftrightarrow> branch_target pc (B_INSTR pc dest) = dest"
proof -
  have "B_INSTR pc dest AND 0x00FFFFFF = take_bit 24 (B_INSTR pc dest)"
    by (simp add: take_bit_eq_mask mask_eq_exp_minus_1)
  then show ?thesis
    unfolding check_jump_range_def Let_def jump_dest branch_target_take [of pc "B_INSTR pc dest"] by (simp add: eq_commute)
qed

lemma branch_target_B:
  "branch_target pc (B_INSTR pc dest) = pc + 8 + word_of_int (4 * signed_take_bit 23 (sint (dest - pc - 8) div 4))"
proof -
  let ?d = "dest - pc - 8"
  have "signed_take_bit 23 (uint (take_bit 24 (drop_bit 2 ?d))) = signed_take_bit 23 (drop_bit 2 (sint ?d))"
    by (rule bit_eqI) (auto simp: bit_simps min_def)
  moreover have "drop_bit 2 (sint ?d) = sint ?d div 4" by (simp add: drop_bit_eq_div)
  ultimately show ?thesis by (simp add: branch_target_take [of pc "B_INSTR pc dest"] B_INSTR_imm)
qed

lemma check_jump_range_iff:
  "check_jump_range pc dest \<longleftrightarrow> 4 dvd sint (dest - pc - 8) \<and> - (2 ^ 25) \<le> sint (dest - pc - 8) \<and> sint (dest - pc - 8) < 2 ^ 25"
proof -
  define D where "D = sint (dest - pc - 8)"
  define s where "s = signed_take_bit 23 (D div 4)"
  have s: "- (2 ^ 23) \<le> s" "s < 2 ^ 23"
    unfolding s_def by (rule signed_take_bit_int_greater_eq_minus_exp signed_take_bit_int_less_exp)+
  have "check_jump_range pc dest \<longleftrightarrow> word_of_int (4 * s) = (word_of_int D :: u32)"
    unfolding check_jump_range_target branch_target_B s_def D_def by (auto simp: algebra_simps)
  also have "\<dots> \<longleftrightarrow> signed_take_bit 31 (4 * s) = signed_take_bit 31 D"
    by (simp add: word_of_int_eq_iff signed_take_bit_eq_iff_take_bit_eq del: of_int_mult)
  also have "\<dots> \<longleftrightarrow> 4 * s = D"
  proof -
    have "signed_take_bit 31 (4 * s) = 4 * s" using s by (intro signed_take_bit_int_eq_self) simp_all
    moreover have "signed_take_bit 31 D = D" unfolding D_def using sint_ge [of "dest - pc - 8"] sint_lt [of "dest - pc - 8"]
      by (intro signed_take_bit_int_eq_self) simp_all
    ultimately show ?thesis by simp
  qed
  also have "\<dots> \<longleftrightarrow> 4 dvd D \<and> - (2 ^ 25) \<le> D \<and> D < 2 ^ 25"
  proof
    assume "4 * s = D"
    then show "4 dvd D \<and> - (2 ^ 25) \<le> D \<and> D < 2 ^ 25" using s by auto
  next
    assume a: "4 dvd D \<and> - (2 ^ 25) \<le> D \<and> D < 2 ^ 25"
    then have "s = D div 4" unfolding s_def by (intro signed_take_bit_int_eq_self) auto
    then show "4 * s = D" using a by simp
  qed
  finally show ?thesis by (simp add: D_def)
qed

lemma jump_back_target:
  assumes "check_jump_range (h + 44) (a + 4)"
  shows "branch_target (h + 48) (B_INSTR (h + 48) (a + 4)) = a + 4 \<longleftrightarrow> a \<noteq> h + 48 - 0x2000000"
proof -
  define D where "D = sint (a + 4 - (h + 44) - 8)"
  have D: "4 dvd D" "- (2 ^ 25) \<le> D" "D < 2 ^ 25"
    using assms by (simp_all add: check_jump_range_iff D_def)
  have w: "a + 4 - (h + 44) - 8 = word_of_int D" by (simp add: D_def)
  have "sint (word_of_int (D - 4) :: u32) = D - 4"
    using D by (subst sint_sbintrunc') (simp add: signed_take_bit_int_eq_self)
  moreover have "a + 4 - (h + 48) - 8 = word_of_int (D - 4)"
  proof -
    have "a + 4 - (h + 48) - 8 = (a + 4 - (h + 44) - 8) - 4" by simp
    then show ?thesis unfolding w by simp
  qed
  ultimately have E: "sint (a + 4 - (h + 48) - 8) = D - 4" by simp
  have "branch_target (h + 48) (B_INSTR (h + 48) (a + 4)) = a + 4 \<longleftrightarrow> D \<noteq> - (2 ^ 25)"
    unfolding check_jump_range_target [symmetric] check_jump_range_iff E using D by auto
  also have "\<dots> \<longleftrightarrow> a \<noteq> h + 48 - 0x2000000"
  proof
    assume "D \<noteq> - (2 ^ 25)"
    show "a \<noteq> h + 48 - 0x2000000"
    proof
      assume "a = h + 48 - 0x2000000"
      then have e: "a + 4 - (h + 44) - 8 = - 0x2000000" by simp
      have "D = - (2 ^ 25)" unfolding D_def e by simp
      then show False using \<open>D \<noteq> _\<close> by simp
    qed
  next
    assume a: "a \<noteq> h + 48 - 0x2000000"
    show "D \<noteq> - (2 ^ 25)"
    proof
      assume "D = - (2 ^ 25)"
      then have "a + 4 - (h + 44) - 8 = - 0x2000000" using w by simp
      then have "a = h + 48 - 0x2000000" by (simp add: algebra_simps)
      then show False using a by simp
    qed
  qed
  finally show ?thesis .
qed

lemma bit_23: "(i :: u32) AND push_bit 23 1 = 0 \<longleftrightarrow> \<not> bit i 23"
proof -
  have "i AND push_bit n 1 = (if bit i n then push_bit n 1 else 0)" for n
    by (rule bit_word_eqI) (auto simp: bit_simps)
  from this [of 23] show ?thesis by simp
qed

lemma reloc_target:
  assumes "reloc_instr pc new_pc fix c = (i, Some d)" and "unat (fix - new_pc - 8) < 4096"
  shows "d = load32 c (ldr_target pc (load32 c pc))" and "ldr_target new_pc i = fix"
    and "i AND 0xFF7FF000 = load32 c pc AND 0xFF7FF000"
proof -
  let ?j = "load32 c pc" and ?o = "fix - new_pc - 8"
  have i: "i = push_bit 23 1 OR (?j AND NOT 0xFFF) OR (?o AND 0xFFF)"
    and d: "d = load32 c (pc + (if ?j AND push_bit 23 1 = 0 then - (?j AND 0xFFF) else ?j AND 0xFFF) + 8)"
    using assms(1) by (auto simp: reloc_instr_def Let_def split: if_splits)
  show "d = load32 c (ldr_target pc ?j)"
    unfolding d ldr_target_def bit_23 by (simp add: ac_simps)
  have "take_bit 12 (unat ?o) = unat ?o" using assms(2) by (simp add: take_bit_nat_eq_self)
  then have "take_bit 12 ?o = ?o" by (metis unsigned_take_bit_eq word_unat_eq_iff)
  then have o: "?o AND 0xFFF = ?o" by (simp add: take_bit_eq_mask mask_eq_exp_minus_1)
  have "bit i 23" unfolding i by (simp add: bit_simps)
  moreover have "i AND 0xFFF = ?o AND 0xFFF" unfolding i by (simp add: bit.conj_disj_distrib2 and.assoc)
  ultimately show "ldr_target new_pc i = fix" unfolding ldr_target_def o by simp
  show "i AND 0xFF7FF000 = ?j AND 0xFF7FF000" unfolding i by (simp add: bit.conj_disj_distrib2 and.assoc)
qed

lemma apply_one_applied:
  assumes r: "apply_one p st = (0, b, p', st')" and al: "addr p AND 3 = 0"
  shows "b" and "is_patch_still_applied p (machine st')"
    and "main (machine st') = (if IS_ROM_PTR (addr p) then main (machine st)
           else wr32 (main (machine st)) (phys (addr p)) (new_value p))"
proof -
  show b: b using apply_one_table(5) [OF r] by blast
  then have "psize p = 4" using apply_one_table(4) [OF r] by blast
  then have "is_patch_still_applied p (machine st') \<and> main (machine st') =
      (if IS_ROM_PTR (addr p) then main (machine st) else wr32 (main (machine st)) (phys (addr p)) (new_value p))"
  proof (cases "IS_ROM_PTR (addr p)")
    case True
    then show ?thesis using r b
      by (auto simp: apply_one_def apply_patch_def Let_def is_patch_still_applied_def patch_errors patch_frame split: if_splits)
  next
    case False
    let ?c = "(machine st)\<lparr>main := wr32 (main (machine st)) (phys (addr p)) (new_value p)\<rparr>"
    have "machine st' = ?c \<or> (\<exists>ps. machine st' = snd (sync_locked_caches ps ?c))"
      using r b apply_patch_ram [OF \<open>psize p = 4\<close> False al] 
      by (auto simp: apply_one_def Let_def case_prod_beta split: if_splits)
    then have "main (machine st') = main ?c" by (auto simp: patch_frame)
    then show ?thesis using False al by (simp add: is_patch_still_applied_def read_value_ram mem_simps)
  qed
  then show "is_patch_still_applied p (machine st')" and "main (machine st') = (if IS_ROM_PTR (addr p) then main (machine st)
           else wr32 (main (machine st)) (phys (addr p)) (new_value p))" by blast+
qed

lemma apply_single_ok:
  assumes "apply_patches [p] st = (0, ps, st')"
  obtains p' b where "apply_one p st = (0, b, p', st')"
  using assms by (auto simp: apply_patches_single case_prod_beta Let_def split: if_splits) (metis prod.collapse)

section \<open>Properties\<close>

text \<open>
  C4: A patch that \<^verbatim>\<open>apply_patches\<close> reports as applied is applied: for a single
  patch at an aligned address of RAM or ROM, code or data, reading the address as the patch type
  reads it gives the new value, the patch is the last entry of the table with the value it
  replaced, and main memory changes in the patched RAM word only; the contents of ROM are never
  written.
\<close>

theorem apply_patches_applied:
  assumes "apply_patches [p] st = (0, ps, st')" and "addr p AND 3 = 0"
  shows "is_patch_still_applied p (machine st')
    \<and> patches_global st' = patches_global st @ [p]
    \<and> addr p \<notin> addr ` set (patches_global st)
    \<and> read_value (addr p) (is_instruction p) (machine st) = old_value p
    \<and> main (machine st') = (if IS_ROM_PTR (addr p) then main (machine st)
        else wr32 (main (machine st)) (phys (addr p)) (new_value p))"
proof -
  obtain p' b where r: "apply_one p st = (0, b, p', st')" using assms(1) by (rule apply_single_ok)
  note a = apply_one_applied [OF r assms(2)]
  have "read_value (addr p) (is_instruction p) (machine st) = old_value p"
    using r a(1) by (auto simp: apply_one_def patch_errors Let_def split: if_splits)
  then show ?thesis using a apply_one_table [OF r] by simp
qed

text \<open>
  C2: Patching a RAM word and unpatching it restores the camera: an acceptable patch (4 bytes, the
  expected old value, a new address, room in the table) of an aligned RAM address is applied without
  error, and \<^verbatim>\<open>unpatch_memory\<close> of the same address then succeeds and gives back
  the whole memory and the patch table. A patch of code is assumed to find the
  cache unlocked.
\<close>

theorem unpatch_undoes_patch:
  assumes "acceptable p st" and "\<not> IS_ROM_PTR (addr p)" and "addr p AND 3 = 0"
    and "is_instruction p \<Longrightarrow> \<not> cache_locked (machine st)"
  shows "\<exists>ps st1 st2. apply_patches [p] st = (0, ps, st1) \<and> is_patch_still_applied p (machine st1)
    \<and> unpatch_memory (addr p) st1 = (0, st2)
    \<and> main (machine st2) = main (machine st) \<and> patches_global st2 = patches_global st"
proof -
  obtain p' st1 where r: "apply_one p st = (0, True, p', st1)"
    and s1: "st1 = st\<lparr>machine := (machine st)\<lparr>main := wr32 (main (machine st)) (phys (addr p)) (new_value p)\<rparr>,
       patches_global := patches_global st @ [p]\<rparr>"
    using apply_one_acceptable [OF assms] by blast
  have ap: "is_patch_still_applied p (machine st1)" using apply_one_applied(2) [OF r assms(3)] .
  have fr: "find_index (\<lambda>q. addr q = addr p) (patches_global st1) = Some (length (patches_global st))"
    using assms(1) by (simp add: s1 find_index_fresh acceptable_def)
  have "unpatch_memory (addr p) st1 = (0, snd (unpatch_memory (addr p) st1))
      \<and> main (machine (snd (unpatch_memory (addr p) st1))) = main (machine st)
      \<and> patches_global (snd (unpatch_memory (addr p) st1)) = patches_global st"
  proof -
    have "old_value p = rd32 (main (machine st)) (phys (addr p))"
      using assms(1-3) by (simp add: acceptable_def read_value_ram)
    then show ?thesis
      using unpatch_ram [OF fr _ _ _ assms(2,3), of p "patches_global st"] ap assms(1,4)
      by (simp add: s1 acceptable_def cache_locked_def patch_frame mem_simps)
  qed
  then show ?thesis using r ap by (auto simp: apply_patches_single)
qed

text \<open>
  C7: Over all sequences of the public operations, with any arguments and any outcome: the table never
  holds more than 32 patches, no address twice, and only patches of 4 bytes, and
  the ROM contents stay as they were at startup.
\<close>

theorem patch_table_invariant:
  assumes "patch_reach m st"
  shows "length (patches_global st) \<le> 32 \<and> distinct (map addr (patches_global st))
    \<and> list_all (\<lambda>p. psize p = 4) (patches_global st)
    \<and> (\<forall>a. a > 0xF0000003 \<longrightarrow> main (machine st) a = m a)"
  using patch_reach_inv [OF assms] by (simp add: patch_inv_def rom_kept_def MAX_PATCHES_def)

text \<open>
  C28: Removing the last ROM patch leaves no trace: \<^verbatim>\<open>unpatch_memory\<close> returns
  without error, the patch is off the table, the caches are unlocked, and instruction fetches and
  loads see main memory at every address.
\<close>

theorem unpatch_last_rom_patch:
  assumes "find_index (\<lambda>p. addr p = a) (patches_global st) = Some i"
    and "psize (patches_global st ! i) = 4" and "is_patch_still_applied (patches_global st ! i) (machine st)"
    and "IS_ROM_PTR a" and "\<not> list_ex (\<lambda>p. IS_ROM_PTR (addr p)) (remove_at i (patches_global st))"
  shows "\<exists>st'. unpatch_memory a st = (0, st') \<and> patches_global st' = remove_at i (patches_global st)
    \<and> \<not> cache_locked (machine st') \<and> main (machine st') = main (machine st)
    \<and> (\<forall>t b. view t (machine st') b = rd32 (main (machine st)) (phys b))"
proof -
  let ?c = "cache_unlock (cache_lock (cache_unlock (machine st)))"
  have "check_cache_lock_still_needed (remove_at i (patches_global st)) (cache_lock (cache_unlock (machine st))) = ?c"
    using assms(5) by (simp add: check_cache_lock_still_needed_def set_cache_lock_state_def cache_locked_def patch_frame)
  moreover have "view t ?c b = rd32 (main (machine st)) (phys b)" for t b
    using view_unlock [of t "cache_lock (cache_unlock (machine st))" b] by (simp add: patch_frame)
  ultimately show ?thesis
    using assms by (simp add: unpatch_memory_def Let_def reapply_no_rom E_UNPATCH_OK_def cache_locked_def patch_frame)
qed

text \<open>
  C34: A refused patch removes the patch that was there. The comment on \<^verbatim>\<open>apply_patches\<close>
  promises all or nothing; but when an address is already patched, here in RAM data, the error path
  calls \<^verbatim>\<open>unpatch_memory\<close> for every patch of the request,
  which undoes the earlier patch of some other user: the table loses it and memory
  has its old value again.
\<close>

theorem refused_patch_undoes_earlier_patch:
  assumes "psize p = 4" and "find_index (\<lambda>q. addr q = addr p) (patches_global st) = Some i"
    and "psize (patches_global st ! i) = 4" and "is_patch_still_applied (patches_global st ! i) (machine st)"
    and "\<not> IS_ROM_PTR (addr p)" and "addr p AND 3 = 0" and "\<not> cache_locked (machine st)"
  shows "\<exists>ps st'. apply_patches [p] st = (E_PATCH_ALREADY_PATCHED, ps, st')
    \<and> patches_global st' = remove_at i (patches_global st)
    \<and> read_value (addr p) (is_instruction p) (machine st') = old_value (patches_global st ! i)"
proof -
  have "list_ex (\<lambda>q. addr q = addr p) (patches_global st)"
    using find_index_SomeD [OF assms(2)] by (auto simp: list_ex_iff)
  then have "apply_one p st = (E_PATCH_ALREADY_PATCHED, False, p, st)"
    using assms(1) by (simp add: apply_one_def)
  then show ?thesis
    using unpatch_ram [OF assms(2) refl assms(3-6) refl] assms(5-7)
    by (simp add: apply_patches_single patch_errors read_value_ram patch_frame mem_simps)
qed

text \<open>
  The other half of all or nothing fails too. Applying a patch of RAM code changes
  the address in the caller's array to its uncacheable alias, under which the
  error path does not find the patch in the table: when a later patch of the request is refused, here for its size,
  \<^verbatim>\<open>apply_patches\<close> returns an error with the first patch still applied and on the table.
\<close>

theorem failed_request_keeps_code_patch:
  assumes "acceptable p st" and "is_instruction p" and "addr p < 0x40000000" and "addr p AND 3 = 0"
    and "\<not> cache_locked (machine st)" and "psize q \<noteq> 4"
    and "UNCACHEABLE (addr p) \<notin> addr ` set (patches_global st)"
    and "addr q \<notin> addr ` set (patches_global st)" and "addr q \<noteq> addr p"
  shows "\<exists>ps st'. apply_patches [p, q] st = (E_PATCH_UNKNOWN_ERROR, ps, st')
    \<and> patches_global st' = patches_global st @ [p] \<and> is_patch_still_applied p (machine st')"
proof -
  have rom: "\<not> IS_ROM_PTR (addr p)" using assms(3) by (simp add: IS_ROM_PTR_def word_less_nat_alt)
  obtain st1 where r: "apply_one p st = (0, True, p\<lparr>addr := UNCACHEABLE (addr p)\<rparr>, st1)"
    and t: "patches_global st1 = patches_global st @ [p]"
    using apply_one_acceptable [OF assms(1) rom assms(4)] assms(2,5) by simp
  have ne: "UNCACHEABLE (addr p) \<noteq> addr p"
  proof -
    have "unat (addr p) < 2 ^ 30" using assms(3) by (simp add: word_less_nat_alt)
    then show ?thesis by (simp add: UNCACHEABLE_low)
  qed
  have nf: "unpatch_memory x st1 = (0, st1)" if "x \<notin> addr ` set (patches_global st)" "x \<noteq> addr p" for x
  proof -
    have "find_index (\<lambda>p. addr p = x) (patches_global st1) = None"
      using that unfolding find_index_None t by auto
    then show ?thesis by (simp add: unpatch_memory_def E_UNPATCH_OK_def)
  qed
  have "apply_one q st1 = (E_PATCH_UNKNOWN_ERROR, False, q, st1)"
    using assms(6) by (simp add: apply_one_def)
  then have "apply_patches [p, q] st = (E_PATCH_UNKNOWN_ERROR, [p\<lparr>addr := UNCACHEABLE (addr p)\<rparr>, q], st1)"
    using r nf [OF assms(7) ne] nf [OF assms(8,9)] by (simp add: apply_patches_def patch_errors)
  then show ?thesis using t apply_one_applied(2) [OF r assms(4)] by blast
qed

text \<open>
  C33: \<^verbatim>\<open>check_jump_range\<close> is exact: it accepts a jump if and only if the branch
  instruction that \<^verbatim>\<open>B_INSTR\<close> encodes goes to the destination, that is, if and only if
  the distance is a multiple of 4 within 32 MB of the pipelined program counter. The 64-bit arithmetic
  of the check never misjudges an address near either end of the address space.
\<close>

theorem check_jump_range_exact:
  "(check_jump_range pc dest \<longleftrightarrow> branch_target pc (B_INSTR pc dest) = dest)
   \<and> (check_jump_range pc dest \<longleftrightarrow>
       4 dvd sint (dest - pc - 8) \<and> - (2 ^ 25) \<le> sint (dest - pc - 8) \<and> sint (dest - pc - 8) < 2 ^ 25)"
  using check_jump_range_target check_jump_range_iff by blast

text \<open>
  A relocated load relative to the program counter reads the same word: if \<^verbatim>\<open>reloc_instr\<close>
  moves a load, the word it stores at the fixup is the one the original instruction
  addresses, the new instruction addresses the fixup, and apart from the direction and the offset
  the instruction is the same. The fixup is within reach, as it is in the hook code.
\<close>

theorem reloc_instr_loads_same_word:
  assumes "reloc_instr pc new_pc fix c = (i, Some d)" and "unat (fix - new_pc - 8) < 4096"
  shows "d = load32 c (ldr_target pc (load32 c pc)) \<and> ldr_target new_pc i = fix
    \<and> i AND 0xFF7FF000 = load32 c pc AND 0xFF7FF000"
  using reloc_target [OF assms] by blast

text \<open>
  C11: A hook that \<^verbatim>\<open>patch_hook_function\<close> installs is wired correctly: the patched
  instruction branches to the hook code in a slot that was free, the two loads of the hook code
  find the patched address and the hook function among the words of the slot, and the
  jump back goes to the instruction after the patched one. The last holds except
  for one distance: the range check is made for the word before the jump, so a hook 32 MB and 4
  bytes away passes the check and jumps back to the wrong address.
\<close>

theorem patch_hook_function_wired:
  assumes "patch_hook_function a orig f descr st = (0, st')" and "a AND 3 = 0"
  shows "\<exists>slot < length (function_hooks st). haddr (function_hooks st ! slot) = 0
    \<and> (let h = function_hooks st' ! slot; h_at = hook_addr st slot in
         branch_target a (read_value a True (machine st')) = h_at
       \<and> hook_words h ! (unat (ldr_target (4 * 5) (hook_words h ! 5)) div 4) = a
       \<and> hook_words h ! (unat (ldr_target (4 * 7) (hook_words h ! 7)) div 4) = f
       \<and> (branch_target (h_at + 48) (jump_back h) = a + 4 \<longleftrightarrow> a \<noteq> h_at + 48 - 0x2000000))"
proof -
  obtain slot where s: "find_index (\<lambda>h. haddr h = 0) (function_hooks st) = Some slot"
    using assms(1) by (auto simp: patch_hook_function_def patch_errors split: option.splits)
  define h_at where "h_at = hook_addr st slot"
  define p where "p = \<lparr>addr = a, old_value = orig, new_value = B_INSTR a h_at, psize = 4,
    description = descr, is_instruction = True\<rparr>"
  have j: "check_jump_range (h_at + 44) (a + 4)" "check_jump_range a h_at"
    using assms(1) s by (auto simp: patch_hook_function_def patch_errors Let_def h_at_def split: if_splits)
  define code where "code = \<lparr>arm_asm = hook_asm, reloc_insn = fst (reloc_instr a (h_at + 44) (h_at + 56) (machine st)),
    jump_back = B_INSTR (h_at + 48) (a + 4), haddr = a,
    fixup = (case snd (reloc_instr a (h_at + 44) (h_at + 56) (machine st)) of Some d \<Rightarrow> d | None \<Rightarrow> fixup (function_hooks st ! slot)),
    hook_function = f\<rparr>"
  define c where "c = snd (sync_locked_caches (patches_global st) (machine st))"
  define r where "r = apply_patches [p] (st\<lparr>machine := c, function_hooks := (function_hooks st)[slot := code]\<rparr>)"
  have "patch_hook_function a orig f descr st =
    (if fst r \<noteq> 0 then (fst r, (snd (snd r))\<lparr>function_hooks := (function_hooks (snd (snd r)))[slot := zero_hook]\<rparr>)
     else (fst r, snd (snd r)))"
    using s j by (simp add: patch_hook_function_def Let_def case_prod_beta p_def r_def c_def code_def flip: h_at_def)
  then have "r = (0, fst (snd r), st')" using assms(1) by (metis prod.collapse prod.inject)
  then have ap: "apply_patches [p] (st\<lparr>machine := c, function_hooks := (function_hooks st)[slot := code]\<rparr>) = (0, fst (snd r), st')"
    by (simp add: r_def)
  obtain p' b where r: "apply_one p (st\<lparr>machine := c, function_hooks := (function_hooks st)[slot := code]\<rparr>) = (0, b, p', st')"
    using ap by (rule apply_single_ok)
  have "addr p AND 3 = 0" using assms(2) by (simp add: p_def)
  then have "read_value a True (machine st') = B_INSTR a h_at"
    using apply_one_applied(2) [OF r] by (simp add: is_patch_still_applied_def p_def)
  then have b: "branch_target a (read_value a True (machine st')) = h_at"
    using j(2) by (simp add: check_jump_range_target)
  have sl: "slot < length (function_hooks st)" "haddr (function_hooks st ! slot) = 0"
    using find_index_SomeD [OF s] by simp_all
  then have h: "function_hooks st' ! slot = code" using apply_one_table(1) [OF r] by simp
  have "hook_words code ! (unat (ldr_target (4 * 5) (hook_words code ! 5)) div 4) = a"
    "hook_words code ! (unat (ldr_target (4 * 7) (hook_words code ! 7)) div 4) = f"
    by (simp_all add: hook_words_def code_def hook_asm_def ldr_target_def)
  then show ?thesis using sl b jump_back_target [OF j(1)]
    by (intro exI [of _ slot]) (simp add: h Let_def code_def flip: h_at_def)
qed

section \<open>Sample states\<close>

lemma booted_word: "read_value 0x1000 i (machine booted) = 0x03020100"
  by (subst read_value_ram) (simp_all add: IS_ROM_PTR_def booted_def rom_cpu_def rd32_def phys_def CACHEABLE_def)

lemma sample_acceptable: "acceptable sample_patch booted"
  by (simp add: acceptable_def sample_patch_def booted_word) (simp add: booted_def MAX_PATCHES_def)

lemma sample_ram: "\<not> IS_ROM_PTR (addr sample_patch)" "addr sample_patch AND 3 = 0" "\<not> cache_locked (machine booted)"
  "psize sample_patch = 4" "addr sample_patch = 0x1000"
  by (simp_all add: sample_patch_def IS_ROM_PTR_def booted_def cache_locked_def)

lemma sample_applies:
  "apply_patches [sample_patch] booted = (0, fst (snd (apply_patches [sample_patch] booted)), patched)"
  "patches_global patched = [sample_patch]" "is_patch_still_applied sample_patch (machine patched)"
  "\<not> cache_locked (machine patched)"
proof -
  have r: "apply_one sample_patch booted = (0, True, sample_patch\<lparr>addr := UNCACHEABLE (addr sample_patch)\<rparr>,
    booted\<lparr>machine := (machine booted)\<lparr>main := wr32 (main (machine booted)) (phys (addr sample_patch)) (new_value sample_patch)\<rparr>,
       patches_global := patches_global booted @ [sample_patch]\<rparr>)" (is "_ = (_, _, _, ?st)")
    using apply_one_acceptable [OF sample_acceptable sample_ram(1,2)] sample_ram(3) by (simp add: sample_patch_def)
  then have p: "patched = ?st" by (simp add: patched_def apply_patches_single)
  show "apply_patches [sample_patch] booted = (0, fst (snd (apply_patches [sample_patch] booted)), patched)"
    using r by (simp add: apply_patches_single patched_def)
  show "patches_global patched = [sample_patch]" unfolding p by (simp add: booted_def)
  show "is_patch_still_applied sample_patch (machine patched)"
    unfolding p using apply_one_applied(2) [OF r sample_ram(2)] .
  show "\<not> cache_locked (machine patched)" unfolding p using sample_ram(3) by (simp add: cache_locked_def)
qed

theorem apply_patches_applied_witness:
  "patches_global patched = [sample_patch] \<and> is_patch_still_applied sample_patch (machine patched)"
  using apply_patches_applied [OF sample_applies(1) sample_ram(2)] by (simp add: booted_def)

theorem unpatch_undoes_patch_witness:
  "\<exists>ps st1 st2. apply_patches [sample_patch] booted = (0, ps, st1) \<and> is_patch_still_applied sample_patch (machine st1)
    \<and> unpatch_memory 0x1000 st1 = (0, st2) \<and> main (machine st2) = main (machine booted)"
  using unpatch_undoes_patch [OF sample_acceptable sample_ram(1,2)] sample_ram(3,5) by fastforce

theorem patch_table_invariant_witness:
  "patches_global patched = [sample_patch] \<and> main (machine patched) 0xFF010001 = 1"
proof -
  have "patch_reach (main (machine booted)) booted"
    by (rule patch_reach.boot) (simp_all add: booted_def)
  then have "patch_reach (main (machine booted)) patched"
    unfolding patched_def by (rule patch_reach.apply_step)
  from patch_table_invariant [OF this] sample_applies(2) show ?thesis by (simp add: booted_def rom_cpu_def)
qed

theorem unpatch_last_rom_patch_witness:
  "\<exists>st'. unpatch_memory 0xFF010004 rom_patched = (0, st') \<and> patches_global st' = []
    \<and> \<not> cache_locked (machine st') \<and> view DCACHE (machine st') 0xFF010004 = 0x07060504"
proof -
  have v: "view DCACHE (machine rom_patched) 0xFF010004 = 7"
    unfolding rom_patched_def patch_state.select_convs
    by (subst cache_fake_view) (simp_all add: IS_ROM_PTR_def patchable_eq cache_of_def rom_cpu_def)
  then have "is_patch_still_applied (patches_global rom_patched ! 0) (machine rom_patched)"
    by (simp add: is_patch_still_applied_def read_value_def load_value_def load32_aligned load_word_eq_view)
      (simp add: rom_patched_def load_value_def load32_aligned load_word_eq_view)
  moreover have "rd32 (main (machine rom_patched)) (phys 0xFF010004) = 0x07060504"
    by (simp add: rom_patched_def patch_frame rom_cpu_def rd32_def phys_def)
  ultimately show ?thesis
    using unpatch_last_rom_patch [of "0xFF010004" rom_patched 0]
    by (auto simp: IS_ROM_PTR_def rom_patched_def remove_at_def)
qed

theorem refused_patch_undoes_earlier_patch_witness:
  "\<exists>ps st'. apply_patches [sample_patch] patched = (E_PATCH_ALREADY_PATCHED, ps, st') \<and> patches_global st' = []
    \<and> read_value 0x1000 True (machine st') = 0x03020100"
  using refused_patch_undoes_earlier_patch [of sample_patch patched 0] sample_applies sample_ram
  by (auto simp: sample_patch_def remove_at_def)

theorem failed_request_keeps_code_patch_witness:
  "\<exists>ps st'. apply_patches [sample_patch, sample_patch\<lparr>addr := 0x2000, psize := 2\<rparr>] booted = (E_PATCH_UNKNOWN_ERROR, ps, st')
    \<and> patches_global st' = [sample_patch] \<and> is_patch_still_applied sample_patch (machine st')"
  using failed_request_keeps_code_patch [OF sample_acceptable, of "sample_patch\<lparr>addr := 0x2000, psize := 2\<rparr>"] sample_ram
  by (simp add: sample_patch_def booted_def)

theorem reloc_instr_loads_same_word_witness:
  "ldr_target 0x40002C (fst (reloc_instr 0x1000 0x40002C 0x400038
     (rom_cpu\<lparr>main := wr32 (main rom_cpu) 0x1000 0xE59F0004\<rparr>))) = 0x400038"
proof -
  let ?c = "rom_cpu\<lparr>main := wr32 (main rom_cpu) 0x1000 0xE59F0004\<rparr>"
  have "load32 ?c 0x1000 = 0xE59F0004"
    by (simp add: load32_aligned load_word_def IS_ROM_PTR_def phys_def CACHEABLE_def mem_simps)
  then have "\<exists>i d. reloc_instr 0x1000 0x40002C 0x400038 ?c = (i, Some d)"
    by (simp add: reloc_instr_def Let_def LOAD_MASK_def LOAD_INSTR_def REG_PC_def)
  then show ?thesis using reloc_instr_loads_same_word [of "0x1000" "0x40002C" "0x400038" ?c] by auto
qed

theorem patch_hook_function_wired_witness:
  "\<exists>st' slot. patch_hook_function 0x1000 0x03020100 0x500000 None booted = (0, st')
    \<and> branch_target 0x1000 (read_value 0x1000 True (machine st')) = hook_addr booted slot"
proof -
  have s: "find_index (\<lambda>h. haddr h = 0) (function_hooks booted) = Some 0"
    by (simp add: find_index_Some booted_def zero_hook_def MAX_FUNCTION_HOOKS_def)
  have h: "hook_addr booted 0 = 0x400000" by (simp add: hook_addr_def booted_def)
  have j: "check_jump_range 0x40002C 0x1004" "check_jump_range 0x1000 0x400000"
    by (simp_all add: check_jump_range_iff)
  have acc: "acceptable \<lparr>addr = 0x1000, old_value = 0x03020100, new_value = B_INSTR 0x1000 0x400000, psize = 4,
    description = None, is_instruction = True\<rparr> (booted\<lparr>function_hooks := hs\<rparr>)" for hs
    using booted_word [of True] by (simp add: acceptable_def) (simp add: booted_def MAX_PATCHES_def)
  have "fst (patch_hook_function 0x1000 0x03020100 0x500000 None booted) = 0"
    using s h j sample_ram(3) apply_one_acceptable [OF acc]
    by (simp add: patch_hook_function_def Let_def case_prod_beta sync_unlocked apply_patches_single IS_ROM_PTR_def)
  then obtain st' where r: "patch_hook_function 0x1000 0x03020100 0x500000 None booted = (0, st')"
    by (metis prod.collapse)
  from patch_hook_function_wired [OF this] show ?thesis unfolding Let_def by (auto simp: r)
qed

end
