(* ===== verification/ML_Reloc.thy ===== *)
theory ML_Reloc
  imports ML_Patch
begin

text \<open>
  Relocation of ARM code, \<^verbatim>\<open>src/src/reloc.c\<close>: a function of Canon's firmware is copied
  to another address, and its instructions that address memory relative to the program counter
  are fixed up. Branches out of the function get a new offset; loads and address computations
  refer to a table of at most 16 words in front of the copy. The model works on the byte
  memory, with the loads of ARMv5 for the words that are read.
\<close>

section \<open>Instruction fields\<close>

definition BRANCH_MASK :: u32 where "BRANCH_MASK = 0x0F000000"
definition BRANCH_LINK :: u32 where "BRANCH_LINK = 0x0B000000"
definition BRANCH_INSTR :: u32 where "BRANCH_INSTR = 0x0A000000"
definition BRANCH_OFFSET :: u32 where "BRANCH_OFFSET = 0x00FFFFFF"
definition ADD_MASK :: u32 where "ADD_MASK = 0x0DE00000"
definition ADD_INSTR :: u32 where "ADD_INSTR = 0x00800000"

definition ldr :: "memory \<Rightarrow> u32 \<Rightarrow> u32" where
  "ldr m a = word_rotr (8 * unat (a AND 3)) (rd32 m (a AND NOT 3))"

definition str :: "memory \<Rightarrow> u32 \<Rightarrow> u32 \<Rightarrow> memory" where
  "str m a v = wr32 m (a AND NOT 3) v"

section \<open>One instruction\<close>

text \<open>
  What to write for one instruction: the word for the copy and, if there is one, the word for the next
  entry of the fixup table.
\<close>

type_synonym fixed = "u32 \<times> u32 option"

definition inside :: "u32 \<Rightarrow> u32 \<Rightarrow> u32 \<Rightarrow> bool" where
  "inside func_offset func_end dest \<longleftrightarrow> func_offset \<le> dest \<and> dest < func_end"

definition branch_offset :: "u32 \<Rightarrow> u32" where
  "branch_offset instr =
     (let offset = instr AND BRANCH_OFFSET
      in if offset AND 0x00800000 \<noteq> 0 then offset OR 0xFF000000 else offset)"

definition fix_branch :: "u32 \<Rightarrow> u32 \<Rightarrow> u32 \<Rightarrow> u32 \<Rightarrow> u32 \<Rightarrow> fixed" where
  "fix_branch func_offset func_end pc new_pc instr =
     (let dest = pc + push_bit 2 (branch_offset instr) + 8
      in if inside func_offset func_end dest then (instr, None)
         else
           (let new_jump = signed_drop_bit 2 (dest - new_pc - 8)
            in if sint new_jump \<ge> 0x00800000 \<or> sint new_jump \<le> - 0x00800000 then (instr, None)
               else ((instr AND NOT BRANCH_OFFSET) OR (new_jump AND BRANCH_OFFSET), None)))"

definition add_offset :: "u32 \<Rightarrow> u32" where
  "add_offset instr =
     (let shift = unat (push_bit 1 (drop_bit 8 instr AND 0xF));
          imm = instr AND 0xFF;
          offset = drop_bit shift imm
      in if shift > 8 then offset OR push_bit (32 - shift) imm else offset)"

text \<open>The sign bit and the offset of a load of the word at \<open>fixups\<close> from \<open>new_pc\<close>.\<close>

definition fixup_operand :: "u32 \<Rightarrow> u32 \<Rightarrow> u32" where
  "fixup_operand fixups new_pc =
     (let new_offset = fixups - new_pc - 8
      in if sint new_offset < 0 then - new_offset AND 0xFFF
         else (0x800000 :: u32) OR (new_offset AND 0xFFF))"

definition fix_add :: "u32 \<Rightarrow> u32 \<Rightarrow> u32 \<Rightarrow> u32 \<Rightarrow> u32 \<Rightarrow> u32 \<Rightarrow> fixed" where
  "fix_add func_offset func_end pc new_pc fixups instr =
     (let reg_base = drop_bit 16 instr AND 0xF;
          reg_dest = drop_bit 12 instr AND 0xF
      in if reg_base \<noteq> REG_PC then (instr, None)
         else if reg_dest = REG_PC then (instr, None)
         else if instr AND push_bit 25 1 = 0 then (instr, None)
         else
           (let dest = pc + 8 + add_offset instr
            in if inside func_offset func_end dest then (instr, None)
               else ((instr AND 0xF000F000) OR 0x051F0000 OR fixup_operand fixups new_pc, Some dest)))"

definition load_offset :: "u32 \<Rightarrow> u32" where
  "load_offset instr = (let offset = instr AND 0xFFF in if instr AND push_bit 23 1 = 0 then - offset else offset)"

text \<open>\<open>off\<close> is the difference between the buffer and the address the code was linked for.\<close>

definition fix_load :: "u32 \<Rightarrow> u32 \<Rightarrow> u32 \<Rightarrow> u32 \<Rightarrow> u32 \<Rightarrow> u32 \<Rightarrow> u32 \<Rightarrow> memory \<Rightarrow> fixed" where
  "fix_load off func_offset func_end pc new_pc fixups instr m =
     (let reg_base = drop_bit 16 instr AND 0xF
      in if reg_base \<noteq> REG_PC then (instr, None)
         else
           (let dest = pc + load_offset instr + 8
            in if inside func_offset func_end dest then (instr, None)
               else ((instr AND 0xFF7FF000) OR fixup_operand fixups new_pc, Some (ldr m (dest + off)))))"

definition fix_instr :: "u32 \<Rightarrow> u32 \<Rightarrow> u32 \<Rightarrow> u32 \<Rightarrow> u32 \<Rightarrow> u32 \<Rightarrow> u32 \<Rightarrow> memory \<Rightarrow> fixed" where
  "fix_instr off func_offset func_end pc new_pc fixups instr m =
     (if instr AND BRANCH_MASK = BRANCH_LINK \<or> instr AND BRANCH_MASK = BRANCH_INSTR
      then fix_branch func_offset func_end pc new_pc instr
      else if instr AND ADD_MASK = ADD_INSTR then fix_add func_offset func_end pc new_pc fixups instr
      else if instr AND LOAD_MASK = LOAD_INSTR then fix_load off func_offset func_end pc new_pc fixups instr m
      else (instr, None))"

section \<open>The loop\<close>

text \<open>
  The instruction is copied first; the data word of a load is read after that. The fixup is
  written before the new instruction.
\<close>

definition reloc_step :: "u32 \<Rightarrow> u32 \<Rightarrow> u32 \<Rightarrow> u32 \<Rightarrow> u32 \<Rightarrow> u32 \<Rightarrow> memory \<Rightarrow> u32 \<times> memory" where
  "reloc_step off func_offset func_end pc new_pc fixups m =
     (let instr = ldr m (pc + off);
          m1 = str m new_pc instr;
          (new_instr, fixup) = fix_instr off func_offset func_end pc new_pc fixups instr m1
      in case fixup of
           None \<Rightarrow> (fixups, str m1 new_pc new_instr)
         | Some d \<Rightarrow> (fixups + 4, str (str m1 fixups d) new_pc new_instr))"

partial_function (option) reloc_loop ::
  "u32 \<Rightarrow> u32 \<Rightarrow> u32 \<Rightarrow> u32 \<Rightarrow> u32 \<Rightarrow> u32 \<Rightarrow> memory \<Rightarrow> (u32 \<times> memory) option" where
  "reloc_loop off func_offset func_end pc new_pc fixups m =
     (if pc < func_end then
        (let (fixups', m') = reloc_step off func_offset func_end pc new_pc fixups m
         in reloc_loop off func_offset func_end (pc + 4) (new_pc + 4) fixups' m')
      else Some (fixups, m))"

text \<open>
  The entry point and the memory. The wait at the end does not return if the fixups ran into
  the code.
\<close>

definition reloc :: "u32 \<Rightarrow> u32 \<Rightarrow> u32 \<Rightarrow> u32 \<Rightarrow> u32 \<Rightarrow> memory \<Rightarrow> (u32 \<times> memory) option" where
  "reloc buf load_addr func_offset func_end new_pc m =
     (let off = buf - load_addr; entry = new_pc + 64
      in case reloc_loop off func_offset func_end func_offset entry new_pc m of
           None \<Rightarrow> None
         | Some (fixups, m') \<Rightarrow> if sint (entry - fixups) < 0 then None else Some (entry, m'))"

section \<open>Specification\<close>

text \<open>
  The words of the copy and of the fixup table as a function of the original memory alone: what
  \<^verbatim>\<open>reloc\<close> is meant to write for \<open>n\<close> instructions.
\<close>

fun reloc_plan :: "u32 \<Rightarrow> u32 \<Rightarrow> u32 \<Rightarrow> memory \<Rightarrow> u32 \<Rightarrow> u32 \<Rightarrow> u32 \<Rightarrow> nat \<Rightarrow> u32 list \<times> u32 list" where
  "reloc_plan off fo fe m pc new_pc fixups 0 = ([], [])"
| "reloc_plan off fo fe m pc new_pc fixups (Suc n) =
     (let (w, d) = fix_instr off fo fe pc new_pc fixups (ldr m (pc + off)) m;
          (ws, ds) = reloc_plan off fo fe m (pc + 4) (new_pc + 4) (case d of None \<Rightarrow> fixups | Some _ \<Rightarrow> fixups + 4) n
      in (w # ws, case d of None \<Rightarrow> ds | Some x \<Rightarrow> x # ds))"

text \<open>The address \<open>d\<close> bytes behind \<open>q\<close>.\<close>

definition addr_at :: "u32 \<Rightarrow> nat \<Rightarrow> u32" where
  "addr_at q d = q + of_nat d"

text \<open>The word at \<open>a\<close> is apart from the \<open>len\<close> bytes at \<open>q\<close>.\<close>

definition apart :: "u32 \<Rightarrow> nat \<Rightarrow> u32 \<Rightarrow> bool" where
  "apart q len a \<longleftrightarrow> (\<forall>k < 4. \<forall>d < len. (a AND NOT 3) + of_nat k \<noteq> addr_at q d)"

text \<open>The addresses that are read for the instruction at \<open>pc\<close>.\<close>

definition reads :: "u32 \<Rightarrow> memory \<Rightarrow> u32 \<Rightarrow> u32 list" where
  "reads off m pc = [pc + off, pc + load_offset (ldr m (pc + off)) + 8 + off]"

definition source_apart :: "u32 \<Rightarrow> u32 \<Rightarrow> memory \<Rightarrow> u32 \<Rightarrow> nat \<Rightarrow> nat \<Rightarrow> bool" where
  "source_apart off q m pc n len \<longleftrightarrow> (\<forall>k < n. list_all (apart q len) (reads off m (addr_at pc (4 * k))))"

definition same_outside :: "u32 \<Rightarrow> nat \<Rightarrow> memory \<Rightarrow> memory \<Rightarrow> bool" where
  "same_outside q len m m' \<longleftrightarrow> (\<forall>a. (\<forall>d < len. a \<noteq> addr_at q d) \<longrightarrow> m' a = m a)"

text \<open>
  What is in the target area: the words \<open>ws\<close> of the copy from the \<open>j\<close>th on and the words \<open>ds\<close> of the table
  from the \<open>f\<close>th on.
\<close>

definition holds_words :: "u32 \<Rightarrow> nat \<Rightarrow> u32 list \<Rightarrow> nat \<Rightarrow> u32 list \<Rightarrow> memory \<Rightarrow> bool" where
  "holds_words q j ws f ds m \<longleftrightarrow>
     (\<forall>i < length ws. rd32 m (addr_at q (64 + 4 * (j + i))) = ws ! i)
   \<and> (\<forall>i < length ds. rd32 m (addr_at q (4 * (f + i))) = ds ! i)"

definition keeps_words :: "u32 \<Rightarrow> nat \<Rightarrow> nat \<Rightarrow> memory \<Rightarrow> memory \<Rightarrow> bool" where
  "keeps_words q j f m m' \<longleftrightarrow>
     (\<forall>i < j. rd32 m' (addr_at q (64 + 4 * i)) = rd32 m (addr_at q (64 + 4 * i)))
   \<and> (\<forall>i < f. rd32 m' (addr_at q (4 * i)) = rd32 m (addr_at q (4 * i)))"

definition write_step :: "u32 \<Rightarrow> nat \<Rightarrow> nat \<Rightarrow> u32 \<Rightarrow> u32 \<Rightarrow> u32 option \<Rightarrow> memory \<Rightarrow> memory" where
  "write_step q j f i0 w d m =
     (let p = addr_at q (64 + 4 * j); m1 = wr32 m p i0
      in case d of None \<Rightarrow> wr32 m1 p w | Some x \<Rightarrow> wr32 (wr32 m1 (addr_at q (4 * f)) x) p w)"

text \<open>
  An addition of an immediate to the program counter, which does not set the flags, and the address
  that it computes, with the rotated immediate.
\<close>

definition pc_add :: "u32 \<Rightarrow> bool" where
  "pc_add instr \<longleftrightarrow> instr AND 0x0FFF0000 = 0x028F0000"

definition adr_shift :: "u32 \<Rightarrow> nat" where
  "adr_shift instr = unat (push_bit 1 (drop_bit 8 instr AND 0xF))"

definition adr_target :: "u32 \<Rightarrow> u32 \<Rightarrow> u32" where
  "adr_target pc instr = pc + 8 + word_rotr (adr_shift instr) (instr AND 0xFF)"

text \<open>The value that a load of a byte or of a word takes from an address.\<close>

definition loaded :: "memory \<Rightarrow> u32 \<Rightarrow> u32 \<Rightarrow> u32" where
  "loaded m instr a = (if bit instr 22 then ucast (m a) else ldr m a)"

text \<open>Two instructions, \<^verbatim>\<open>ldr r0, [pc, #0x100]\<close> and \<^verbatim>\<open>bx lr\<close>.\<close>

definition sample_code :: memory where
  "sample_code = wr32 (wr32 (\<lambda>_. 0x11) 0x1000 0xE59F0100) 0x1004 0xE12FFF1E"

lemma ldr_same: "same_outside q len m m' \<Longrightarrow> apart q len a \<Longrightarrow> ldr m' a = ldr m a"
proof -
  assume s: "same_outside q len m m'" and a: "apart q len a"
  have "m' ((a AND NOT 3) + of_nat k) = m ((a AND NOT 3) + of_nat k)" if "k < 4" for k
    using s a that by (auto simp: same_outside_def apart_def)
  from this [of 0] this [of 1] this [of 2] this [of 3] show ?thesis by (simp add: ldr_def rd32_def)
qed

lemma fix_instr_same:
  assumes "ldr m' (pc + load_offset instr + 8 + off) = ldr m (pc + load_offset instr + 8 + off)"
  shows "fix_instr off fo fe pc new_pc fixups instr m' = fix_instr off fo fe pc new_pc fixups instr m"
  using assms by (simp add: fix_instr_def fix_load_def Let_def)

lemma str_aligned: "a AND 3 = 0 \<Longrightarrow> str m a v = wr32 m a v"
  by (simp only: str_def and_3_aligned)

lemma wr32_same_outside:
  assumes "same_outside q len m m'" and "e + 4 \<le> len"
  shows "same_outside q len m (wr32 m' (addr_at q e) v)"
proof -
  have "wr32 m' (addr_at q e) v a = m' a" if "\<forall>d < len. a \<noteq> addr_at q d" for a
  proof -
    have "a \<noteq> q + of_nat (e + k)" if "k < 4" for k
    proof -
      have "e + k < len" using assms(2) that by linarith
      then show ?thesis using \<open>\<forall>d < len. a \<noteq> addr_at q d\<close> by (simp only: addr_at_def) blast
    qed
    from this [of 0] this [of 1] this [of 2] this [of 3] show ?thesis by (simp add: wr32_def addr_at_def ac_simps)
  qed
  then show ?thesis using assms(1) by (simp add: same_outside_def)
qed

lemma rd32_wr32_off:
  assumes "e + 4 \<le> d \<or> d + 4 \<le> e" and "d + 4 \<le> 2 ^ 32" and "e + 4 \<le> 2 ^ 32"
  shows "rd32 (wr32 m (addr_at q e) v) (addr_at q d) = rd32 m (addr_at q d)"
  unfolding addr_at_def by (rule rd32_cong, rule wr32_off) (use assms in auto)

lemma reloc_loop_done: "\<not> pc < fe \<Longrightarrow> reloc_loop off fo fe pc new_pc fixups m = Some (fixups, m)"
  by (simp add: reloc_loop.simps)

lemma reloc_loop_more: "pc < fe \<Longrightarrow> reloc_loop off fo fe pc new_pc fixups m =
    (let (fixups', m') = reloc_step off fo fe pc new_pc fixups m
     in reloc_loop off fo fe (pc + 4) (new_pc + 4) fixups' m')"
  by (subst reloc_loop.simps) simp

text \<open>One step on a memory that differs from the original in the target area only.\<close>

lemma step_eq:
  assumes "same_outside q len m0 m" and "list_all (apart q len) (reads off m0 pc)"
    and "new_pc = addr_at q e" and "e + 4 \<le> len" and "new_pc AND 3 = 0" and "fixups AND 3 = 0"
    and "fix_instr off fo fe pc new_pc fixups (ldr m0 (pc + off)) m0 = (w, d)"
  shows "reloc_step off fo fe pc new_pc fixups m =
    (case d of None \<Rightarrow> (fixups, wr32 (wr32 m new_pc (ldr m0 (pc + off))) new_pc w)
     | Some x \<Rightarrow> (fixups + 4, wr32 (wr32 (wr32 m new_pc (ldr m0 (pc + off))) fixups x) new_pc w))"
proof -
  let ?i = "ldr m0 (pc + off)" and ?m1 = "wr32 m new_pc (ldr m0 (pc + off))"
  have i: "ldr m (pc + off) = ?i" using ldr_same [OF assms(1)] assms(2) by (simp add: reads_def)
  have "same_outside q len m0 ?m1" unfolding assms(3) by (rule wr32_same_outside [OF assms(1,4)])
  then have "ldr ?m1 (pc + load_offset ?i + 8 + off) = ldr m0 (pc + load_offset ?i + 8 + off)"
    using ldr_same assms(2) by (simp add: reads_def)
  then have "fix_instr off fo fe pc new_pc fixups ?i ?m1 = (w, d)" using fix_instr_same assms(7) by metis
  then show ?thesis by (simp add: reloc_step_def i str_aligned [OF assms(5)] str_aligned [OF assms(6)] split: option.split)
qed

lemma write_step_same_outside:
  "same_outside q len m0 m \<Longrightarrow> f \<le> j \<Longrightarrow> 68 + 4 * j \<le> len \<Longrightarrow> same_outside q len m0 (write_step q j f i0 w d m)"
  by (auto simp: write_step_def Let_def intro!: wr32_same_outside split: option.split)

lemma write_step_keeps:
  assumes "68 + 4 * j \<le> 2 ^ 32" and "f \<le> j" and "d = None \<or> f < 16"
  shows "keeps_words q j f m (write_step q j f i0 w d m)"
    and "rd32 (write_step q j f i0 w d m) (addr_at q (64 + 4 * j)) = w"
    and "d = Some x \<Longrightarrow> rd32 (write_step q j f i0 w d m) (addr_at q (4 * f)) = x"
proof -
  have p: "68 + 4 * i \<le> 2 ^ 32" "4 * i + 4 \<le> 2 ^ 32" if "i \<le> j" for i
    using that assms(1) by linarith+
  show "rd32 (write_step q j f i0 w d m) (addr_at q (64 + 4 * j)) = w"
    by (simp add: write_step_def Let_def rd32_wr32 split: option.split)
  show "rd32 (write_step q j f i0 w d m) (addr_at q (4 * f)) = x" if "d = Some x"
    using that assms(2,3) p [of f] p [of j] by (simp add: write_step_def Let_def rd32_wr32_off rd32_wr32)
  show "keeps_words q j f m (write_step q j f i0 w d m)"
    unfolding keeps_words_def write_step_def Let_def
    using assms(2,3) p [of f] p [of j] by (auto simp: rd32_wr32_off split: option.split)
qed

lemma addr_at_next: "addr_at q (64 + 4 * j) + 4 = addr_at q (64 + 4 * Suc j)" "addr_at q (4 * f) + 4 = addr_at q (4 * Suc f)"
  by (simp_all add: addr_at_def algebra_simps)

lemma addr_at_shift: "addr_at (pc + 4) (4 * k) = addr_at pc (4 * Suc k)"
  by (simp add: addr_at_def algebra_simps)

lemma addr_at_aligned: "q AND 3 = 0 \<Longrightarrow> addr_at q (4 * k) AND 3 = 0"
  by (simp only: addr_at_def and_3_add)

lemma source_apart_Suc:
  "source_apart off q m pc (Suc n) len \<Longrightarrow> list_all (apart q len) (reads off m pc) \<and> source_apart off q m (pc + 4) n len"
proof -
  assume a: "source_apart off q m pc (Suc n) len"
  have "list_all (apart q len) (reads off m (addr_at (pc + 4) (4 * k)))" if "k < n" for k
    using a that by (simp only: addr_at_shift source_apart_def)
  moreover have "addr_at pc (4 * 0) = pc" by (simp add: addr_at_def)
  then have "list_all (apart q len) (reads off m pc)" using a by (metis source_apart_def zero_less_Suc)
  ultimately show ?thesis by (simp add: source_apart_def)
qed

lemma step_write:
  assumes "same_outside q len m0 m" and "list_all (apart q len) (reads off m0 pc)" and "q AND 3 = 0" and "68 + 4 * j \<le> len"
    and "fix_instr off fo fe pc (addr_at q (64 + 4 * j)) (addr_at q (4 * f)) (ldr m0 (pc + off)) m0 = (w, d)"
  shows "reloc_step off fo fe pc (addr_at q (64 + 4 * j)) (addr_at q (4 * f)) m =
    (addr_at q (4 * (if d = None then f else Suc f)), write_step q j f (ldr m0 (pc + off)) w d m)"
proof -
  have a: "addr_at q (64 + 4 * j) AND 3 = 0" "addr_at q (4 * f) AND 3 = 0"
    using addr_at_aligned [OF assms(3), of "16 + j"] addr_at_aligned [OF assms(3), of f] by simp_all
  have "64 + 4 * j + 4 \<le> len" using assms(4) by simp
  from step_eq [OF assms(1,2) refl this a assms(5)] show ?thesis
    by (cases d) (simp_all add: write_step_def Let_def addr_at_next del: mult_Suc_right)
qed

lemma keeps_words_trans:
  "keeps_words q (Suc j) f' m1 m' \<Longrightarrow> keeps_words q j f m m1 \<Longrightarrow> f \<le> f' \<Longrightarrow> keeps_words q j f m m'"
  unfolding keeps_words_def by (metis less_Suc_eq order_less_le_trans)

lemma holds_words_Cons:
  assumes "holds_words q (Suc j) ws (if d = None then f else Suc f) ds m"
    and "rd32 m (addr_at q (64 + 4 * j)) = w" and "\<And>x. d = Some x \<Longrightarrow> rd32 m (addr_at q (4 * f)) = x"
  shows "holds_words q j (w # ws) f (case d of None \<Rightarrow> ds | Some x \<Rightarrow> x # ds) m"
  unfolding holds_words_def
proof (intro conjI allI impI)
  fix i assume "i < length (w # ws)"
  then show "rd32 m (addr_at q (64 + 4 * (j + i))) = (w # ws) ! i"
    using assms(1,2) by (cases i) (simp_all add: holds_words_def)
next
  fix i assume i: "i < length (case d of None \<Rightarrow> ds | Some x \<Rightarrow> x # ds)"
  show "rd32 m (addr_at q (4 * (f + i))) = (case d of None \<Rightarrow> ds | Some x \<Rightarrow> x # ds) ! i"
  proof (cases d)
    case None
    then show ?thesis using i assms(1) by (simp add: holds_words_def)
  next
    case (Some x)
    then show ?thesis using i assms(1,3) by (cases i) (simp_all add: holds_words_def)
  qed
qed

lemma loop_spec:
  assumes "q AND 3 = 0" and "len \<le> 2 ^ 32"
  shows "same_outside q len m0 m \<Longrightarrow> source_apart off q m0 pc n len \<Longrightarrow> len = 64 + 4 * (j + n) \<Longrightarrow> f \<le> j \<Longrightarrow>
    unat pc + 4 * n = unat fe \<Longrightarrow>
    reloc_plan off fo fe m0 pc (addr_at q (64 + 4 * j)) (addr_at q (4 * f)) n = (ws, ds) \<Longrightarrow>
    \<exists>m'. reloc_loop off fo fe pc (addr_at q (64 + 4 * j)) (addr_at q (4 * f)) m = Some (addr_at q (4 * (f + length ds)), m')
      \<and> same_outside q len m0 m'
      \<and> (f + length ds \<le> 16 \<longrightarrow> holds_words q j ws f ds m' \<and> keeps_words q j f m m')"
proof (induction n arbitrary: m pc j f ws ds)
  case 0
  then have "\<not> pc < fe" by (simp add: word_less_nat_alt)
  then show ?case using 0 by (simp add: reloc_loop_done holds_words_def keeps_words_def)
next
  case (Suc n)
  obtain w d where f: "fix_instr off fo fe pc (addr_at q (64 + 4 * j)) (addr_at q (4 * f)) (ldr m0 (pc + off)) m0 = (w, d)"
    by (metis surj_pair)
  let ?f = "if d = None then f else Suc f" and ?m1 = "write_step q j f (ldr m0 (pc + off)) w d m"
  have pc: "pc < fe" "unat (pc + 4) = unat pc + 4"
  proof -
    show "pc < fe" using Suc.prems(5) by (simp add: word_less_nat_alt)
    have "unat pc + 4 < 2 ^ 32" using Suc.prems(5) unat_less_power32 [of fe] by simp
    then show "unat (pc + 4) = unat pc + 4" by (simp add: unat_word_ariths)
  qed
  have ap: "list_all (apart q len) (reads off m0 pc)" "source_apart off q m0 (pc + 4) n len"
    using source_apart_Suc [OF Suc.prems(2)] by blast+
  have len: "68 + 4 * j \<le> len" "len = 64 + 4 * (Suc j + n)" using Suc.prems(3) by simp_all
  have st: "reloc_step off fo fe pc (addr_at q (64 + 4 * j)) (addr_at q (4 * f)) m = (addr_at q (4 * ?f), ?m1)"
    by (rule step_write [OF Suc.prems(1) ap(1) assms(1) len(1) f])
  note nx = addr_at_next
  obtain ws' ds' where pl: "reloc_plan off fo fe m0 (pc + 4) (addr_at q (64 + 4 * Suc j)) (addr_at q (4 * ?f)) n = (ws', ds')"
    by (metis surj_pair)
  have wd: "ws = w # ws'" "ds = (case d of None \<Rightarrow> ds' | Some x \<Rightarrow> x # ds')"
    using Suc.prems(6) pl f by (cases d; simp add: nx Let_def del: mult_Suc_right)+
  have "\<exists>m'. reloc_loop off fo fe (pc + 4) (addr_at q (64 + 4 * Suc j)) (addr_at q (4 * ?f)) ?m1
        = Some (addr_at q (4 * (?f + length ds')), m') \<and> same_outside q len m0 m'
      \<and> (?f + length ds' \<le> 16 \<longrightarrow> holds_words q (Suc j) ws' ?f ds' m' \<and> keeps_words q (Suc j) ?f ?m1 m')"
  proof (rule Suc.IH [OF _ ap(2) len(2) _ _ pl])
    show "same_outside q len m0 ?m1" by (rule write_step_same_outside [OF Suc.prems(1,4) len(1)])
    show "?f \<le> Suc j" using Suc.prems(4) by simp
    show "unat (pc + 4) + 4 * n = unat fe" using Suc.prems(5) pc(2) by simp
  qed
  then obtain m' where lp: "reloc_loop off fo fe (pc + 4) (addr_at q (64 + 4 * Suc j)) (addr_at q (4 * ?f)) ?m1
        = Some (addr_at q (4 * (?f + length ds')), m')" "same_outside q len m0 m'"
      "?f + length ds' \<le> 16 \<longrightarrow> holds_words q (Suc j) ws' ?f ds' m' \<and> keeps_words q (Suc j) ?f ?m1 m'" by blast
  have c: "?f + length ds' = f + length ds" by (simp add: wd(2) split: option.split)
  have "holds_words q j ws f ds m' \<and> keeps_words q j f m m'" if "f + length ds \<le> 16"
  proof -
    have j32: "68 + 4 * j \<le> 2 ^ 32" using len(1) assms(2) by linarith
    have f16: "d = None \<or> f < 16" using that c by (auto split: if_splits)
    note k = write_step_keeps [OF j32 Suc.prems(4) f16]
    have "holds_words q (Suc j) ws' ?f ds' m'" "keeps_words q (Suc j) ?f ?m1 m'" using lp(3) that c by simp_all
    note hk = this
    have "keeps_words q j f m m'" using keeps_words_trans [OF hk(2) k(1)] by simp
    moreover have "holds_words q j (w # ws') f (case d of None \<Rightarrow> ds' | Some x \<Rightarrow> x # ds') m'"
    proof (rule holds_words_Cons [OF hk(1)])
      show "rd32 m' (addr_at q (64 + 4 * j)) = w" using hk(2) k(2) by (simp add: keeps_words_def)
      show "rd32 m' (addr_at q (4 * f)) = x" if "d = Some x" for x
        using hk(2) k(3) [OF that] that by (simp add: keeps_words_def)
    qed
    ultimately show ?thesis by (simp add: wd)
  qed
  then show ?case using lp(1,2) c by (simp add: reloc_loop_more [OF pc(1)] st nx del: mult_Suc_right)
qed

section \<open>Targets\<close>

lemma byte_masks: "(0x00FFFFFF :: u32) = mask 24" "(0xFF000000 :: u32) = NOT (mask 24)"
  by (simp_all add: mask_eq_exp_minus_1)

lemma branch_offset_sext: "branch_offset instr = word_of_int (signed_take_bit 23 (uint instr))"
proof -
  have "(instr AND 0x00FFFFFF) AND 0x00800000 = instr AND push_bit 23 1" by (simp add: and.assoc)
  then have "(instr AND 0x00FFFFFF) AND 0x00800000 \<noteq> 0 \<longleftrightarrow> bit instr 23" using bit_23 [of instr] by simp
  then have b: "branch_offset instr = (if bit instr 23 then (instr AND mask 24) OR NOT (mask 24) else instr AND mask 24)"
    by (simp only: branch_offset_def BRANCH_OFFSET_def Let_def) (simp only: byte_masks)
  show ?thesis
  proof (rule bit_word_eqI)
    fix n assume "n < LENGTH(32)"
    then consider "n < 23" | "n = 23" | "24 \<le> n" "n < 32" by fastforce
    then show "bit (branch_offset instr) n = bit (word_of_int (signed_take_bit 23 (uint instr)) :: u32) n"
      by cases (auto simp: b bit_simps min_def)
  qed
qed

lemma branch_dest: "pc + push_bit 2 (branch_offset instr) + 8 = branch_target pc instr"
  by (simp add: branch_offset_sext branch_target_def push_bit_eq_mult ac_simps)

lemma fix_branch_target:
  assumes "\<not> inside fo fe (branch_target pc instr)" and "pc AND 3 = 0" and "new_pc AND 3 = 0"
    and "- (2 ^ 25) + 4 \<le> sint (branch_target pc instr - new_pc - 8)" and "sint (branch_target pc instr - new_pc - 8) < 2 ^ 25"
    and "fix_branch fo fe pc new_pc instr = (i, d)"
  shows "branch_target new_pc i = branch_target pc instr" and "i AND 0xFF000000 = instr AND 0xFF000000" and "d = None"
proof -
  define D where "D = sint (branch_target pc instr - new_pc - 8)"
  let ?j = "signed_drop_bit 2 (branch_target pc instr - new_pc - 8)"
  have j: "sint ?j = D div 4"
    by (simp add: D_def sint_signed_drop_bit_eq drop_bit_eq_div)
  have D4: "4 dvd D"
  proof -
    define X where "X = uint pc + 4 * signed_take_bit 23 (uint instr) - uint new_pc"
    have "branch_target pc instr - new_pc - 8 = word_of_int X" by (simp add: branch_target_def X_def)
    then have "D = signed_take_bit 31 X" by (simp add: D_def sint_sbintrunc')
    then have "take_bit 2 D = take_bit 2 X" by (simp add: take_bit_signed_take_bit)
    moreover have "unat pc mod 4 = 0" "unat new_pc mod 4 = 0" using assms(2,3) by (simp_all only: and_3_unat)
    then have "4 dvd uint pc" "4 dvd uint new_pc" by (metis dvd_eq_mod_eq_0 int_dvd_int_iff of_nat_numeral uint_nat)+
    then have "4 dvd X" by (simp add: X_def)
    then have "take_bit 2 X = 0" by (simp add: take_bit_eq_mod)
    ultimately have "D mod 4 = 0" by (simp add: take_bit_eq_mod)
    then show ?thesis by blast
  qed
  have "sint ?j < 0x00800000" "- 0x00800000 < sint ?j" using assms(4,5) D4 unfolding j D_def by auto
  then have i: "i = (instr AND NOT BRANCH_OFFSET) OR (?j AND BRANCH_OFFSET)" and "d = None"
    using assms(1,6) by (simp_all add: fix_branch_def branch_dest Let_def)
  show "d = None" by fact
  have "i AND 0xFF000000 = instr AND 0xFF000000" unfolding i BRANCH_OFFSET_def
    by (simp add: bit.conj_disj_distrib2 and.assoc)
  then show "i AND 0xFF000000 = instr AND 0xFF000000" .
  have "take_bit 24 i = take_bit 24 ?j" unfolding i BRANCH_OFFSET_def byte_masks
    by (rule bit_word_eqI) (auto simp: bit_simps)
  then have "branch_target new_pc i = new_pc + 8 + word_of_int (4 * signed_take_bit 23 (uint (take_bit 24 ?j)))"
    by (simp add: branch_target_take [of new_pc i])
  also have "signed_take_bit 23 (uint (take_bit 24 ?j)) = signed_take_bit 23 (sint ?j)"
    by (rule bit_eqI) (auto simp: bit_simps min_def)
  also have "signed_take_bit 23 (sint ?j) = sint ?j"
    using \<open>sint ?j < 0x00800000\<close> \<open>- 0x00800000 < sint ?j\<close> by (intro signed_take_bit_int_eq_self) simp_all
  also have "4 * sint ?j = D" using D4 by (simp add: j)
  finally show "branch_target new_pc i = branch_target pc instr" by (simp add: D_def)
qed

lemma fixup_operand_target:
  assumes "\<bar>sint (fixups - new_pc - 8)\<bar> < 4096" and "i AND 0x00800FFF = fixup_operand fixups new_pc"
  shows "ldr_target new_pc i = fixups"
proof -
  define v where "v = fixups - new_pc - 8"
  have f0: "i AND 0x00800FFF = (if sint v < 0 then - v AND 0xFFF else 0x800000 OR (v AND 0xFFF))"
    using assms(2) by (simp only: fixup_operand_def v_def Let_def)
  have a0: "\<bar>sint v\<bar> < 4096" using assms(1) by (simp only: v_def)
  have low: "(word_of_int k :: u32) AND 0xFFF = word_of_int k" if "0 \<le> k" "k < 4096" for k
  proof -
    have "take_bit 12 k = k" using that by (simp add: take_bit_int_eq_self)
    then have "take_bit 12 (word_of_int k :: u32) = word_of_int k" by (simp only: take_bit_of_int)
    then show ?thesis by (simp add: take_bit_eq_mask mask_eq_exp_minus_1)
  qed
  have i12: "i AND 0xFFF = (i AND 0x00800FFF) AND 0xFFF" by (simp add: and.assoc)
  have i23: "i AND push_bit 23 1 = (i AND 0x00800FFF) AND 0x00800000" by (simp add: and.assoc)
  show ?thesis
  proof (cases "sint v < 0")
    case True
    then have f: "i AND 0x00800FFF = - v AND 0xFFF" using f0 by simp
    have "- v = word_of_int (- sint v)" by simp
    then have "- v AND 0xFFF = - v" using low [of "- sint v"] True a0 by simp
    moreover have "\<not> bit i 23" using i23 bit_23 [of i] unfolding f by (simp add: and.assoc)
    moreover have "i AND 0xFFF = - v AND 0xFFF" unfolding i12 f by (simp add: and.assoc)
    ultimately show ?thesis by (simp add: ldr_target_def v_def)
  next
    case False
    then have f: "i AND 0x00800FFF = 0x800000 OR (v AND 0xFFF)" using f0 by simp
    have "v = word_of_int (sint v)" by simp
    then have "v AND 0xFFF = v" using low [of "sint v"] False a0 by simp
    moreover have "bit i 23" using i23 bit_23 [of i] unfolding f by (simp add: bit.conj_disj_distrib2 and.assoc)
    moreover have "i AND 0xFFF = v AND 0xFFF" unfolding i12 f by (simp add: bit.conj_disj_distrib2 and.assoc)
    ultimately show ?thesis by (simp add: ldr_target_def v_def)
  qed
qed

lemma load_dest: "pc + load_offset instr + 8 = ldr_target pc instr"
  unfolding load_offset_def ldr_target_def bit_23 Let_def by (cases "bit instr 23") simp_all

lemma adr_shift_bound: "adr_shift instr < 32"
proof -
  have "drop_bit 8 instr AND 0xF \<le> 0xF" by (rule word_and_le1)
  then have "unat (drop_bit 8 instr AND 0xF) \<le> 15" by (simp add: word_le_nat_alt)
  then have "unat (2 * (drop_bit 8 instr AND 0xF)) = 2 * unat (drop_bit 8 instr AND 0xF)"
    by (subst unat_mult_lem [THEN iffD1]) simp_all
  then show ?thesis using \<open>unat (drop_bit 8 instr AND 0xF) \<le> 15\<close>
    by (simp only: adr_shift_def push_bit_eq_mult) (simp add: mult.commute)
qed

lemma add_offset_rotated:
  assumes "adr_shift instr = 0 \<or> 8 < adr_shift instr"
  shows "add_offset instr = word_rotr (adr_shift instr) (instr AND 0xFF)"
proof -
  let ?s = "adr_shift instr" and ?i = "instr AND 0xFF"
  have ff: "?i = take_bit 8 instr" by (simp add: take_bit_eq_mask mask_eq_exp_minus_1)
  have e: "add_offset instr = (if ?s > 8 then drop_bit ?s ?i OR push_bit (32 - ?s) ?i else drop_bit ?s ?i)"
    by (simp add: add_offset_def adr_shift_def Let_def)
  from assms show ?thesis
  proof
    assume "?s = 0"
    then show ?thesis by (simp add: e word_rotr_0)
  next
    assume s: "8 < ?s"
    show ?thesis
    proof (rule bit_word_eqI)
      fix n assume n: "n < LENGTH(32)"
      show "bit (add_offset instr) n = bit (word_rotr ?s ?i) n"
      proof (cases "n + ?s < 32")
        case True
        then have "\<not> 32 - ?s \<le> n" by linarith
        then show ?thesis using s True by (simp add: e ff bit_simps bit_word_rotr_iff)
      next
        case False
        then have "(n + ?s) mod 32 = n - (32 - ?s)" using adr_shift_bound [of instr] n by (simp add: mod_if)
        then show ?thesis using s False n adr_shift_bound [of instr]
          by (auto simp: e ff bit_simps bit_word_rotr_iff)
      qed
    qed
  qed
qed

lemma fixup_operand_mask:
  "fixup_operand fixups new_pc AND 0x00800FFF = fixup_operand fixups new_pc" "fixup_operand fixups new_pc AND 0xFF7FF000 = 0"
  by (simp_all add: fixup_operand_def Let_def bit.conj_disj_distrib2 and.assoc)

lemma fix_load_operand:
  assumes "fix_load off fo fe pc new_pc fixups instr m = (i, Some x)" and "\<bar>sint (fixups - new_pc - 8)\<bar> < 4096"
  shows "ldr_target new_pc i = fixups" and "x = ldr m (ldr_target pc instr + off)" and "i AND 0xFF7FF000 = instr AND 0xFF7FF000"
proof -
  have i: "i = (instr AND 0xFF7FF000) OR fixup_operand fixups new_pc" and x: "x = ldr m (ldr_target pc instr + off)"
    using assms(1) by (auto simp: fix_load_def load_dest Let_def split: if_splits)
  show "x = ldr m (ldr_target pc instr + off)" by (rule x)
  have "i AND 0x00800FFF = fixup_operand fixups new_pc"
    unfolding i by (simp add: bit.conj_disj_distrib2 fixup_operand_mask and.assoc)
  then show "ldr_target new_pc i = fixups" by (rule fixup_operand_target [OF assms(2)])
  show "i AND 0xFF7FF000 = instr AND 0xFF7FF000"
    unfolding i by (simp add: bit.conj_disj_distrib2 fixup_operand_mask and.assoc)
qed

lemma fix_add_operand:
  assumes "fix_add fo fe pc new_pc fixups instr = (i, Some x)" and "\<bar>sint (fixups - new_pc - 8)\<bar> < 4096"
  shows "ldr_target new_pc i = fixups" and "x = pc + 8 + add_offset instr"
    and "i AND 0xF000F000 = instr AND 0xF000F000" and "i AND 0x0F7F0000 = 0x051F0000"
proof -
  have i: "i = (instr AND 0xF000F000) OR 0x051F0000 OR fixup_operand fixups new_pc" and x: "x = pc + 8 + add_offset instr"
    using assms(1) by (auto simp: fix_add_def Let_def split: if_splits)
  show "x = pc + 8 + add_offset instr" by (rule x)
  have sub: "fixup_operand fixups new_pc AND k = 0" if "0xFF7FF000 AND k = k" for k
  proof -
    have "fixup_operand fixups new_pc AND k = fixup_operand fixups new_pc AND (0xFF7FF000 AND k)" by (simp only: that)
    also have "\<dots> = (fixup_operand fixups new_pc AND 0xFF7FF000) AND k" by (simp only: and.assoc)
    finally show ?thesis by (simp only: fixup_operand_mask) simp
  qed
  have "i AND 0x00800FFF = fixup_operand fixups new_pc"
    unfolding i by (simp add: bit.conj_disj_distrib2 fixup_operand_mask and.assoc)
  then show "ldr_target new_pc i = fixups" by (rule fixup_operand_target [OF assms(2)])
  show "i AND 0xF000F000 = instr AND 0xF000F000" "i AND 0x0F7F0000 = 0x051F0000"
    unfolding i by (simp_all add: bit.conj_disj_distrib2 sub and.assoc)
qed

lemma plan_length: "reloc_plan off fo fe m pc new_pc fixups n = (ws, ds) \<Longrightarrow> length ws = n \<and> length ds \<le> n"
proof (induction n arbitrary: pc new_pc fixups ws ds)
  case (Suc n)
  obtain w d where "fix_instr off fo fe pc new_pc fixups (ldr m (pc + off)) m = (w, d)" by (metis surj_pair)
  moreover obtain ws' ds' where p: "reloc_plan off fo fe m (pc + 4) (new_pc + 4) (case d of None \<Rightarrow> fixups | Some _ \<Rightarrow> fixups + 4) n = (ws', ds')"
    by (metis surj_pair)
  ultimately show ?case using Suc.prems Suc.IH [OF p] by (cases d) auto
qed simp

lemma reloc_result:
  assumes "new_pc AND 3 = 0" and "64 + 4 * n \<le> 2 ^ 31" and "unat func_offset + 4 * n = unat func_end"
    and "source_apart (buf - load_addr) new_pc m func_offset n (64 + 4 * n)"
    and "reloc_plan (buf - load_addr) func_offset func_end m func_offset (new_pc + 64) new_pc n = (ws, ds)"
  shows "if length ds \<le> 16
    then \<exists>m'. reloc buf load_addr func_offset func_end new_pc m = Some (new_pc + 64, m')
      \<and> same_outside new_pc (64 + 4 * n) m m' \<and> holds_words new_pc 0 ws 0 ds m'
    else reloc buf load_addr func_offset func_end new_pc m = None"
proof -
  have z: "addr_at new_pc (64 + 4 * 0) = new_pc + 64" "addr_at new_pc (4 * 0) = new_pc" by (simp_all add: addr_at_def)
  have s: "same_outside new_pc (64 + 4 * n) m m" by (simp add: same_outside_def)
  have len: "64 + 4 * n \<le> 2 ^ 32" "64 + 4 * n = 64 + 4 * (0 + n)" using assms(2) by simp_all
  have pl: "reloc_plan (buf - load_addr) func_offset func_end m func_offset (addr_at new_pc (64 + 4 * 0)) (addr_at new_pc (4 * 0)) n = (ws, ds)"
    unfolding z by (rule assms(5))
  obtain m' where l: "reloc_loop (buf - load_addr) func_offset func_end func_offset (new_pc + 64) new_pc m
      = Some (addr_at new_pc (4 * length ds), m')" "same_outside new_pc (64 + 4 * n) m m'"
      "length ds \<le> 16 \<longrightarrow> holds_words new_pc 0 ws 0 ds m'"
    using loop_spec [OF assms(1) len(1) s assms(4) len(2) order.refl assms(3) pl] unfolding z add_0 by blast
  have "length ds \<le> n" using plan_length [OF assms(5)] by simp
  then have "sint (word_of_int (64 - 4 * int (length ds)) :: u32) = 64 - 4 * int (length ds)"
    using assms(2) by (subst sint_sbintrunc') (simp add: signed_take_bit_int_eq_self)
  moreover have "new_pc + 64 - addr_at new_pc (4 * length ds) = word_of_int (64 - 4 * int (length ds))"
    by (simp add: addr_at_def)
  ultimately have "sint (new_pc + 64 - addr_at new_pc (4 * length ds)) = 64 - 4 * int (length ds)" by (simp only:)
  then show ?thesis using l by (auto simp: reloc_def Let_def)
qed

section \<open>Properties\<close>

text \<open>
  C29: \<^verbatim>\<open>reloc\<close> implements its plan: for a function of \<open>n\<close> instructions that ends before
  the top of memory, and a word-aligned target area apart from everything that is read, the result is the
  entry behind the table, the copy holds the planned words, the table the planned fixups,
  and nothing outside the area changes. It does not return if there are more than 16
  fixups.
\<close>

theorem reloc_refines_plan:
  assumes "new_pc AND 3 = 0" and "64 + 4 * n \<le> 2 ^ 31" and "unat func_offset + 4 * n = unat func_end"
    and "source_apart (buf - load_addr) new_pc m func_offset n (64 + 4 * n)"
    and "reloc_plan (buf - load_addr) func_offset func_end m func_offset (new_pc + 64) new_pc n = (ws, ds)"
  shows "case reloc buf load_addr func_offset func_end new_pc m of
      None \<Rightarrow> 16 < length ds
    | Some (entry, m') \<Rightarrow> entry = new_pc + 64 \<and> length ds \<le> 16 \<and> same_outside new_pc (64 + 4 * n) m m'
        \<and> holds_words new_pc 0 ws 0 ds m'"
  using reloc_result [OF assms] by (auto split: option.splits if_splits)

text \<open>
  C31: A relocated branch goes where the original went: a branch out of the function whose
  target is in reach of the copy keeps its target, its condition and its link bit; a branch inside
  the function is copied, so that it goes to the copy of its target.
\<close>

theorem reloc_branch_same_target:
  assumes "instr AND BRANCH_MASK = BRANCH_LINK \<or> instr AND BRANCH_MASK = BRANCH_INSTR"
    and "pc AND 3 = 0" and "new_pc AND 3 = 0"
    and "- (2 ^ 25) + 4 \<le> sint (branch_target pc instr - new_pc - 8)" and "sint (branch_target pc instr - new_pc - 8) < 2 ^ 25"
    and "fix_instr off fo fe pc new_pc fixups instr m = (i, d)"
  shows "d = None \<and> i AND 0xFF000000 = instr AND 0xFF000000
    \<and> branch_target new_pc i =
        (if inside fo fe (branch_target pc instr) then branch_target pc instr + (new_pc - pc) else branch_target pc instr)"
proof -
  have f: "fix_branch fo fe pc new_pc instr = (i, d)" using assms(1,6) by (auto simp: fix_instr_def)
  show ?thesis
  proof (cases "inside fo fe (branch_target pc instr)")
    case True
    then have "i = instr \<and> d = None" using f by (simp add: fix_branch_def branch_dest Let_def)
    then show ?thesis using True by (simp add: branch_target_def)
  next
    case False
    then show ?thesis using fix_branch_target [OF False assms(2-5) f] by simp
  qed
qed

lemma ldr_low_byte: "(ucast (ldr m a) :: u8) = m a"
proof -
  let ?b = "a AND NOT 3" and ?k = "unat (a AND 3)"
  have "?b AND (a AND 3) = 0" by (simp add: ac_simps)
  then have split: "?b + (a AND 3) = a"
    by (simp add: disjunctive_add_eq_or bit.conj_disj_distrib [symmetric] del: bit.conj_disj_distrib)
  have "a AND 3 = 0 \<or> a AND 3 = 1 \<or> a AND 3 = 2 \<or> a AND 3 = 3"
  proof -
    have "a AND 3 \<le> 3" by (rule word_and_le1)
    then have "?k \<le> 3" by (simp add: word_le_nat_alt)
    then have "?k = 0 \<or> ?k = 1 \<or> ?k = 2 \<or> ?k = 3" by arith
    then show ?thesis by (auto dest: arg_cong [where f = "of_nat :: nat \<Rightarrow> u32"])
  qed
  moreover have "(ucast (word_rotr n w) :: u8) = ucast (drop_bit n w)" if "n \<le> 24" for n and w :: u32
    by (rule bit_word_eqI) (use that in \<open>auto simp: bit_simps bit_word_rotr_iff add.commute\<close>)
  ultimately show ?thesis using rd32_bytes [of m ?b] split unfolding ldr_def by (elim disjE) (simp_all add: word_rotr_0)
qed

lemma bit_22_mask: "bit (w :: u32) 22 \<longleftrightarrow> w AND 0x00400000 \<noteq> 0"
proof -
  have "(0x00400000 :: u32) = push_bit 22 1" by simp
  then show ?thesis by (metis bit_iff_and_push_bit_not_eq_0)
qed

text \<open>A table word that is a copy of the operand serves byte and word loads alike.\<close>

lemma loaded_copy:
  assumes "ldr m' b = ldr m a" and "bit i 22 = bit instr 22"
  shows "loaded m' i b = loaded m instr a"
  using ldr_low_byte [of m' b] ldr_low_byte [of m a] assms by (simp add: loaded_def)

lemma fix_instr_load:
  assumes "fix_instr off fo fe pc new_pc fixups instr m = (i, Some x)" and "pc_load instr"
  shows "fix_load off fo fe pc new_pc fixups instr m = (i, Some x)"
proof -
  have "instr AND ADD_MASK \<noteq> ADD_INSTR"
  proof
    assume a: "instr AND ADD_MASK = ADD_INSTR"
    have "(instr AND 0x0F3F0000) AND 0x04000000 = (instr AND ADD_MASK) AND 0x04000000"
      by (simp add: ADD_MASK_def and.assoc)
    then show False using a assms(2) by (simp add: pc_load_def ADD_INSTR_def)
  qed
  then show ?thesis using assms(1) by (auto simp: fix_instr_def fix_branch_def Let_def split: if_splits)
qed

lemma fix_instr_add:
  assumes "fix_instr off fo fe pc new_pc fixups instr m = (i, Some x)" and "pc_add instr"
  shows "fix_add fo fe pc new_pc fixups instr = (i, Some x)"
proof -
  have "instr AND ADD_MASK = (instr AND 0x0FFF0000) AND ADD_MASK" by (simp add: ADD_MASK_def and.assoc)
  then have "instr AND ADD_MASK = ADD_INSTR" using assms(2) by (simp add: pc_add_def ADD_MASK_def ADD_INSTR_def)
  then show ?thesis using assms(1) by (auto simp: fix_instr_def fix_branch_def Let_def split: if_splits)
qed

text \<open>
  C32: An instruction that gets a fixup has the same effect in the copy, with the fixup in the word
  that \<^verbatim>\<open>reloc\<close> reserved for it, at most 4095 bytes from the copy's program counter. A load relative to the program
  counter becomes one that loads the same value, whether a word or a byte, into the same
  register and under the same condition. An addition to the program counter becomes a load of the address that it
  computed, likewise; this holds for immediates that are not rotated or rotated by more than 8 bits.
\<close>

theorem reloc_fixup_same_operand:
  assumes "fix_instr off fo fe pc new_pc fixups instr m = (i, Some x)" and "\<bar>sint (fixups - new_pc - 8)\<bar> < 4096"
    and "pc_load instr \<or> pc_add instr \<and> (adr_shift instr = 0 \<or> 8 < adr_shift instr)"
    and "ldr m' fixups = x"
  shows "pc_load i \<and> i AND 0xF000F000 = instr AND 0xF000F000
    \<and> loaded m' i (ldr_target new_pc i) =
        (if pc_load instr then loaded m instr (ldr_target pc instr + off) else adr_target pc instr)"
proof (cases "pc_load instr")
  case True
  note f = fix_load_operand [OF fix_instr_load [OF assms(1) True] assms(2)]
  have sub: "i AND k = instr AND k" if "0xFF7FF000 AND k = k" for k
    using arg_cong [OF f(3), of "\<lambda>w. w AND k"] unfolding and.assoc that .
  have "i AND 0x0F3F0000 = instr AND 0x0F3F0000" by (rule sub) simp
  moreover have "i AND 0xF000F000 = instr AND 0xF000F000" by (rule sub) simp
  moreover have "i AND 0x00400000 = instr AND 0x00400000" by (rule sub) simp
  then have "bit i 22 = bit instr 22" by (simp only: bit_22_mask)
  then have "loaded m' i (ldr_target new_pc i) = loaded m instr (ldr_target pc instr + off)"
    using assms(4) f(1,2) by (intro loaded_copy) simp_all
  ultimately show ?thesis using True by (simp add: pc_load_def)
next
  case False
  then have add: "pc_add instr" "adr_shift instr = 0 \<or> 8 < adr_shift instr" using assms(3) by blast+
  note f = fix_add_operand [OF fix_instr_add [OF assms(1) add(1)] assms(2)]
  have "i AND 0x0F3F0000 = (i AND 0x0F7F0000) AND 0x0F3F0000" "i AND 0x00400000 = (i AND 0x0F7F0000) AND 0x00400000"
    by (simp_all add: and.assoc)
  then have "pc_load i" "\<not> bit i 22" unfolding f(4) bit_22_mask pc_load_def by simp_all
  then show ?thesis using False f(1,2,3) assms(4) add_offset_rotated [OF add(2)]
    by (simp add: loaded_def adr_target_def)
qed

text \<open>
  The test for a load looks at two bits only: \<^verbatim>\<open>ldrls pc, [pc, r0, lsl #2]\<close>, a jump through a table, and
  \<^verbatim>\<open>str r0, [pc, #0x100]\<close> are taken for loads with an immediate offset and get a fixup.
\<close>

lemma reloc_misreads_loads:
  assumes "instr = 0x979FF100 \<or> instr = 0xE58F0100"
  shows "\<not> pc_load instr \<and> snd (fix_instr 0 0x1000 0x1008 0x1000 0x2040 0x2000 instr m) \<noteq> None"
  using assms
  by (auto simp: pc_load_def fix_instr_def fix_load_def load_offset_def inside_def BRANCH_MASK_def BRANCH_LINK_def
    BRANCH_INSTR_def ADD_MASK_def ADD_INSTR_def LOAD_MASK_def LOAD_INSTR_def REG_PC_def Let_def)

text \<open>With a rotation by 8 bits, \<^verbatim>\<open>add r0, pc, #0x1000000\<close>, the immediate is lost.\<close>

lemma add_offset_loses_rotation: "add_offset 0xE28F0401 = 0 \<and> adr_target 0 0xE28F0401 = 8 + 0x1000000"
  by (simp add: add_offset_def adr_target_def adr_shift_def Let_def) code_simp

section \<open>A sample function\<close>

lemma sample_ldr: "ldr sample_code 0x1000 = 0xE59F0100" "ldr sample_code 0x1004 = 0xE12FFF1E" "ldr sample_code 0x1108 = 0x11111111"
  by (simp_all add: ldr_def sample_code_def word_rotr_0 mem_simps) (simp_all add: rd32_def wr32_def)

lemma sample_plan:
  "reloc_plan 0 0x1000 0x1008 sample_code 0x1000 0x2040 0x2000 2 = ([0xE51F0048, 0xE12FFF1E], [0x11111111])"
  unfolding numeral_2_eq_2
  by (simp add: sample_ldr fix_instr_def fix_load_def load_offset_def fixup_operand_def inside_def
    BRANCH_MASK_def BRANCH_LINK_def BRANCH_INSTR_def ADD_MASK_def ADD_INSTR_def LOAD_MASK_def LOAD_INSTR_def REG_PC_def Let_def)

lemma apart_below:
  assumes "unat (a AND NOT 3) + 4 \<le> unat q" and "unat q + len \<le> 2 ^ 32"
  shows "apart q len a"
  unfolding apart_def
proof (intro allI impI)
  fix k d :: nat assume k: "k < 4" and d: "d < len"
  have "unat ((a AND NOT 3) + of_nat k) = unat (a AND NOT 3) + k"
    using k assms unat_less_power32 [of q] by (simp add: unat_word_ariths unat_of_nat32)
  moreover have "unat (addr_at q d) = unat q + d"
    using d assms(2) by (simp add: addr_at_def unat_word_ariths unat_of_nat32)
  ultimately have "unat ((a AND NOT 3) + of_nat k) < unat (addr_at q d)" using k assms(1) by linarith
  then show "(a AND NOT 3) + of_nat k \<noteq> addr_at q d" by (metis less_irrefl)
qed

lemma sample_apart: "source_apart 0 0x2000 sample_code 0x1000 2 72"
  unfolding source_apart_def
proof (intro allI impI)
  fix k :: nat assume "k < 2"
  then have "k = 0 \<or> k = 1" by auto
  then show "list_all (apart 0x2000 72) (reads 0 sample_code (addr_at 0x1000 (4 * k)))"
    by (auto simp: reads_def addr_at_def sample_ldr load_offset_def Let_def intro!: apart_below)
qed

theorem reloc_refines_plan_witness:
  "\<exists>m'. reloc 0 0 0x1000 0x1008 0x2000 sample_code = Some (0x2040, m')
    \<and> rd32 m' 0x2040 = 0xE51F0048 \<and> rd32 m' 0x2000 = 0x11111111"
proof -
  have "case reloc 0 0 0x1000 0x1008 0x2000 sample_code of None \<Rightarrow> 16 < length [0x11111111 :: u32]
    | Some (entry, m') \<Rightarrow> entry = 0x2000 + 64 \<and> length [0x11111111 :: u32] \<le> 16 \<and> same_outside 0x2000 (64 + 4 * 2) sample_code m'
      \<and> holds_words 0x2000 0 [0xE51F0048, 0xE12FFF1E] 0 [0x11111111] m'"
    by (rule reloc_refines_plan) (use sample_plan sample_apart in simp_all)
  then show ?thesis by (auto simp: holds_words_def addr_at_def split: option.splits)
qed

theorem reloc_branch_same_target_witness:
  "branch_target 0x2040 (fst (fix_instr 0 0x1000 0x1008 0x1000 0x2040 0x2000 0xEB000100 sample_code)) = 0x1408"
proof -
  have b: "branch_target 0x1000 0xEB000100 = 0x1408" by (simp add: branch_target_def)
  have "instr AND BRANCH_MASK = BRANCH_LINK" if "instr = 0xEB000100" for instr
    by (simp add: that BRANCH_MASK_def BRANCH_LINK_def)
  then show ?thesis
    using reloc_branch_same_target [of "0xEB000100" "0x1000" "0x2040" 0 "0x1000" "0x1008" "0x2000" sample_code] b
    by (cases "fix_instr 0 0x1000 0x1008 0x1000 0x2040 0x2000 0xEB000100 sample_code") (simp add: inside_def)
qed

theorem reloc_fixup_same_operand_witness:
  "loaded (str sample_code 0x2000 0x11111111) 0xE51F0048 (ldr_target 0x2040 0xE51F0048) = 0x11111111
    \<and> fix_instr 0 0x1000 0x1008 0x1000 0x2040 0x2000 0xE59F0100 sample_code = (0xE51F0048, Some 0x11111111)"
proof -
  have f: "fix_instr 0 0x1000 0x1008 0x1000 0x2040 0x2000 0xE59F0100 sample_code = (0xE51F0048, Some 0x11111111)"
    by (simp add: sample_ldr fix_instr_def fix_load_def load_offset_def fixup_operand_def inside_def
      BRANCH_MASK_def BRANCH_LINK_def BRANCH_INSTR_def ADD_MASK_def ADD_INSTR_def LOAD_MASK_def LOAD_INSTR_def REG_PC_def Let_def)
  have l: "ldr (str sample_code 0x2000 0x11111111) 0x2000 = 0x11111111"
    by (simp add: ldr_def str_def word_rotr_0 rd32_wr32)
  have p: "pc_load 0xE59F0100" "\<not> bit (0xE59F0100 :: u32) 22" "ldr_target 0x1000 0xE59F0100 = 0x1108"
    by (simp_all add: pc_load_def bit_22_mask ldr_target_def bit_23)
  show ?thesis using reloc_fixup_same_operand [OF f _ _ l] p sample_ldr f by (simp add: loaded_def)
qed

end
