(* ===== verification/ML_Property.thy ===== *)
theory ML_Property
  imports ML_Strings
begin

text \<open>
  Camera properties, \<^verbatim>\<open>src/src/property.c\<close>, and their client
  \<^verbatim>\<open>src/src/fileprefix.c\<close>. Canon's property manager delivers property events to the one
  handler that is registered here, which dispatches them; requests to change a property are
  passed to Canon's stub after a check of their length. Property buffers are byte
  lists, handlers are functions on the state \<open>'u\<close> of the clients, and the calls of Canon's stubs are
  logged. The development covers the configuration of the 70D: DIGIC 5, no full frame sensor, no
  \<^verbatim>\<open>CONFIG_UNREGISTER_PROP\<close>.
\<close>

section \<open>State\<close>

type_synonym 'u handler = "u32 \<Rightarrow> u8 list \<Rightarrow> u32 \<Rightarrow> 'u \<Rightarrow> 'u"

record 'u prop_handler =
  property :: u32
  property_length :: u16
  property_ack :: u16
  handler :: "'u handler option"

text \<open>
  \<open>registered\<close> and \<open>requests\<close> log the calls of \<^verbatim>\<open>prop_register_slave\<close> and of
  \<^verbatim>\<open>_prop_request_change\<close>, the latest first.
\<close>

record 'u prop_state =
  actual_num_handlers :: nat
  actual_num_properties :: nat
  property_handlers :: "'u prop_handler list"
  property_list :: "u32 list"
  global_token :: "nat option"
  registered :: "u32 list list"
  requests :: "(u32 \<times> u8 list \<times> u32) list"
  clients :: 'u

datatype prop_error = Handlers_overrun | Properties_overrun

definition NUM_HANDLERS :: nat where
  "NUM_HANDLERS = 256"

definition prop_zero :: "'u \<Rightarrow> 'u prop_state" where
  "prop_zero u = \<lparr>actual_num_handlers = 0, actual_num_properties = 0,
     property_handlers = replicate NUM_HANDLERS \<lparr>property = 0, property_length = 0, property_ack = 0, handler = None\<rparr>,
     property_list = replicate NUM_HANDLERS 0, global_token = None, registered = [], requests = [], clients = u\<rparr>"

section \<open>Events\<close>

definition global_token_handler :: "nat \<Rightarrow> 'u prop_state \<Rightarrow> 'u prop_state" where
  "global_token_handler token st = st\<lparr>global_token := Some token\<rparr>"

definition fire_handler :: "u32 \<Rightarrow> u8 list \<Rightarrow> u32 \<Rightarrow> nat \<Rightarrow> 'u prop_state \<Rightarrow> 'u prop_state" where
  "fire_handler prop buf len entry st =
     (let h = property_handlers st ! entry in
      if property h = prop then
        (let h' = h\<lparr>property_length := (if property_length h = 0 then ucast len else property_length h), property_ack := 1\<rparr>;
             st' = st\<lparr>property_handlers := (property_handlers st)[entry := h']\<rparr>
         in case handler h of None \<Rightarrow> st' | Some f \<Rightarrow> st'\<lparr>clients := f prop buf len (clients st')\<rparr>)
      else st)"

definition global_property_handler :: "u32 \<Rightarrow> u8 list \<Rightarrow> u32 \<Rightarrow> 'u prop_state \<Rightarrow> 'u prop_state" where
  "global_property_handler prop buf len st = fold (fire_handler prop buf len) [0..<actual_num_handlers st] st"

section \<open>Registration\<close>

definition prop_add_handler :: "u32 \<Rightarrow> 'u handler option \<Rightarrow> 'u prop_state \<Rightarrow> prop_error + 'u prop_state" where
  "prop_add_handler prop f st =
     (let n = actual_num_handlers st in
      if n \<ge> NUM_HANDLERS then Inl Handlers_overrun
      else
        (let st1 = st\<lparr>property_handlers := (property_handlers st)[n := (property_handlers st ! n)\<lparr>handler := f, property := prop\<rparr>],
                      actual_num_handlers := n + 1\<rparr>;
             duplicate = prop \<in> set (take (actual_num_properties st1) (property_list st1))
         in if duplicate then Inr st1
            else if actual_num_properties st1 \<ge> NUM_HANDLERS then Inl Properties_overrun
            else Inr (st1\<lparr>property_list := (property_list st1)[actual_num_properties st1 := prop],
                          actual_num_properties := actual_num_properties st1 + 1\<rparr>)))"

fun prop_add_internal_handlers :: "(u32 \<times> 'u handler option) list \<Rightarrow> 'u prop_state \<Rightarrow> prop_error + 'u prop_state" where
  "prop_add_internal_handlers [] st = Inr st"
| "prop_add_internal_handlers ((p, f) # hs) st =
     (case prop_add_handler p f st of Inl e \<Rightarrow> Inl e | Inr st' \<Rightarrow> prop_add_internal_handlers hs st')"

text \<open>Without \<^verbatim>\<open>CONFIG_UNREGISTER_PROP\<close> the handlers stay registered.\<close>

definition prop_unregister_handlers :: "'u prop_state \<Rightarrow> 'u prop_state" where
  "prop_unregister_handlers st = st"

definition prop_register_handlers :: "'u prop_state \<Rightarrow> 'u prop_state" where
  "prop_register_handlers st =
     (if global_token st = None
      then st\<lparr>registered := take (actual_num_properties st) (property_list st) # registered st\<rparr>
      else st)"

definition prop_reset_registration :: "(u32 \<times> 'u handler option) list \<Rightarrow> 'u prop_state \<Rightarrow> prop_error + 'u prop_state" where
  "prop_reset_registration internal st =
     (case prop_add_internal_handlers internal
        ((prop_unregister_handlers st)\<lparr>actual_num_properties := 0, actual_num_handlers := 0\<rparr>) of
        Inl e \<Rightarrow> Inl e | Inr st' \<Rightarrow> Inr (prop_register_handlers st'))"

definition prop_update_registration :: "'u prop_state \<Rightarrow> 'u prop_state" where
  "prop_update_registration st = prop_register_handlers (prop_unregister_handlers st)"

definition prop_init :: "(u32 \<times> 'u handler option) list \<Rightarrow> 'u prop_state \<Rightarrow> prop_error + 'u prop_state" where
  "prop_init internal st = prop_reset_registration internal st"

section \<open>Requests\<close>

definition active_handlers :: "'u prop_state \<Rightarrow> 'u prop_handler list" where
  "active_handlers st = take (actual_num_handlers st) (property_handlers st)"

definition prop_get_prop_len :: "u32 \<Rightarrow> 'u prop_state \<Rightarrow> u32" where
  "prop_get_prop_len prop st =
     (case find (\<lambda>h. property h = prop) (active_handlers st) of Some h \<Rightarrow> ucast (property_length h) | None \<Rightarrow> 0)"

definition prop_get_ack :: "u32 \<Rightarrow> 'u prop_state \<Rightarrow> u32" where
  "prop_get_ack prop st =
     (case find (\<lambda>h. property h = prop) (active_handlers st) of Some h \<Rightarrow> ucast (property_ack h) | None \<Rightarrow> 0)"

definition prop_reset_ack :: "u32 \<Rightarrow> 'u prop_state \<Rightarrow> 'u prop_state" where
  "prop_reset_ack prop st =
     st\<lparr>property_handlers := map (\<lambda>h. if property h = prop then h\<lparr>property_ack := 0\<rparr> else h) (active_handlers st)
          @ drop (actual_num_handlers st) (property_handlers st)\<rparr>"

definition PROP_BATTERY_REPORT :: u32 where
  "PROP_BATTERY_REPORT = 0x8003001D"

text \<open>Refused requests only print messages; the assertion on the remote release reports and goes on.\<close>

definition prop_request_change :: "u32 \<Rightarrow> u8 list \<Rightarrow> u32 \<Rightarrow> 'u prop_state \<Rightarrow> 'u prop_state" where
  "prop_request_change prop data len st =
     (let correct_len = prop_get_prop_len prop st;
          len' = (if len = 0 then correct_len else len)
      in if len' = 0 then st
         else if prop = PROP_BATTERY_REPORT \<and> len' = 1 \<or> correct_len = len'
         then st\<lparr>requests := (prop, data, len') # requests st\<rparr>
         else st)"

text \<open>
  The wait polls every 20 ms; \<open>arrives i st\<close> lists the property events that Canon's firmware delivers
  during the \<open>i\<close>th pause, given the requests made so far.
\<close>

type_synonym prop_event = "u32 \<times> u8 list \<times> u32"

definition deliver :: "prop_event list \<Rightarrow> 'u prop_state \<Rightarrow> 'u prop_state" where
  "deliver = fold (\<lambda>(prop, buf, len). global_property_handler prop buf len)"

fun wait_ack :: "(nat \<Rightarrow> prop_event list) \<Rightarrow> u32 \<Rightarrow> nat \<Rightarrow> nat \<Rightarrow> 'u prop_state \<Rightarrow> bool \<times> 'u prop_state" where
  "wait_ack arrives prop i 0 st = (False, st)"
| "wait_ack arrives prop i (Suc n) st =
     (let st' = deliver (arrives i) st
      in if prop_get_ack prop st' \<noteq> 0 then (True, st') else wait_ack arrives prop (Suc i) n st')"

definition prop_request_change_wait ::
  "bool \<Rightarrow> ((u32 \<times> u8 list \<times> u32) list \<Rightarrow> nat \<Rightarrow> prop_event list) \<Rightarrow> u32 \<Rightarrow> u8 list \<Rightarrow> u32 \<Rightarrow> int
   \<Rightarrow> 'u prop_state \<Rightarrow> bool \<times> 'u prop_state" where
  "prop_request_change_wait in_prop_mgr canon prop data len timeout st =
     (let st1 = prop_request_change prop data len (prop_reset_ack prop st)
      in if in_prop_mgr then (False, st1)
         else wait_ack (canon (requests st1)) prop 0 (nat (c_div timeout 20)) st1)"

section \<open>Custom file prefix\<close>

definition PROP_FILE_PREFIX :: u32 where
  "PROP_FILE_PREFIX = 0x1000007"

text \<open>The two arrays keep the bytes behind the terminator.\<close>

record prefix_state =
  cur_prefix :: "u8 list"
  old_prefix :: "u8 list"
  custom_file_prefix :: bool
  prop_handler_check :: bool
  check_key :: u32

definition c_text :: "u8 list \<Rightarrow> u8 list" where
  "c_text bs = takeWhile (\<lambda>b. b \<noteq> 0) bs"

text \<open>\<^verbatim>\<open>snprintf(dst, 8, "%s", s)\<close> on an array of 8 bytes.\<close>

definition copy_text :: "u8 list \<Rightarrow> u8 list \<Rightarrow> u8 list" where
  "copy_text dst s = (let t = take 7 (c_text s) @ [0] in t @ drop (length t) dst)"

definition prefix_handler :: "prefix_state handler" where
  "prefix_handler prop buf len u = u\<lparr>cur_prefix := copy_text (cur_prefix u) buf, prop_handler_check := True\<rparr>"

definition first_int :: "u8 list \<Rightarrow> u32" where
  "first_int bs = ucast (bs ! 0) OR push_bit 8 (ucast (bs ! 1)) OR push_bit 16 (ucast (bs ! 2)) OR push_bit 24 (ucast (bs ! 3))"

definition prefix_init :: prefix_state where
  "prefix_init = \<lparr>cur_prefix = [0x49, 0x4D, 0x47, 0x5F, 0, 0, 0, 0], old_prefix = [0x49, 0x4D, 0x47, 0x5F, 0, 0, 0, 0],
     custom_file_prefix = False, prop_handler_check = False, check_key = 0\<rparr>"

type_synonym canon = "(u32 \<times> u8 list \<times> u32) list \<Rightarrow> nat \<Rightarrow> prop_event list"

definition upd_clients :: "('u \<Rightarrow> 'u) \<Rightarrow> 'u prop_state \<Rightarrow> 'u prop_state" where
  "upd_clients f st = st\<lparr>clients := f (clients st)\<rparr>"

definition file_prefix_set :: "bool \<Rightarrow> canon \<Rightarrow> u32 \<Rightarrow> u8 list \<Rightarrow> prefix_state prop_state \<Rightarrow> u32 \<times> prefix_state prop_state" where
  "file_prefix_set in_prop_mgr canon rnd new_prefix st =
     (if \<not> prop_handler_check (clients st) then (0, st)
      else if custom_file_prefix (clients st) then (0, st)
      else
        (let st1 = upd_clients (\<lambda>u. u\<lparr>custom_file_prefix := True, old_prefix := copy_text (old_prefix u) (cur_prefix u)\<rparr>) st;
             buf = copy_text (replicate 8 0) new_prefix;
             (ok, st2) = prop_request_change_wait in_prop_mgr canon PROP_FILE_PREFIX buf 8 1000 st1
         in if ok then (rnd + NOT (first_int buf), upd_clients (\<lambda>u. u\<lparr>check_key := rnd\<rparr>) st2)
            else (0, upd_clients (\<lambda>u. u\<lparr>custom_file_prefix := False\<rparr>) st2)))"

definition file_prefix_reset :: "bool \<Rightarrow> canon \<Rightarrow> u32 \<Rightarrow> prefix_state prop_state \<Rightarrow> u32 \<times> prefix_state prop_state" where
  "file_prefix_reset in_prop_mgr canon key st =
     (if custom_file_prefix (clients st) \<and> key = check_key (clients st) + NOT (first_int (cur_prefix (clients st)))
      then
        (let (ok, st1) = prop_request_change_wait in_prop_mgr canon PROP_FILE_PREFIX (old_prefix (clients st)) 8 1000 st
         in if ok then (1, upd_clients (\<lambda>u. u\<lparr>custom_file_prefix := False\<rparr>) st1) else (0, st1))
      else (0, st))"

section \<open>Dispatch\<close>

definition acknowledged :: "u32 \<Rightarrow> u32 \<Rightarrow> 'u prop_handler \<Rightarrow> 'u prop_handler" where
  "acknowledged prop len h =
     (if property h = prop
      then h\<lparr>property_length := (if property_length h = 0 then ucast len else property_length h), property_ack := 1\<rparr>
      else h)"

definition run_handler :: "u32 \<Rightarrow> u8 list \<Rightarrow> u32 \<Rightarrow> 'u prop_handler \<Rightarrow> 'u \<Rightarrow> 'u" where
  "run_handler prop buf len h u = (case handler h of None \<Rightarrow> u | Some f \<Rightarrow> f prop buf len u)"

definition table_ok :: "'u prop_state \<Rightarrow> bool" where
  "table_ok st \<longleftrightarrow> length (property_handlers st) = NUM_HANDLERS \<and> actual_num_handlers st \<le> NUM_HANDLERS
     \<and> length (property_list st) = NUM_HANDLERS \<and> actual_num_properties st \<le> actual_num_handlers st"

text \<open>
  \<open>E\<close> holds the property and length of the events so far, and \<open>r\<close> tells whether the registration was reset
  after startup: the handler table then keeps the lengths of the handlers that used its slots before, so
  a length may come from an event of another property.
\<close>

definition seen :: "bool \<Rightarrow> (u32 \<times> u32) set \<Rightarrow> u32 \<Rightarrow> u16 \<Rightarrow> bool" where
  "seen r E p l \<longleftrightarrow> (\<exists>(q, len) \<in> E. (r \<or> q = p) \<and> l = ucast len)"

definition len_seen :: "bool \<Rightarrow> (u32 \<times> u32) set \<Rightarrow> 'u prop_handler \<Rightarrow> bool" where
  "len_seen r E h \<longleftrightarrow> property_length h = 0 \<or> seen r E (property h) (property_length h)"

definition slot_seen :: "bool \<Rightarrow> (u32 \<times> u32) set \<Rightarrow> 'u prop_handler \<Rightarrow> bool" where
  "slot_seen r E h \<longleftrightarrow> property_length h = 0 \<or> r \<and> seen True E 0 (property_length h)"

definition request_ok :: "bool \<Rightarrow> (u32 \<times> u32) set \<Rightarrow> u32 \<times> u8 list \<times> u32 \<Rightarrow> bool" where
  "request_ok r E q \<longleftrightarrow> (case q of (p, _, l) \<Rightarrow> l \<noteq> 0
     \<and> (p = PROP_BATTERY_REPORT \<and> l = 1 \<or> (\<exists>k. seen r E p k \<and> l = ucast k)))"

definition prop_inv :: "bool \<Rightarrow> (u32 \<times> u32) set \<Rightarrow> 'u prop_state \<Rightarrow> bool" where
  "prop_inv r E st \<longleftrightarrow> table_ok st
     \<and> list_all (len_seen r E) (active_handlers st)
     \<and> list_all (slot_seen r E) (drop (actual_num_handlers st) (property_handlers st))
     \<and> set (take (actual_num_properties st) (property_list st)) = property ` set (active_handlers st)
     \<and> distinct (take (actual_num_properties st) (property_list st))
     \<and> list_all (request_ok r E) (requests st)"

text \<open>Canon's firmware confirms a change with an event that carries the new value.\<close>

definition confirms :: "canon \<Rightarrow> bool" where
  "confirms canon \<longleftrightarrow> (\<forall>p d l rs. canon ((p, d, l) # rs) 0 = [(p, d, l)])"

text \<open>The prefix handler is registered alone for its property and has learned the length 8.\<close>

definition prefix_ready :: "prefix_state prop_state \<Rightarrow> bool" where
  "prefix_ready st \<longleftrightarrow> table_ok st \<and> length (cur_prefix (clients st)) = 8 \<and> length (old_prefix (clients st)) = 8
     \<and> prop_handler_check (clients st)
     \<and> (\<exists>h. filter (\<lambda>h. property h = PROP_FILE_PREFIX) (active_handlers st) = [h]
          \<and> handler h = Some prefix_handler \<and> property_length h = 8)"

text \<open>The prefix handler alone is registered, and Canon has announced the current prefix.\<close>

definition img_prefix :: "u8 list" where
  "img_prefix = [0x49, 0x4D, 0x47, 0x5F, 0, 0, 0, 0]"

definition unused_handler :: "prefix_state prop_handler" where
  "unused_handler = \<lparr>property = 0, property_length = 0, property_ack = 0, handler = None\<rparr>"

definition started :: "prefix_state prop_state" where
  "started = \<lparr>actual_num_handlers = 1, actual_num_properties = 1,
     property_handlers = unused_handler\<lparr>property := PROP_FILE_PREFIX, handler := Some prefix_handler\<rparr> # replicate 255 unused_handler,
     property_list = PROP_FILE_PREFIX # replicate 255 0, global_token = None, registered = [[PROP_FILE_PREFIX]], requests = [],
     clients = prefix_init\<rparr>"

definition announced :: "prefix_state prop_state" where
  "announced = global_token_handler 1 (global_property_handler PROP_FILE_PREFIX img_prefix 8 started)"

definition echo :: canon where
  "echo rs i = (if i = 0 then take 1 rs else [])"

lemma acknowledged_simps [simp]: "property (acknowledged p l h) = property h" "handler (acknowledged p l h) = handler h"
  by (simp_all add: acknowledged_def)

lemma fire_handler_eq:
  assumes "k < length (property_handlers st)"
  shows "fire_handler p b l k st = st\<lparr>property_handlers := (property_handlers st)[k := acknowledged p l (property_handlers st ! k)],
    clients := (if property (property_handlers st ! k) = p then run_handler p b l (property_handlers st ! k) (clients st) else clients st)\<rparr>"
  using assms by (auto simp: fire_handler_def acknowledged_def run_handler_def Let_def split: option.split)

lemma dispatch_fold:
  assumes "n \<le> length (property_handlers st)"
  shows "fold (fire_handler p b l) [0..<n] st = st\<lparr>
    property_handlers := map (acknowledged p l) (take n (property_handlers st)) @ drop n (property_handlers st),
    clients := fold (run_handler p b l) (filter (\<lambda>h. property h = p) (take n (property_handlers st))) (clients st)\<rparr>"
  using assms
proof (induction n)
  case (Suc n)
  let ?hs = "property_handlers st"
  have n: "n < length ?hs" using Suc.prems by simp
  have nth: "(map (acknowledged p l) (take n ?hs) @ drop n ?hs) ! n = ?hs ! n" using n by (simp add: nth_append)
  have upd: "(map (acknowledged p l) (take n ?hs) @ drop n ?hs)[n := acknowledged p l (?hs ! n)]
      = map (acknowledged p l) (take (Suc n) ?hs) @ drop (Suc n) ?hs"
    using n by (simp add: list_update_append take_Suc_conv_app_nth) (metis Cons_nth_drop_Suc list_update_code(2))
  show ?case using Suc n upd
    by (simp add: fire_handler_eq nth take_Suc_conv_app_nth)
qed simp

lemma dispatch_eq:
  assumes "table_ok st"
  shows "global_property_handler p b l st = st\<lparr>
    property_handlers := map (acknowledged p l) (active_handlers st) @ drop (actual_num_handlers st) (property_handlers st),
    clients := fold (run_handler p b l) (filter (\<lambda>h. property h = p) (active_handlers st)) (clients st)\<rparr>"
  using assms by (simp add: global_property_handler_def dispatch_fold table_ok_def active_handlers_def)

lemma active_dispatch:
  "table_ok st \<Longrightarrow> active_handlers (global_property_handler p b l st) = map (acknowledged p l) (active_handlers st)"
  by (simp add: dispatch_eq active_handlers_def table_ok_def)

lemma table_ok_dispatch: "table_ok st \<Longrightarrow> table_ok (global_property_handler p b l st)"
  by (simp add: dispatch_eq active_handlers_def table_ok_def)

section \<open>Runs\<close>

text \<open>
  The states of the property system after startup: whether the registration was reset since, the pairs
  of property and length of the events so far, and the state. The rules are the functions that change the state and the changes that
  clients make to their own variables; the waiting request is a sequence of them.
\<close>

inductive prop_run :: "bool \<Rightarrow> (u32 \<times> u32) set \<Rightarrow> 'u prop_state \<Rightarrow> bool" where
  startup: "prop_init internal (prop_zero u) = Inr st \<Longrightarrow> prop_run False {} st"
| token: "prop_run r E st \<Longrightarrow> prop_run r E (global_token_handler t st)"
| add_handler: "prop_run r E st \<Longrightarrow> prop_add_handler p f st = Inr st' \<Longrightarrow> prop_run r E st'"
| reset: "prop_run r E st \<Longrightarrow> prop_reset_registration internal st = Inr st' \<Longrightarrow> prop_run True E st'"
| update: "prop_run r E st \<Longrightarrow> prop_run r E (prop_update_registration st)"
| event: "prop_run r E st \<Longrightarrow> prop_run r (insert (p, len) E) (global_property_handler p buf len st)"
| reset_ack: "prop_run r E st \<Longrightarrow> prop_run r E (prop_reset_ack p st)"
| request: "prop_run r E st \<Longrightarrow> prop_run r E (prop_request_change p buf len st)"
| client: "prop_run r E st \<Longrightarrow> prop_run r E (upd_clients g st)"

lemma seen_mono: "(r \<longrightarrow> r') \<Longrightarrow> E \<subseteq> F \<Longrightarrow> seen r E p l \<Longrightarrow> seen r' F p l"
  unfolding seen_def by blast

lemma request_ok_mono:
  assumes "r \<longrightarrow> r'" "E \<subseteq> F" "request_ok r E q"
  shows "request_ok r' F q"
  using assms(3) seen_mono [OF assms(1,2)] unfolding request_ok_def by (auto split: prod.splits)

lemma len_seen_slot: "len_seen r E h \<Longrightarrow> slot_seen True E h"
  unfolding len_seen_def slot_seen_def by (auto simp: seen_def)

lemma slot_seen_len: "slot_seen r E h \<Longrightarrow> len_seen r E (h\<lparr>handler := f, property := p\<rparr>)"
  unfolding len_seen_def slot_seen_def by (auto simp: seen_def)

lemma slot_seen_mono: "slot_seen r E h \<Longrightarrow> (r \<longrightarrow> r') \<Longrightarrow> E \<subseteq> F \<Longrightarrow> slot_seen r' F h"
  unfolding slot_seen_def using seen_mono [of True True E F 0] by blast

lemma add_handler_inv:
  assumes "prop_inv r E st" and "prop_add_handler p f st = Inr st'"
  shows "prop_inv r E st'"
proof -
  let ?n = "actual_num_handlers st" and ?m = "actual_num_properties st" and ?hs = "property_handlers st"
  let ?h = "(?hs ! ?n)\<lparr>handler := f, property := p\<rparr>"
  have i: "table_ok st" "list_all (len_seen r E) (active_handlers st)" "list_all (slot_seen r E) (drop ?n ?hs)"
    "set (take ?m (property_list st)) = property ` set (active_handlers st)" "distinct (take ?m (property_list st))"
    "list_all (request_ok r E) (requests st)" using assms(1) by (simp_all add: prop_inv_def)
  have n: "?n < NUM_HANDLERS" using assms(2) by (auto simp: prop_add_handler_def Let_def split: if_splits)
  then have nl: "?n < length ?hs" using i(1) by (simp add: table_ok_def)
  have act: "active_handlers st' = active_handlers st @ [?h]" and dr: "drop (actual_num_handlers st') (property_handlers st') = drop (Suc ?n) ?hs"
    using assms(2) nl by (auto simp: prop_add_handler_def Let_def active_handlers_def take_Suc_conv_app_nth split: if_splits)
  have "slot_seen r E (?hs ! ?n)" and z': "list_all (slot_seen r E) (drop (Suc ?n) ?hs)"
    using i(3) nl by (simp_all add: Cons_nth_drop_Suc [symmetric])
  then have z: "len_seen r E ?h" using slot_seen_len by blast
  have len: "?m < length (property_list st)" using i(1) n by (simp add: table_ok_def)
  have "take (actual_num_properties st') (property_list st') =
      (if p \<in> set (take ?m (property_list st)) then take ?m (property_list st) else take ?m (property_list st) @ [p])"
    using assms(2) len by (auto simp: prop_add_handler_def Let_def take_Suc_conv_app_nth split: if_splits)
  moreover have "table_ok st'"
    using assms(2) i(1) by (auto simp: prop_add_handler_def table_ok_def Let_def split: if_splits)
  moreover have "requests st' = requests st"
    using assms(2) by (auto simp: prop_add_handler_def Let_def split: if_splits)
  ultimately show ?thesis using i act dr z z' by (auto simp: prop_inv_def)
qed

lemma add_internal_inv:
  "prop_inv r E st \<Longrightarrow> prop_add_internal_handlers hs st = Inr st' \<Longrightarrow> prop_inv r E st'"
proof (induction hs st rule: prop_add_internal_handlers.induct)
  case (2 p f hs st)
  then show ?case using add_handler_inv [of r E st p f] by (auto split: sum.splits)
qed simp

lemma register_inv: "prop_inv r E st \<Longrightarrow> prop_inv r E (prop_register_handlers st)"
  by (simp add: prop_register_handlers_def prop_inv_def table_ok_def active_handlers_def)

lemma startup_inv: "prop_init internal (prop_zero u) = Inr st \<Longrightarrow> prop_inv False {} st"
proof -
  assume s: "prop_init internal (prop_zero u) = Inr st"
  have "(prop_zero u)\<lparr>actual_num_properties := 0, actual_num_handlers := 0\<rparr> = prop_zero u" by (simp add: prop_zero_def)
  then obtain st1 where a: "prop_add_internal_handlers internal (prop_zero u) = Inr st1" and st: "st = prop_register_handlers st1"
    using s by (auto simp: prop_init_def prop_reset_registration_def prop_unregister_handlers_def split: sum.splits)
  have "prop_inv False {} (prop_zero u)"
    by (simp add: prop_inv_def prop_zero_def table_ok_def active_handlers_def list_all_iff slot_seen_def)
  then show ?thesis using add_internal_inv [OF _ a] register_inv st by blast
qed

text \<open>A reset empties the table, but the slots keep their lengths.\<close>

lemma reset_inv:
  assumes "prop_inv r E st" and "prop_reset_registration internal st = Inr st'"
  shows "prop_inv True E st'"
proof -
  let ?st = "st\<lparr>actual_num_properties := 0, actual_num_handlers := 0\<rparr>"
  obtain st1 where a: "prop_add_internal_handlers internal ?st = Inr st1" and st: "st' = prop_register_handlers st1"
    using assms(2) by (auto simp: prop_reset_registration_def prop_unregister_handlers_def split: sum.splits)
  have i: "list_all (len_seen r E) (active_handlers st)"
    "list_all (slot_seen r E) (drop (actual_num_handlers st) (property_handlers st))"
    "list_all (request_ok r E) (requests st)" using assms(1) by (simp_all add: prop_inv_def)
  have "list_all (slot_seen True E) (active_handlers st)"
    using i(1) by (rule list.pred_mono_strong) (rule len_seen_slot)
  moreover have "list_all (slot_seen True E) (drop (actual_num_handlers st) (property_handlers st))"
    using i(2) by (rule list.pred_mono_strong) (auto simp: slot_seen_def)
  ultimately have "list_all (slot_seen True E) (active_handlers st @ drop (actual_num_handlers st) (property_handlers st))"
    by simp
  then have slots: "list_all (slot_seen True E) (property_handlers st)" by (simp only: active_handlers_def append_take_drop_id)
  have "list_all (request_ok True E) (requests st)"
    using i(3) by (rule list.pred_mono_strong) (rule request_ok_mono, simp_all)
  then have "prop_inv True E ?st"
    using assms(1) slots by (simp add: prop_inv_def table_ok_def active_handlers_def)
  then show ?thesis using add_internal_inv [OF _ a] register_inv st by blast
qed

lemma len_seen_ack: "len_seen r E h \<Longrightarrow> len_seen r (insert (p, len) E) (acknowledged p len h)"
  by (cases "property h = p"; cases "property_length h = 0") (auto simp: len_seen_def seen_def acknowledged_def)

lemma wait_ack_first:
  "0 < n \<Longrightarrow> prop_get_ack p (deliver (arrives i) st) \<noteq> 0 \<Longrightarrow> wait_ack arrives p i n st = (True, deliver (arrives i) st)"
  by (cases n) (simp_all add: Let_def)

lemma event_inv:
  assumes "prop_inv r E st" shows "prop_inv r (insert (p, len) E) (global_property_handler p buf len st)"
proof -
  let ?st = "global_property_handler p buf len st"
  have t: "table_ok st" using assms by (simp add: prop_inv_def)
  have "list_all (len_seen r (insert (p, len) E)) (map (acknowledged p len) (active_handlers st))"
    using assms by (auto simp: prop_inv_def list_all_iff len_seen_ack)
  moreover have "drop (actual_num_handlers ?st) (property_handlers ?st) = drop (actual_num_handlers st) (property_handlers st)"
    using t by (simp add: dispatch_eq active_handlers_def table_ok_def)
  moreover have "list_all (slot_seen r (insert (p, len) E)) (drop (actual_num_handlers st) (property_handlers st))"
    using assms slot_seen_mono [OF _ _ subset_insertI, of r E _ r] unfolding prop_inv_def list_all_iff by blast
  moreover have "list_all (request_ok r (insert (p, len) E)) (requests st)"
    using assms request_ok_mono [OF _ subset_insertI, of r r] unfolding prop_inv_def list_all_iff by blast
  moreover have "take (actual_num_properties ?st) (property_list ?st) = take (actual_num_properties st) (property_list st)"
    "requests ?st = requests st" using t by (simp_all add: dispatch_eq)
  ultimately show ?thesis using assms t
    by (simp add: prop_inv_def table_ok_dispatch active_dispatch image_comp comp_def)
qed

lemma active_reset_ack:
  "table_ok st \<Longrightarrow> active_handlers (prop_reset_ack p st) = map (\<lambda>h. if property h = p then h\<lparr>property_ack := 0\<rparr> else h) (active_handlers st)"
  by (simp add: prop_reset_ack_def active_handlers_def table_ok_def)

lemma reset_ack_inv:
  fixes st :: "'a prop_state"
  shows "prop_inv r E st \<Longrightarrow> prop_inv r E (prop_reset_ack p st)"
proof -
  assume a: "prop_inv r E st"
  then have t: "table_ok st" by (simp add: prop_inv_def)
  then have "drop (actual_num_handlers (prop_reset_ack p st)) (property_handlers (prop_reset_ack p st)) = drop (actual_num_handlers st) (property_handlers st)"
    by (simp add: prop_reset_ack_def active_handlers_def table_ok_def)
  moreover have "table_ok (prop_reset_ack p st)" using t by (simp add: prop_reset_ack_def active_handlers_def table_ok_def)
  moreover have "property ` set (active_handlers (prop_reset_ack p st)) = property ` set (active_handlers st)"
    
  proof -
    have m: "map property (map (\<lambda>h. if property h = p then h\<lparr>property_ack := 0\<rparr> else h) xs) = map property xs"
      for xs :: "'a prop_handler list" by (induction xs) simp_all
    have "set (map property (active_handlers (prop_reset_ack p st))) = set (map property (active_handlers st))"
      unfolding active_reset_ack [OF t] m ..
    then show ?thesis unfolding set_map .
  qed
  moreover have "list_all (len_seen r E) (active_handlers (prop_reset_ack p st))"
    
  proof -
    have "len_seen r E (if property h = p then h\<lparr>property_ack := 0\<rparr> else h) = len_seen r E h" for h :: "'a prop_handler"
      by (simp add: len_seen_def)
    then show ?thesis using a unfolding active_reset_ack [OF t] prop_inv_def by (simp add: list.pred_map comp_def)
  qed
  moreover have "actual_num_properties (prop_reset_ack p st) = actual_num_properties st"
    "property_list (prop_reset_ack p st) = property_list st" "requests (prop_reset_ack p st) = requests st"
    by (simp_all add: prop_reset_ack_def)
  ultimately show ?thesis using a unfolding prop_inv_def by presburger
qed

lemma request_inv: "prop_inv r E st \<Longrightarrow> prop_inv r E (prop_request_change p buf len st)"
proof -
  assume a: "prop_inv r E st"
  have "request_ok r E (p, buf, prop_get_prop_len p st)" if "prop_get_prop_len p st \<noteq> 0"
  proof -
    note nz = that
    obtain h where f: "find (\<lambda>h. property h = p) (active_handlers st) = Some h"
      using nz by (cases "find (\<lambda>h. property h = p) (active_handlers st)") (simp_all add: prop_get_prop_len_def)
    have h: "prop_get_prop_len p st = ucast (property_length h)" using f by (simp add: prop_get_prop_len_def)
    have hm: "h \<in> set (active_handlers st)" "property h = p" using f by (auto simp: find_Some_iff)
    have "property_length h \<noteq> 0" using h that by auto
    moreover have "len_seen r E h" using a hm(1) by (simp add: prop_inv_def list_all_iff)
    ultimately show ?thesis using that hm(2) unfolding h request_ok_def len_seen_def by auto
  qed
  moreover have "request_ok r E (PROP_BATTERY_REPORT, buf, 1)" by (simp add: request_ok_def)
  ultimately show ?thesis using a
    by (auto simp: prop_request_change_def Let_def prop_inv_def table_ok_def active_handlers_def)
qed

lemma prop_run_inv: "prop_run r E st \<Longrightarrow> prop_inv r E st"
proof (induction rule: prop_run.induct)
  case (token r E st t)
  then show ?case by (simp add: prop_inv_def global_token_handler_def table_ok_def active_handlers_def)
next
  case (client r E st g)
  then show ?case by (simp add: prop_inv_def upd_clients_def table_ok_def active_handlers_def)
next
  case (update r E st)
  then show ?case by (simp add: prop_update_registration_def prop_unregister_handlers_def register_inv)
qed (simp_all add: startup_inv add_handler_inv reset_inv event_inv reset_ack_inv request_inv)

section \<open>Waiting\<close>

lemma find_filter: "find P xs = (case filter P xs of [] \<Rightarrow> None | x # _ \<Rightarrow> Some x)"
  by (induction xs) simp_all

lemma prefix_wait:
  assumes "prefix_ready st" and "confirms canon" and "length d = 8"
  obtains st' where "prop_request_change_wait False canon PROP_FILE_PREFIX d 8 1000 st = (True, st')"
    and "clients st' = prefix_handler PROP_FILE_PREFIX d 8 (clients st)" and "prefix_ready st'"
proof -
  let ?p = PROP_FILE_PREFIX
  obtain h where t: "table_ok st" and h: "filter (\<lambda>h. property h = ?p) (active_handlers st) = [h]"
      "handler h = Some prefix_handler" "property_length h = 8"
    using assms(1) by (auto simp: prefix_ready_def)
  let ?s = "prop_reset_ack ?p st"
  have p: "property h = ?p" using h(1) by (metis (mono_tags, lifting) Cons_eq_filterD)
  have f1: "filter (\<lambda>h. property h = ?p) (active_handlers ?s) = [h\<lparr>property_ack := 0\<rparr>]"
  proof -
    have "filter (\<lambda>h. property h = ?p) (map (\<lambda>h. if property h = ?p then h\<lparr>property_ack := 0\<rparr> else h) xs)
      = map (\<lambda>h. h\<lparr>property_ack := 0\<rparr>) (filter (\<lambda>h. property h = ?p) xs)" for xs :: "prefix_state prop_handler list"
      by (induction xs) auto
    then show ?thesis using h(1) t by (simp add: active_reset_ack)
  qed
  have ts: "table_ok ?s" using t by (simp add: prop_reset_ack_def active_handlers_def table_ok_def)
  let ?r = "?s\<lparr>requests := (?p, d, 8) # requests ?s\<rparr>"
  have r: "prop_request_change ?p d 8 ?s = ?r"
    using f1 h(3) by (simp add: prop_request_change_def prop_get_prop_len_def find_filter Let_def)
  have tr: "table_ok ?r" and ar: "active_handlers ?r = active_handlers ?s"
    using ts by (simp_all add: table_ok_def active_handlers_def)
  let ?st' = "global_property_handler ?p d 8 ?r"
  have f2: "filter (\<lambda>h. property h = ?p) (active_handlers ?st') = [acknowledged ?p 8 (h\<lparr>property_ack := 0\<rparr>)]"
    using f1 by (simp add: active_dispatch [OF tr] ar filter_map comp_def)
  have ack: "prop_get_ack ?p ?st' \<noteq> 0" using f2 p by (simp add: prop_get_ack_def find_filter acknowledged_def)
  have cl: "clients ?st' = prefix_handler ?p d 8 (clients st)"
    using f1 h(2) by (simp add: dispatch_eq [OF tr] ar run_handler_def) (simp add: prop_reset_ack_def)
  have "0 < nat (c_div 1000 20)" by (simp add: c_int_simps)
  then have "prop_request_change_wait False canon ?p d 8 1000 st = (True, ?st')"
    using ack assms(2) by (simp add: prop_request_change_wait_def r Let_def wait_ack_first confirms_def deliver_def)
  moreover have "prefix_ready ?st'"
    using table_ok_dispatch [OF tr] f2 h(2,3) p assms(1,3) cl
    by (simp add: prefix_ready_def acknowledged_def prefix_handler_def copy_text_def Let_def)
  ultimately show ?thesis using that cl by blast
qed

section \<open>Prefix texts\<close>

lemma length_copy_text: "length dst = 8 \<Longrightarrow> length (copy_text dst s) = 8"
  by (simp add: copy_text_def Let_def)

lemma c_text_nonzero: "0 \<notin> set (c_text s)"
  unfolding c_text_def using set_takeWhileD by fastforce

lemma c_text_copy: "c_text (copy_text dst s) = take 7 (c_text s)"
proof -
  have "0 \<notin> set (take 7 (c_text s))" using c_text_nonzero set_take_subset by fast
  then have "takeWhile (\<lambda>b. b \<noteq> 0) (take 7 (c_text s) @ 0 # xs) = take 7 (c_text s)" for xs
    by (subst takeWhile_append2) auto
  then show ?thesis by (simp add: copy_text_def Let_def) (simp add: c_text_def [of "_ @ _"])
qed

lemma copy_text_copy: "copy_text dst (copy_text d s) = copy_text dst s"
  unfolding copy_text_def [of dst] c_text_copy by simp

lemma copy_text_nth: "k \<le> min 7 (length (c_text s)) \<Longrightarrow> copy_text dst s ! k = copy_text dst' s ! k"
  by (simp add: copy_text_def Let_def nth_append)

lemma copy_text_keeps: "length (c_text s) < k \<Longrightarrow> k < 8 \<Longrightarrow> length dst = 8 \<Longrightarrow> copy_text dst s ! k = dst ! k"
  by (simp add: copy_text_def Let_def nth_append)

lemma first_int_rd32: "first_int bs = rd32 (\<lambda>a. bs ! unat a) 0"
  by (simp add: first_int_def rd32_def)

lemma first_int_inj: "first_int a = first_int b \<Longrightarrow> a ! 3 = b ! 3"
  unfolding first_int_rd32 by (drule arg_cong [of _ _ "\<lambda>w. ucast (drop_bit 24 w) :: u8"]) (simp add: rd32_bytes)

lemma first_int_cong: "(\<And>k. k < 4 \<Longrightarrow> a ! k = b ! k) \<Longrightarrow> first_int a = first_int b"
  by (simp add: first_int_def)

lemma prefix_set:
  assumes "prefix_ready st" and "confirms canon" and "\<not> custom_file_prefix (clients st)"
  obtains st' where "file_prefix_set False canon rnd new st = (rnd + NOT (first_int (copy_text (replicate 8 0) new)), st')"
    and "prefix_ready st'" and "custom_file_prefix (clients st')" and "check_key (clients st') = rnd"
    and "cur_prefix (clients st') = copy_text (cur_prefix (clients st)) (copy_text (replicate 8 0) new)"
    and "old_prefix (clients st') = copy_text (old_prefix (clients st)) (cur_prefix (clients st))"
proof -
  let ?st1 = "upd_clients (\<lambda>u. u\<lparr>custom_file_prefix := True, old_prefix := copy_text (old_prefix u) (cur_prefix u)\<rparr>) st"
  let ?buf = "copy_text (replicate 8 0) new"
  have ready: "prefix_ready ?st1"
    using assms(1) by (simp add: prefix_ready_def upd_clients_def table_ok_def active_handlers_def length_copy_text)
  have len: "length ?buf = 8" by (rule length_copy_text) simp
  obtain st2 where w: "prop_request_change_wait False canon PROP_FILE_PREFIX ?buf 8 1000 ?st1 = (True, st2)"
    and c: "clients st2 = prefix_handler PROP_FILE_PREFIX ?buf 8 (clients ?st1)" and r: "prefix_ready st2"
    by (rule prefix_wait [OF ready assms(2) len])
  have "prefix_ready (upd_clients (\<lambda>u. u\<lparr>check_key := rnd\<rparr>) st2)"
    using r by (simp add: prefix_ready_def upd_clients_def table_ok_def active_handlers_def)
  moreover have "prop_handler_check (clients st)" using assms(1) by (simp add: prefix_ready_def)
  ultimately show ?thesis
    using w c assms(3) by (intro that [of "upd_clients (\<lambda>u. u\<lparr>check_key := rnd\<rparr>) st2"]) (simp_all add: file_prefix_set_def Let_def upd_clients_def prefix_handler_def)
qed

lemma prefix_reset:
  assumes "prefix_ready st" and "confirms canon" and "custom_file_prefix (clients st)"
    and "key = check_key (clients st) + NOT (first_int (cur_prefix (clients st)))"
  obtains st' where "file_prefix_reset False canon key st = (1, st')" and "\<not> custom_file_prefix (clients st')"
    and "cur_prefix (clients st') = copy_text (cur_prefix (clients st)) (old_prefix (clients st))"
proof -
  have len: "length (old_prefix (clients st)) = 8" using assms(1) by (simp add: prefix_ready_def)
  obtain st2 where "prop_request_change_wait False canon PROP_FILE_PREFIX (old_prefix (clients st)) 8 1000 st = (True, st2)"
    and "clients st2 = prefix_handler PROP_FILE_PREFIX (old_prefix (clients st)) 8 (clients st)"
    by (rule prefix_wait [OF assms(1,2) len])
  then show ?thesis
    using assms(3,4) by (intro that [of "upd_clients (\<lambda>u. u\<lparr>custom_file_prefix := False\<rparr>) st2"]) (simp_all add: file_prefix_reset_def Let_def upd_clients_def prefix_handler_def)
qed

section \<open>Properties\<close>


text \<open>
  A reset gives the first internal handler the length that its slot had learned for another property.
\<close>

lemma reset_keeps_length:
  assumes "table_ok st" and "prop_reset_registration [(p, f)] st = Inr st'"
  shows "prop_get_prop_len p st' = ucast (property_length (property_handlers st ! 0))"
  using assms
  by (auto simp: prop_reset_registration_def prop_add_handler_def prop_unregister_handlers_def prop_register_handlers_def
    prop_get_prop_len_def active_handlers_def table_ok_def NUM_HANDLERS_def Let_def take_Suc_conv_app_nth split: if_splits)

text \<open>
  C36: A property event reaches every handler of the property exactly once, in the order of
  registration, and no other; afterwards each of them is acknowledged and has a recorded length, the
  first nonzero one.
\<close>

theorem property_event_dispatch:
  assumes "prop_run r E st"
  shows "clients (global_property_handler p buf len st) =
      fold (run_handler p buf len) (filter (\<lambda>h. property h = p) (active_handlers st)) (clients st)
    \<and> active_handlers (global_property_handler p buf len st) = map (acknowledged p len) (active_handlers st)
    \<and> prop_get_ack p (global_property_handler p buf len st) = (if p \<in> property ` set (active_handlers st) then 1 else 0)"
proof -
  have t: "table_ok st" using prop_run_inv [OF assms] by (simp add: prop_inv_def)
  have "(case find (\<lambda>h. property h = p) (map (acknowledged p len) hs) of Some h \<Rightarrow> ucast (property_ack h) | None \<Rightarrow> (0 :: u32))
      = (if p \<in> property ` set hs then 1 else 0)" for hs :: "'a prop_handler list"
    by (induction hs) (auto simp: acknowledged_def)
  then show ?thesis
    using t by (simp add: prop_get_ack_def active_dispatch) (simp add: dispatch_eq)
qed

text \<open>
  Once Canon's token has arrived, \<^verbatim>\<open>prop_update_registration\<close> registers nothing: without
  \<^verbatim>\<open>CONFIG_UNREGISTER_PROP\<close>, which no camera defines, the token is never cleared. A handler
  for a property that is not registered yet, as a loaded module may bring it, is put on the list, but Canon never
  hears of the property.
\<close>

theorem prop_update_registers_nothing:
  assumes "prop_run r E st" and "global_token st = Some t" and "prop_add_handler p f st = Inr st'"
    and "list_all (\<lambda>ps. p \<notin> set ps) (registered st)"
  shows "p \<in> set (take (actual_num_properties st') (property_list st'))
    \<and> list_all (\<lambda>ps. p \<notin> set ps) (registered (prop_update_registration st'))"
proof -
  have i: "prop_inv r E st" "prop_inv r E st'"
    using prop_run_inv [OF assms(1)] add_handler_inv [OF _ assms(3)] by blast+
  have "actual_num_handlers st < length (property_handlers st)"
    using assms(3) i(1) by (auto simp: prop_add_handler_def prop_inv_def table_ok_def Let_def split: if_splits)
  then have "p \<in> property ` set (active_handlers st')"
    using assms(3) by (auto simp: prop_add_handler_def active_handlers_def Let_def take_Suc_conv_app_nth split: if_splits)
  then have "p \<in> set (take (actual_num_properties st') (property_list st'))" using i(2) by (simp add: prop_inv_def)
  moreover have "global_token st' = Some t" "registered st' = registered st"
    using assms(2,3) by (auto simp: prop_add_handler_def Let_def split: if_splits)
  ultimately show ?thesis
    using assms(4) by (simp add: prop_update_registration_def prop_unregister_handlers_def prop_register_handlers_def)
qed

text \<open>
  C37: A custom file prefix can be set and undone, and only by its owner: with the property system ready
  and a camera that confirms changes, setting a prefix of at least 3 characters takes effect
  (7 characters of it), a second request is denied while it is set, and resetting it with the returned key restores
  the old prefix and releases it.
\<close>

theorem file_prefix_roundtrip:
  assumes "prefix_ready st" and "confirms canon" and "\<not> custom_file_prefix (clients st)"
    and "3 \<le> length (c_text new)" and "length (c_text (cur_prefix (clients st))) \<le> 7"
    and "file_prefix_set False canon rnd new st = (key, st1)"
  shows "c_text (cur_prefix (clients st1)) = take 7 (c_text new)
    \<and> file_prefix_set mgr canon' rnd' new' st1 = (0, st1)
    \<and> (\<exists>st2. file_prefix_reset False canon key st1 = (1, st2)
        \<and> c_text (cur_prefix (clients st2)) = c_text (cur_prefix (clients st)) \<and> \<not> custom_file_prefix (clients st2))"
proof -
  let ?buf = "copy_text (replicate 8 0) new"
  obtain st' where s: "file_prefix_set False canon rnd new st = (rnd + NOT (first_int ?buf), st')"
    "prefix_ready st'" "custom_file_prefix (clients st')" "check_key (clients st') = rnd"
    "cur_prefix (clients st') = copy_text (cur_prefix (clients st)) ?buf"
    "old_prefix (clients st') = copy_text (old_prefix (clients st)) (cur_prefix (clients st))"
    by (rule prefix_set [OF assms(1-3)])
  have e: "st1 = st'" "key = rnd + NOT (first_int ?buf)" using s(1) assms(6) by simp_all
  have "copy_text (cur_prefix (clients st)) ?buf ! k = ?buf ! k" if "k < 4" for k
    unfolding copy_text_copy by (rule copy_text_nth) (use that assms(4) in simp)
  then have "first_int (cur_prefix (clients st')) = first_int ?buf" unfolding s(5) by (rule first_int_cong)
  then have "key = check_key (clients st') + NOT (first_int (cur_prefix (clients st')))" using e(2) s(4) by simp
  from prefix_reset [OF s(2) assms(2) s(3) this] obtain st2 where "file_prefix_reset False canon key st' = (1, st2)"
    "\<not> custom_file_prefix (clients st2)" "cur_prefix (clients st2) = copy_text (cur_prefix (clients st')) (old_prefix (clients st'))"
    by blast
  moreover have "file_prefix_set mgr canon' rnd' new' st' = (0, st')"
    using s(2,3) by (simp add: file_prefix_set_def)
  ultimately show ?thesis using s(5,6) assms(5) by (auto simp: e(1) c_text_copy)
qed

text \<open>
  With a prefix shorter than 3 characters the owner is locked out: the key is computed from a zeroed
  buffer, but checked against the array, which keeps the bytes of the previous prefix behind the terminator. The reset is refused
  and the custom prefix stays set.
\<close>

theorem short_file_prefix_stuck:
  assumes "prefix_ready st" and "confirms canon" and "\<not> custom_file_prefix (clients st)"
    and "length (c_text new) < 3" and "cur_prefix (clients st) ! 3 \<noteq> 0"
    and "file_prefix_set False canon rnd new st = (key, st1)"
  shows "custom_file_prefix (clients st1) \<and> file_prefix_reset mgr canon' key st1 = (0, st1)"
proof -
  let ?buf = "copy_text (replicate 8 0) new"
  obtain st' where s: "file_prefix_set False canon rnd new st = (rnd + NOT (first_int ?buf), st')"
    "custom_file_prefix (clients st')" "check_key (clients st') = rnd"
    "cur_prefix (clients st') = copy_text (cur_prefix (clients st)) ?buf"
    by (rule prefix_set [OF assms(1-3)])
  have e: "st1 = st'" "key = rnd + NOT (first_int ?buf)" using s(1) assms(6) by simp_all
  have "length (cur_prefix (clients st)) = 8" using assms(1) by (simp add: prefix_ready_def)
  then have "cur_prefix (clients st') ! 3 \<noteq> 0" "?buf ! 3 = 0"
    using assms(4,5) by (simp_all add: s(4) copy_text_keeps c_text_copy)
  then have "first_int (cur_prefix (clients st')) \<noteq> first_int ?buf" using first_int_inj by metis
  then show ?thesis using s(2,3) by (simp add: e file_prefix_reset_def)
qed

section \<open>A sample run\<close>

lemma replicate_handlers: "replicate NUM_HANDLERS x = x # replicate 255 x"
  using replicate_Suc [of 255 x] by (simp add: NUM_HANDLERS_def)

lemma started_init: "prop_init [(PROP_FILE_PREFIX, Some prefix_handler)] (prop_zero prefix_init) = Inr started"
  by (simp add: prop_init_def prop_reset_registration_def prop_unregister_handlers_def prop_zero_def prop_add_handler_def
    prop_register_handlers_def started_def unused_handler_def Let_def replicate_handlers) (simp add: NUM_HANDLERS_def)

lemma announced_run: "prop_run False {(PROP_FILE_PREFIX, 8)} announced"
  unfolding announced_def by (intro prop_run.token prop_run.event prop_run.startup [OF started_init])

lemma announced_eq:
  "active_handlers announced = [unused_handler\<lparr>property := PROP_FILE_PREFIX, property_length := 8, property_ack := 1,
     handler := Some prefix_handler\<rparr>]"
  "clients announced = prefix_handler PROP_FILE_PREFIX img_prefix 8 prefix_init"
  "requests announced = []" "registered announced = [[PROP_FILE_PREFIX]]" "global_token announced = Some 1"
  "actual_num_handlers announced = 1"
proof -
  have t: "table_ok started" using prop_run_inv [OF prop_run.startup [OF started_init]] by (simp add: prop_inv_def)
  have a: "active_handlers started = [unused_handler\<lparr>property := PROP_FILE_PREFIX, handler := Some prefix_handler\<rparr>]"
    by (simp add: active_handlers_def started_def)
  have u: "property_length unused_handler = 0" by (simp add: unused_handler_def)
  show "active_handlers announced = [unused_handler\<lparr>property := PROP_FILE_PREFIX, property_length := 8, property_ack := 1,
     handler := Some prefix_handler\<rparr>]"
    using active_dispatch [OF t, of PROP_FILE_PREFIX img_prefix 8] a u
    by (simp add: announced_def global_token_handler_def active_handlers_def acknowledged_def)
  show "clients announced = prefix_handler PROP_FILE_PREFIX img_prefix 8 prefix_init"
    by (simp add: announced_def global_token_handler_def dispatch_eq [OF t] a run_handler_def) (simp add: started_def)
  show "requests announced = []" "registered announced = [[PROP_FILE_PREFIX]]" "global_token announced = Some 1"
    "actual_num_handlers announced = 1"
    by (simp_all add: announced_def global_token_handler_def dispatch_eq [OF t]) (simp_all add: started_def)
qed

lemma announced_ready: "prefix_ready announced" "\<not> custom_file_prefix (clients announced)"
    "c_text (cur_prefix (clients announced)) = [0x49, 0x4D, 0x47, 0x5F]" "cur_prefix (clients announced) ! 3 = 0x5F"
  using prop_run_inv [OF announced_run]
  by (simp_all add: prefix_ready_def prop_inv_def announced_eq prefix_handler_def prefix_init_def img_prefix_def copy_text_def c_text_def)

lemma echo_confirms: "confirms echo"
  by (simp add: confirms_def echo_def)


theorem property_event_dispatch_witness:
  "prop_get_ack PROP_FILE_PREFIX (global_property_handler PROP_FILE_PREFIX img_prefix 8 announced) = 1"
  using property_event_dispatch [OF announced_run, of PROP_FILE_PREFIX img_prefix 8] by (simp add: announced_eq)

theorem prop_update_registers_nothing_witness:
  "\<exists>st'. prop_add_handler 0x80050000 None announced = Inr st'
    \<and> list_all (\<lambda>ps. 0x80050000 \<notin> set ps) (registered (prop_update_registration st'))"
proof -
  have "\<exists>st'. prop_add_handler 0x80050000 None announced = Inr st'"
    using prop_run_inv [OF announced_run]
    by (auto simp: prop_add_handler_def prop_inv_def table_ok_def announced_eq NUM_HANDLERS_def Let_def)
  then obtain st' where "prop_add_handler 0x80050000 None announced = Inr st'" by blast
  with prop_update_registers_nothing [OF announced_run announced_eq(5) this]
  show ?thesis by (simp add: announced_eq PROP_FILE_PREFIX_def)
qed

theorem file_prefix_roundtrip_witness:
  "\<exists>key st1 st2. file_prefix_set False echo 7 [0x41, 0x42, 0x43, 0x44] announced = (key, st1)
    \<and> c_text (cur_prefix (clients st1)) = [0x41, 0x42, 0x43, 0x44]
    \<and> file_prefix_reset False echo key st1 = (1, st2) \<and> c_text (cur_prefix (clients st2)) = [0x49, 0x4D, 0x47, 0x5F]"
proof -
  obtain key st1 where s: "file_prefix_set False echo 7 [0x41, 0x42, 0x43, 0x44] announced = (key, st1)" by fastforce
  from file_prefix_roundtrip [OF announced_ready(1) echo_confirms announced_ready(2) _ _ s, of False echo 0 "[]"]
  show ?thesis using s announced_ready(3) by (auto simp: c_text_def)
qed

theorem short_file_prefix_stuck_witness:
  "\<exists>key st1. file_prefix_set False echo 7 [0x41] announced = (key, st1) \<and> file_prefix_reset False echo key st1 = (0, st1)"
proof -
  obtain key st1 where s: "file_prefix_set False echo 7 [0x41] announced = (key, st1)" by fastforce
  from short_file_prefix_stuck [OF announced_ready(1) echo_confirms announced_ready(2) _ _ s]
  show ?thesis using s announced_ready(4) by (auto simp: c_text_def)
qed

end
