(* ===== verification/ML_Bootflags.thy ===== *)
theory ML_Bootflags
  imports ML_Codec
begin

text \<open>
  The boot flags of a memory card, \<^verbatim>\<open>src/src/bootflags.c\<close>: the labels that make Canon's
  loader boot from the card are written into the boot sector of a FAT partition, or into both boot
  regions of an exFAT partition, whose checksum sectors are recomputed. The driver of the card
  (\<open>cf_device\<close>), \<^verbatim>\<open>fsuDecodePartitionTable\<close> and \<^verbatim>\<open>fio_malloc\<close> are Canon's and are
  arguments; \<open>card_ok\<close> states what a working driver does. Buffers are byte lists. The pause
  that follows a notice is not modelled.
\<close>

section \<open>Data\<close>

text \<open>
  A read returns its result code and the contents of the buffer, a write its result code and the
  card.
\<close>

record 'd cf_device =
  read_block :: "'d \<Rightarrow> u8 list \<Rightarrow> u32 \<Rightarrow> nat \<Rightarrow> int \<times> u8 list"
  write_block :: "'d \<Rightarrow> u8 list \<Rightarrow> u32 \<Rightarrow> nat \<Rightarrow> int \<times> 'd"

record partition_table =
  pt_state :: u8
  start_head :: u8
  start_cylinder_sector :: u16
  pt_type :: u8
  end_head :: u8
  end_cylinder_sector :: u16
  sectors_before_partition :: u32
  sectors_in_partition :: u32

datatype boot_notice = Write_failed u8 u32 int | Unknown_partition u8 | Unknown_file_system

datatype boot_error = Null_buffer

text \<open>\<open>live_buffers\<close> counts the buffers that were allocated and not yet freed.\<close>

record 'd boot_state =
  card :: 'd
  live_buffers :: nat
  notices :: "boot_notice list"

section \<open>Operations\<close>

definition memcpy_at :: "u8 list \<Rightarrow> nat \<Rightarrow> u8 list \<Rightarrow> u8 list" where
  "memcpy_at buf off src = take off buf @ src @ drop (off + length src) buf"

definition c_bytes :: "string \<Rightarrow> u8 list" where
  "c_bytes s = map (\<lambda>c. of_nat (of_char c)) s"

definition VBRChecksum :: "u8 list \<Rightarrow> nat \<Rightarrow> u32" where
  "VBRChecksum octets NumberOfBytes =
     fold (\<lambda>Index Checksum.
       if Index \<noteq> 106 \<and> Index \<noteq> 107 \<and> Index \<noteq> 112
       then (push_bit 31 Checksum OR drop_bit 1 Checksum) + ucast (octets ! Index)
       else Checksum) [0..<NumberOfBytes] 0"

text \<open>The argument \<open>base\<close> is the offset of the boot region in the buffer.\<close>

definition exfat_sum :: "nat \<Rightarrow> u8 list \<Rightarrow> u8 list" where
  "exfat_sum base buf =
     (let sum = VBRChecksum (drop base buf) (512 * 11)
      in fold (\<lambda>k b. memcpy_at b (base + 512 * 11 + 4 * k) (le32 sum)) [0..<128] buf)"

definition put_labels :: "nat \<Rightarrow> nat \<Rightarrow> u8 list \<Rightarrow> u8 list" where
  "put_labels off1 off2 buf =
     memcpy_at (memcpy_at buf off1 (c_bytes ''EOS_DEVELOP'')) off2 (c_bytes ''BOOTDISK'')"

definition mark_exfat :: "u8 list \<Rightarrow> u8 list" where
  "mark_exfat buf =
     (let off1 = 130; off2 = 122;
          buf = put_labels off1 off2 buf;
          buf = put_labels (512 * 12 + off1) (512 * 12 + off2) buf;
          buf = exfat_sum 0 buf
      in exfat_sum (512 * 12) buf)"

text \<open>
  \<open>fio n\<close> is the contents of the buffer that \<^verbatim>\<open>fio_malloc(n)\<close> returns, or None for the
  null pointer, which the code goes on to use.
\<close>

definition write_fat :: "'d cf_device \<Rightarrow> partition_table \<Rightarrow> u8 list \<Rightarrow> 'd boot_state \<Rightarrow> boot_error + int \<times> 'd boot_state" where
  "write_fat dev p block st =
     (let block = snd (read_block dev (card st) block (sectors_before_partition p) 1);
          off1 = (if pt_type p = 6 then 0x2b else 0x47);
          off2 = (if pt_type p = 6 then 0x40 else 0x5c);
          block = put_labels off1 off2 block;
          (rc, c) = write_block dev (card st) block (sectors_before_partition p) 1;
          st = st\<lparr>card := c\<rparr>
      in if rc \<noteq> 1
         then Inr (0, st\<lparr>notices := Write_failed (pt_type p) (sectors_before_partition p) rc # notices st\<rparr>)
         else Inr (1, st\<lparr>live_buffers := live_buffers st - 1\<rparr>))"

definition write_exfat :: "'d cf_device \<Rightarrow> partition_table \<Rightarrow> (nat \<Rightarrow> u8 list option) \<Rightarrow> 'd boot_state \<Rightarrow> boot_error + int \<times> 'd boot_state" where
  "write_exfat dev p fio st =
     (case fio (512 * 24) of None \<Rightarrow> Inl Null_buffer
      | Some buf \<Rightarrow>
        (let st = st\<lparr>live_buffers := live_buffers st + 1\<rparr>;
             buf = snd (read_block dev (card st) buf (sectors_before_partition p) 24);
             buf = mark_exfat buf;
             (rc, c) = write_block dev (card st) buf (sectors_before_partition p) 24;
             st = st\<lparr>card := c, live_buffers := live_buffers st - 1\<rparr>
         in Inr (1, st\<lparr>live_buffers := live_buffers st - 1\<rparr>)))"

definition bootflag_write_bootblock ::
  "'d cf_device option \<Rightarrow> (u8 list \<Rightarrow> partition_table) \<Rightarrow> (nat \<Rightarrow> u8 list option) \<Rightarrow> 'd boot_state
    \<Rightarrow> boot_error + int \<times> 'd boot_state" where
  "bootflag_write_bootblock dev_ptr fsuDecodePartitionTable fio st =
     (case dev_ptr of None \<Rightarrow> Inr (0, st)
      | Some dev \<Rightarrow>
     (case fio 512 of None \<Rightarrow> Inl Null_buffer
      | Some _ \<Rightarrow>
        (let st = st\<lparr>live_buffers := live_buffers st + 1\<rparr>;
             block = replicate 0x200 0xAA;
             block = snd (read_block dev (card st) block 0 1);
             p = fsuDecodePartitionTable (drop 446 block)
         in if pt_type p = 6 \<or> pt_type p = 0xb \<or> pt_type p = 0xc then write_fat dev p block st
            else if pt_type p = 7 then write_exfat dev p fio st
            else Inr (0, st\<lparr>live_buffers := live_buffers st - 1, notices := Unknown_partition (pt_type p) # notices st\<rparr>))))"

text \<open>
  The variant for the 500D, 50D, 5D2 and 40D, whose driver addresses the first partition: the kind
  of file system is read from the boot sector itself.
\<close>

definition bootflag_write_bootblock_500D ::
  "'d cf_device \<Rightarrow> (nat \<Rightarrow> u8 list option) \<Rightarrow> 'd boot_state \<Rightarrow> boot_error + int \<times> 'd boot_state" where
  "bootflag_write_bootblock_500D dev fio st =
     (case fio 512 of None \<Rightarrow> Inl Null_buffer
      | Some _ \<Rightarrow>
        (let st = st\<lparr>live_buffers := live_buffers st + 1\<rparr>;
             block = snd (read_block dev (card st) (replicate 512 0xAA) 0 1)
         in if take 5 (drop 0x52 block) = c_bytes ''FAT32'' then
              (let block = snd (read_block dev (card st) block 0 1);
                   block = put_labels 0x47 0x5C block;
                   c = snd (write_block dev (card st) block 0 1)
               in Inr (1, st\<lparr>card := c, live_buffers := live_buffers st - 1\<rparr>))
            else if take 5 (drop 0x36 block) = c_bytes ''FAT16'' then
              (let block = snd (read_block dev (card st) block 0 1);
                   block = put_labels 0x2B 0x40 block;
                   c = snd (write_block dev (card st) block 0 1)
               in Inr (1, st\<lparr>card := c, live_buffers := live_buffers st - 1\<rparr>))
            else if take 5 (drop 0x3 block) = c_bytes ''EXFAT'' then
              (case fio (512 * 24) of None \<Rightarrow> Inl Null_buffer
               | Some buf \<Rightarrow>
                 (let st = st\<lparr>live_buffers := live_buffers st + 1\<rparr>;
                      buf = snd (read_block dev (card st) buf 0 24);
                      buf = mark_exfat buf;
                      c = snd (write_block dev (card st) buf 0 24);
                      st = st\<lparr>card := c, live_buffers := live_buffers st - 1\<rparr>
                  in Inr (1, st\<lparr>live_buffers := live_buffers st - 1\<rparr>)))
            else Inr (0, st\<lparr>notices := Unknown_file_system # notices st\<rparr>)))"

section \<open>Specification\<close>

text \<open>
  A working driver, over the 512-byte sectors \<open>sect d s\<close> of a card: both calls return the number of
  blocks.
\<close>

definition card_ok :: "'d cf_device \<Rightarrow> ('d \<Rightarrow> u32 \<Rightarrow> u8 list) \<Rightarrow> bool" where
  "card_ok dev sect \<longleftrightarrow>
     (\<forall>d s. length (sect d s) = 512)
     \<and> (\<forall>d buf b n. read_block dev d buf b n = (int n, concat (map (\<lambda>i. sect d (b + of_nat i)) [0..<n]) @ drop (512 * n) buf))
     \<and> (\<forall>d buf b n. length buf = 512 * n \<longrightarrow> fst (write_block dev d buf b n) = int n
          \<and> sect (snd (write_block dev d buf b n)) =
              (\<lambda>s. if unat (s - b) < n then take 512 (drop (512 * unat (s - b)) buf) else sect d s))"

definition has_labels :: "nat \<Rightarrow> nat \<Rightarrow> u8 list \<Rightarrow> bool" where
  "has_labels off1 off2 buf \<longleftrightarrow> take 11 (drop off1 buf) = c_bytes ''EOS_DEVELOP''
     \<and> take 8 (drop off2 buf) = c_bytes ''BOOTDISK''"

text \<open>The 12 sectors of an exFAT boot region, the last one holding the repeated checksum.\<close>

definition boot_region :: "(u32 \<Rightarrow> u8 list) \<Rightarrow> u32 \<Rightarrow> u8 list" where
  "boot_region f b = concat (map (\<lambda>i. f (b + of_nat i)) [0..<12])"

definition vbr_valid :: "u8 list \<Rightarrow> bool" where
  "vbr_valid region \<longleftrightarrow> drop (512 * 11) region = concat (replicate 128 (le32 (VBRChecksum region (512 * 11))))"

text \<open>A card of a list of sectors, for witnesses: a sector out of the list reads as zeros.\<close>

definition sample_sect :: "(u32 \<Rightarrow> u8 list) \<Rightarrow> u32 \<Rightarrow> u8 list" where
  "sample_sect d s = take 512 (d s @ replicate 512 0)"

definition sample_device :: "(u32 \<Rightarrow> u8 list) cf_device" where
  "sample_device = \<lparr>
     read_block = \<lambda>d buf b n. (int n, concat (map (\<lambda>i. sample_sect d (b + of_nat i)) [0..<n]) @ drop (512 * n) buf),
     write_block = \<lambda>d buf b n. (int n, \<lambda>s. if unat (s - b) < n then take 512 (drop (512 * unat (s - b)) buf) else d s)\<rparr>"

definition sample_partition :: "u8 \<Rightarrow> partition_table" where
  "sample_partition t = \<lparr>pt_state = 0x80, start_head = 0, start_cylinder_sector = 0, pt_type = t, end_head = 0,
     end_cylinder_sector = 0, sectors_before_partition = 2048, sectors_in_partition = 1000\<rparr>"

definition sample_boot :: "(u32 \<Rightarrow> u8 list) boot_state" where
  "sample_boot = \<lparr>card = \<lambda>_. [], live_buffers = 0, notices = []\<rparr>"

text \<open>The two boot regions are marked independently.\<close>

definition mark_region :: "u8 list \<Rightarrow> u8 list" where
  "mark_region a = exfat_sum 0 (put_labels 130 122 a)"

section \<open>Buffers\<close>

lemma length_labels [simp]: "length (c_bytes ''EOS_DEVELOP'') = 11" "length (c_bytes ''BOOTDISK'') = 8"
  by (simp_all add: c_bytes_def)

lemma length_memcpy_at [simp]: "off + length src \<le> length buf \<Longrightarrow> length (memcpy_at buf off src) = length buf"
  by (simp add: memcpy_at_def)

lemma memcpy_at_inside: "off + length src \<le> length buf \<Longrightarrow> take (length src) (drop off (memcpy_at buf off src)) = src"
  by (simp add: memcpy_at_def)

lemma nth_memcpy_at:
  "off + length src \<le> length buf \<Longrightarrow> i < length buf \<Longrightarrow>
    memcpy_at buf off src ! i = (if off \<le> i \<and> i < off + length src then src ! (i - off) else buf ! i)"
  by (auto simp: memcpy_at_def nth_append)

lemma memcpy_at_outside:
  "off + length src \<le> length buf \<Longrightarrow> e + n \<le> off \<or> off + length src \<le> e \<Longrightarrow>
    take n (drop e (memcpy_at buf off src)) = take n (drop e buf)"
  by (rule nth_equalityI) (auto simp: nth_memcpy_at)

lemma memcpy_at_append1: "off + length src \<le> length a \<Longrightarrow> memcpy_at (a @ b) off src = memcpy_at a off src @ b"
  by (simp add: memcpy_at_def)

lemma memcpy_at_append2: "memcpy_at (a @ b) (length a + off) src = a @ memcpy_at b off src"
  by (simp add: memcpy_at_def)

lemma length_put_labels [simp]:
  "off1 + 11 \<le> length buf \<Longrightarrow> off2 + 8 \<le> length buf \<Longrightarrow> length (put_labels off1 off2 buf) = length buf"
  by (simp add: put_labels_def)

lemma has_labels_put_labels:
  assumes "off1 + 11 \<le> length buf" "off2 + 8 \<le> length buf" "off1 + 11 \<le> off2 \<or> off2 + 8 \<le> off1"
  shows "has_labels off1 off2 (put_labels off1 off2 buf)"
proof -
  let ?E = "c_bytes ''EOS_DEVELOP''" and ?B = "c_bytes ''BOOTDISK''"
  have "take 11 (drop off1 (put_labels off1 off2 buf)) = take 11 (drop off1 (memcpy_at buf off1 ?E))"
    unfolding put_labels_def using assms by (intro memcpy_at_outside) auto
  moreover have "take 11 (drop off1 (memcpy_at buf off1 ?E)) = ?E"
    using memcpy_at_inside [of off1 ?E buf] assms by simp
  moreover have "take 8 (drop off2 (put_labels off1 off2 buf)) = ?B"
    unfolding put_labels_def using memcpy_at_inside [of off2 ?B "memcpy_at buf off1 ?E"] assms by simp
  ultimately show ?thesis by (simp add: has_labels_def)
qed

lemma nth_put_labels:
  assumes "off1 + 11 \<le> length buf" "off2 + 8 \<le> length buf" "i < length buf"
    "\<not> (off1 \<le> i \<and> i < off1 + 11)" "\<not> (off2 \<le> i \<and> i < off2 + 8)"
  shows "put_labels off1 off2 buf ! i = buf ! i"
  unfolding put_labels_def using assms by (auto simp: nth_memcpy_at)

lemma has_labels_append: "off1 + 11 \<le> length a \<Longrightarrow> off2 + 8 \<le> length a \<Longrightarrow> has_labels off1 off2 (a @ b) = has_labels off1 off2 a"
  by (simp add: has_labels_def)

lemma put_labels_append1:
  "off1 + 11 \<le> length a \<Longrightarrow> off2 + 8 \<le> length a \<Longrightarrow> put_labels off1 off2 (a @ b) = put_labels off1 off2 a @ b"
  by (simp add: put_labels_def memcpy_at_append1)

lemma put_labels_append2: "put_labels (length a + off1) (length a + off2) (a @ b) = a @ put_labels off1 off2 b"
  by (simp add: put_labels_def memcpy_at_append2)

section \<open>Checksums\<close>

lemma VBRChecksum_cong: "take n a = take n b \<Longrightarrow> n \<le> length a \<Longrightarrow> n \<le> length b \<Longrightarrow> VBRChecksum a n = VBRChecksum b n"
proof -
  assume t: "take n a = take n b" and l: "n \<le> length a" "n \<le> length b"
  have "a ! i = b ! i" if "i < n" for i
    using t that by (metis nth_take)
  then show ?thesis unfolding VBRChecksum_def by (intro fold_cong refl ext) auto
qed

lemma fold_fill:
  assumes "length w = 4" "base + 4 * n \<le> length buf"
  shows "fold (\<lambda>k b. memcpy_at b (base + 4 * k) w) [0..<n] buf
    = take base buf @ concat (replicate n w) @ drop (base + 4 * n) buf"
  using assms(2)
proof (induction n)
  case (Suc n)
  have w: "length (concat (replicate n w)) = 4 * n" by (simp add: assms(1) length_concat sum_list_replicate)
  have s: "concat (replicate (Suc n) w) = concat (replicate n w) @ w"
    by (simp only: replicate_Suc replicate_append_same [symmetric] concat_append) simp
  show ?case using Suc w assms(1) unfolding s by (simp add: memcpy_at_def ac_simps)
qed simp

lemma exfat_sum_fill:
  "base + 6144 \<le> length buf \<Longrightarrow> exfat_sum base buf =
    take (base + 5632) buf @ concat (replicate 128 (le32 (VBRChecksum (drop base buf) 5632))) @ drop (base + 6144) buf"
  using fold_fill [of "le32 (VBRChecksum (drop base buf) 5632)" "base + 5632" 128 buf]
  by (simp add: exfat_sum_def Let_def ac_simps)

lemma length_fill: "length (concat (replicate n (le32 v))) = 4 * n"
  by (simp add: length_concat sum_list_replicate)

lemma length_exfat_sum: "base + 6144 \<le> length buf \<Longrightarrow> length (exfat_sum base buf) = length buf"
  by (simp add: exfat_sum_fill length_fill)

lemma exfat_sum_append1: "length a = 6144 \<Longrightarrow> exfat_sum 0 (a @ b) = exfat_sum 0 a @ b"
  using VBRChecksum_cong [of 5632 "a @ b" a] by (simp add: exfat_sum_fill)

lemma exfat_sum_append2: "length b = 6144 \<Longrightarrow> exfat_sum (length a) (a @ b) = a @ exfat_sum 0 b"
  by (simp add: exfat_sum_fill)

lemma vbr_valid_exfat_sum: "length a = 6144 \<Longrightarrow> vbr_valid (exfat_sum 0 a)"
  using VBRChecksum_cong [of 5632 "exfat_sum 0 a" a] unfolding vbr_valid_def
  by (simp add: exfat_sum_fill length_fill)

lemma length_mark_region [simp]: "length a = 6144 \<Longrightarrow> length (mark_region a) = 6144"
  by (simp add: mark_region_def length_exfat_sum)

lemma mark_exfat_regions:
  assumes "length a = 6144" "length b = 6144"
  shows "mark_exfat (a @ b) = mark_region a @ mark_region b"
proof -
  have p: "put_labels 6274 6266 (put_labels 130 122 (a @ b)) = put_labels 130 122 a @ put_labels 130 122 b"
    using put_labels_append2 [of "put_labels 130 122 a" 130 122 b] assms by (simp add: put_labels_append1)
  have "exfat_sum 6144 (exfat_sum 0 (put_labels 130 122 a) @ put_labels 130 122 b) = mark_region a @ mark_region b"
    using exfat_sum_append2 [of "put_labels 130 122 b" "mark_region a"] assms by (simp add: mark_region_def length_exfat_sum)
  then show ?thesis using assms by (simp add: mark_exfat_def p exfat_sum_append1)
qed

lemma mark_region_correct:
  assumes "length a = 6144"
  shows "vbr_valid (mark_region a)" and "has_labels 130 122 (mark_region a)"
    and "i < 5632 \<Longrightarrow> \<not> (122 \<le> i \<and> i < 141) \<Longrightarrow> mark_region a ! i = a ! i"
proof -
  let ?l = "put_labels 130 122 a"
  have l: "length ?l = 6144" using assms by simp
  show "vbr_valid (mark_region a)" unfolding mark_region_def using l by (rule vbr_valid_exfat_sum)
  have "has_labels 130 122 (take 5632 ?l)"
    using has_labels_put_labels [of 130 a 122] has_labels_append [of 130 "take 5632 ?l" 122 "drop 5632 ?l"] assms l by simp
  then show "has_labels 130 122 (mark_region a)" unfolding mark_region_def using l
    by (simp add: exfat_sum_fill has_labels_append)
  show "mark_region a ! i = a ! i" if "i < 5632" "\<not> (122 \<le> i \<and> i < 141)"
  proof -
    have "?l ! i = a ! i" using that assms by (intro nth_put_labels) auto
    then show ?thesis unfolding mark_region_def using that l by (simp add: exfat_sum_fill nth_append)
  qed
qed

section \<open>Cards\<close>

lemma card_okD:
  assumes "card_ok dev sect"
  shows "length (sect d s) = 512"
    and "snd (read_block dev d buf b n) = concat (map (\<lambda>i. sect d (b + of_nat i)) [0..<n]) @ drop (512 * n) buf"
    and "length buf = 512 * n \<Longrightarrow> fst (write_block dev d buf b n) = int n"
    and "length buf = 512 * n \<Longrightarrow> sect (snd (write_block dev d buf b n)) =
      (\<lambda>s. if unat (s - b) < n then take 512 (drop (512 * unat (s - b)) buf) else sect d s)"
  using assms unfolding card_ok_def by simp_all

lemma length_sectors: "(\<And>i. length (f i) = 512) \<Longrightarrow> length (concat (map f [0..<n])) = 512 * n"
  by (induction n) simp_all

lemma concat_slices: "512 * n \<le> length buf \<Longrightarrow> concat (map (\<lambda>i. take 512 (drop (512 * i) buf)) [0..<n]) = take (512 * n) buf"
proof (induction n)
  case (Suc n)
  then show ?case using take_add [of "512 * n" 512 buf] by (simp add: ac_simps)
qed simp

lemma read_one: "card_ok dev sect \<Longrightarrow> length buf = 512 \<Longrightarrow> snd (read_block dev d buf b 1) = sect d b"
  by (simp add: card_okD)

lemma sectors_24: "concat (map (\<lambda>i. f (b + of_nat i)) [0..<24]) = boot_region f b @ boot_region f (b + 12)" for b :: u32
proof -
  have "[0..<24] = [0..<12] @ map (\<lambda>i. i + 12) [0..<12]"
    by (simp add: map_add_upt upt_add_eq_append [of 0 12 12, simplified])
  then show ?thesis by (simp add: boot_region_def o_def ac_simps del: upt_rec_numeral)
qed

lemma boot_region_written:
  assumes "length buf = 512 * 24" and "f = (\<lambda>s. if unat (s - b) < 24 then take 512 (drop (512 * unat (s - b)) buf) else g s)"
  shows "boot_region f b = take 6144 buf" and "boot_region f (b + 12) = drop 6144 buf"
proof -
  have u: "unat (b + of_nat i - b) = i" if "i < 24" for i
    using that by (simp add: unat_of_nat32)
  have f: "f (b + of_nat i) = take 512 (drop (512 * i) buf)" if "i < 24" for i
    using u [OF that] that by (simp add: assms(2))
  have "boot_region f b = concat (map (\<lambda>i. take 512 (drop (512 * i) buf)) [0..<12])"
    unfolding boot_region_def by (intro arg_cong [where f = concat] map_cong refl f) simp
  also have "\<dots> = take 6144 buf" using concat_slices [of 12 buf] assms(1) by (simp del: upt_rec_numeral)
  finally show "boot_region f b = take 6144 buf" .
  have f12: "f (b + 12 + of_nat i) = take 512 (drop (512 * i) (drop 6144 buf))" if "i < 12" for i
    using f [of "12 + i"] that by (simp add: ac_simps)
  have "boot_region f (b + 12) = concat (map (\<lambda>i. take 512 (drop (512 * i) (drop 6144 buf))) [0..<12])"
    unfolding boot_region_def by (intro arg_cong [where f = concat] map_cong refl f12) simp
  also have "\<dots> = drop 6144 buf" using concat_slices [of 12 "drop 6144 buf"] assms(1) by (simp del: upt_rec_numeral)
  finally show "boot_region f (b + 12) = drop 6144 buf" .
qed

lemma bootflag_branches:
  assumes "fio 512 = Some junk" and "block = snd (read_block dev (card st) (replicate 0x200 0xAA) 0 1)" and "p = decode (drop 446 block)"
  shows "bootflag_write_bootblock (Some dev) decode fio st =
    (if pt_type p = 6 \<or> pt_type p = 0xb \<or> pt_type p = 0xc then write_fat dev p block (st\<lparr>live_buffers := live_buffers st + 1\<rparr>)
     else if pt_type p = 7 then write_exfat dev p fio (st\<lparr>live_buffers := live_buffers st + 1\<rparr>)
     else Inr (0, st\<lparr>notices := Unknown_partition (pt_type p) # notices st\<rparr>))"
  unfolding bootflag_write_bootblock_def by (simp add: assms Let_def)

lemma length_boot_region: "(\<And>s. length (f s) = 512) \<Longrightarrow> length (boot_region f b) = 6144"
  unfolding boot_region_def using length_sectors [of "\<lambda>i. f (b + of_nat i)" 12] by (simp del: upt_rec_numeral)

lemma sample_card_ok: "card_ok sample_device sample_sect"
proof -
  have len: "length (sample_sect d s) = 512" for d s by (simp add: sample_sect_def)
  have w: "sample_sect (snd (write_block sample_device d buf b n)) =
      (\<lambda>s. if unat (s - b) < n then take 512 (drop (512 * unat (s - b)) buf) else sample_sect d s)"
    if "length buf = 512 * n" for d :: "u32 \<Rightarrow> u8 list" and buf b n
  proof
    fix s
    have "512 * unat (s - b) + 512 \<le> length buf" if "unat (s - b) < n"
      using that \<open>length buf = 512 * n\<close> by simp
    then show "sample_sect (snd (write_block sample_device d buf b n)) s =
      (if unat (s - b) < n then take 512 (drop (512 * unat (s - b)) buf) else sample_sect d s)"
      by (auto simp: sample_device_def sample_sect_def)
  qed
  show ?thesis unfolding card_ok_def by (intro conjI allI impI len w) (simp_all add: sample_device_def)
qed

section \<open>The boot flags\<close>

text \<open>
  C15: On a working card with a FAT16 or FAT32 partition the function returns 1, the boot sector of the
  partition has both labels, no other byte of it and no other sector of the card changes, and the
  buffer is given back.
\<close>

theorem bootflag_fat_marks_boot_sector:
  assumes "card_ok dev sect" and "fio 512 = Some junk"
    and "p = decode (drop 446 (sect (card st) 0))"
    and "pt_type p = 6 \<or> pt_type p = 0xb \<or> pt_type p = 0xc"
    and "off1 = (if pt_type p = 6 then 0x2b else 0x47)" and "off2 = (if pt_type p = 6 then 0x40 else 0x5c)"
  shows "\<exists>st'. bootflag_write_bootblock (Some dev) decode fio st = Inr (1, st')
    \<and> has_labels off1 off2 (sect (card st') (sectors_before_partition p))
    \<and> (\<forall>i < 512. (off1 \<le> i \<and> i < off1 + 11) \<or> (off2 \<le> i \<and> i < off2 + 8)
         \<or> sect (card st') (sectors_before_partition p) ! i = sect (card st) (sectors_before_partition p) ! i)
    \<and> (\<forall>s. s \<noteq> sectors_before_partition p \<longrightarrow> sect (card st') s = sect (card st) s)
    \<and> live_buffers st' = live_buffers st \<and> notices st' = notices st"
proof -
  let ?s = "sectors_before_partition p" and ?d = "card st"
  let ?new = "put_labels off1 off2 (sect ?d ?s)"
  let ?w = "write_block dev ?d ?new ?s 1"
  have off: "off1 + 11 \<le> 512" "off2 + 8 \<le> 512" "off1 + 11 \<le> off2" using assms(5,6) by auto
  have len: "length (sect d s) = 512" for d s using card_okD(1) [OF assms(1)] .
  have ln: "length ?new = 512 * 1" using off len by simp
  obtain c where w: "?w = (1, c)" using card_okD(3) [OF assms(1) ln, of ?d ?s] by (cases ?w) simp
  have c: "sect c = (\<lambda>s. if s = ?s then ?new else sect ?d s)"
    using card_okD(4) [OF assms(1) ln, of ?d ?s] w ln by (auto simp: fun_eq_iff unat_eq_zero)
  have r: "snd (read_block dev ?d (replicate 0x200 0xAA) 0 1) = sect ?d 0"
    using assms(1) by (rule read_one) simp
  have r': "snd (read_block dev ?d (sect ?d 0) ?s 1) = sect ?d ?s"
    using assms(1) len by (rule read_one)
  have "write_fat dev p (sect ?d 0) (st\<lparr>live_buffers := live_buffers st + 1\<rparr>) = Inr (1, st\<lparr>card := c\<rparr>)"
    using r' w unfolding write_fat_def by (simp add: Let_def assms(5,6) [symmetric])
  with bootflag_branches [where fio = fio and decode = decode and st = st and dev = dev, OF assms(2) r [symmetric] assms(3)] assms(4)
  have res: "bootflag_write_bootblock (Some dev) decode fio st = Inr (1, st\<lparr>card := c\<rparr>)" by simp
  have lab: "has_labels off1 off2 ?new" using off len by (intro has_labels_put_labels) auto
  have keep: "?new ! i = sect ?d ?s ! i" if "i < 512" "\<not> (off1 \<le> i \<and> i < off1 + 11)" "\<not> (off2 \<le> i \<and> i < off2 + 8)" for i
    using that off len by (intro nth_put_labels) auto
  show ?thesis unfolding res using lab keep by (auto simp: c)
qed

theorem bootflag_fat_marks_boot_sector_witness:
  "\<exists>st'. bootflag_write_bootblock (Some sample_device) (\<lambda>_. sample_partition 0xb) (\<lambda>n. Some (replicate n 0)) sample_boot = Inr (1, st')
     \<and> has_labels 0x47 0x5c (sample_sect (card st') 2048)"
proof -
  note t = bootflag_fat_marks_boot_sector [where fio = "\<lambda>n. Some (replicate n 0)" and decode = "\<lambda>_. sample_partition 0xb"
      and st = sample_boot, OF sample_card_ok refl refl _ refl refl]
  show ?thesis using t by (auto simp: sample_partition_def)
qed

text \<open>
  C13: On a working card with an exFAT partition the function returns 1; the main and the backup boot
  region both have the labels and a checksum sector that is valid for the changed region; no byte
  before the checksum sectors but the labels, and no sector behind the regions, changes; both buffers are
  given back.
\<close>

theorem bootflag_exfat_valid_regions:
  assumes "card_ok dev sect" and "fio 512 = Some junk" and "fio (512 * 24) = Some junk'" and "length junk' = 512 * 24"
    and "p = decode (drop 446 (sect (card st) 0))" and "pt_type p = 7"
    and "s = sectors_before_partition p"
  shows "\<exists>st'. bootflag_write_bootblock (Some dev) decode fio st = Inr (1, st')
    \<and> (\<forall>b \<in> {s, s + 12}.
         vbr_valid (boot_region (sect (card st')) b) \<and> has_labels 130 122 (boot_region (sect (card st')) b)
         \<and> (\<forall>i < 512 * 11. (122 \<le> i \<and> i < 141) \<or> boot_region (sect (card st')) b ! i = boot_region (sect (card st)) b ! i))
    \<and> (\<forall>t. 24 \<le> unat (t - s) \<longrightarrow> sect (card st') t = sect (card st) t)
    \<and> live_buffers st' = live_buffers st \<and> notices st' = notices st"
proof -
  let ?d = "card st"
  let ?a = "boot_region (sect ?d) s" and ?b = "boot_region (sect ?d) (s + 12)"
  let ?new = "mark_exfat (?a @ ?b)"
  let ?w = "write_block dev ?d ?new s 24"
  have len: "length (sect d t) = 512" for d t using card_okD(1) [OF assms(1)] .
  have lr: "length (boot_region (sect d) b) = 6144" for d b using len by (rule length_boot_region)
  have new: "?new = mark_region ?a @ mark_region ?b" using lr by (rule mark_exfat_regions) (rule lr)
  have ln: "length ?new = 512 * 24" unfolding new using lr by simp
  obtain c where w: "?w = (24, c)" using card_okD(3) [OF assms(1) ln, of ?d s] by (cases ?w) simp
  have c: "sect c = (\<lambda>t. if unat (t - s) < 24 then take 512 (drop (512 * unat (t - s)) ?new) else sect ?d t)"
    using card_okD(4) [OF assms(1) ln, of ?d s] w by simp
  have r: "snd (read_block dev ?d (replicate 0x200 0xAA) 0 1) = sect ?d 0"
    using assms(1) by (rule read_one) simp
  have r': "snd (read_block dev ?d junk' s 24) = ?a @ ?b"
    using card_okD(2) [OF assms(1), of ?d junk' s 24] assms(4) by (simp only: sectors_24) simp
  have "write_exfat dev p fio (st\<lparr>live_buffers := live_buffers st + 1\<rparr>) = Inr (1, st\<lparr>card := c\<rparr>)"
    using r' w assms(3) unfolding write_exfat_def by (simp add: Let_def assms(7) [symmetric])
  with bootflag_branches [where fio = fio and decode = decode and st = st and dev = dev, OF assms(2) r [symmetric] assms(5)] assms(6)
  have res: "bootflag_write_bootblock (Some dev) decode fio st = Inr (1, st\<lparr>card := c\<rparr>)" by simp
  have reg: "boot_region (sect c) s = mark_region ?a" "boot_region (sect c) (s + 12) = mark_region ?b"
    using boot_region_written [OF ln c] lr unfolding new by simp_all
  have m: "vbr_valid (mark_region r) \<and> has_labels 130 122 (mark_region r)
      \<and> (\<forall>i < 512 * 11. (122 \<le> i \<and> i < 141) \<or> mark_region r ! i = r ! i)" if "length r = 6144" for r
    using mark_region_correct [OF that] by auto
  have far: "sect c t = sect ?d t" if "24 \<le> unat (t - s)" for t using that by (simp add: c)
  show ?thesis unfolding res using m [OF lr, of ?d s] m [OF lr, of ?d "s + 12"] reg far by (intro exI [of _ "st\<lparr>card := c\<rparr>"] conjI) auto
qed


theorem bootflag_exfat_valid_regions_witness:
  "\<exists>st'. bootflag_write_bootblock (Some sample_device) (\<lambda>_. sample_partition 7) (\<lambda>n. Some (replicate n 0)) sample_boot = Inr (1, st')
     \<and> vbr_valid (boot_region (sample_sect (card st')) 2060)"
proof -
  note t = bootflag_exfat_valid_regions [where fio = "\<lambda>n. Some (replicate n 0)" and decode = "\<lambda>_. sample_partition 7"
      and st = sample_boot, OF sample_card_ok refl refl length_replicate refl _ refl]
  show ?thesis using t by (auto simp: sample_partition_def)
qed

text \<open>
  C17: When the driver fails to write, a FAT partition gives 0 and a notice, and the block buffer is
  never freed; on an exFAT partition the function still returns 1, though nothing was written.
\<close>

theorem bootflag_write_failure:
  assumes "fio 512 = Some junk" and "fio (512 * 24) = Some junk'"
    and "\<And>d buf b n. write_block dev d buf b n = (rc, d)" and "rc \<noteq> 1"
    and "p = decode (drop 446 (snd (read_block dev (card st) (replicate 0x200 0xAA) 0 1)))"
  shows "bootflag_write_bootblock (Some dev) decode fio st =
    (if pt_type p = 6 \<or> pt_type p = 0xb \<or> pt_type p = 0xc
     then Inr (0, st\<lparr>live_buffers := live_buffers st + 1,
       notices := Write_failed (pt_type p) (sectors_before_partition p) rc # notices st\<rparr>)
     else if pt_type p = 7 then Inr (1, st)
     else Inr (0, st\<lparr>notices := Unknown_partition (pt_type p) # notices st\<rparr>))"
proof -
  have "write_fat dev p block (st\<lparr>live_buffers := live_buffers st + 1\<rparr>) =
      Inr (0, st\<lparr>live_buffers := live_buffers st + 1,
       notices := Write_failed (pt_type p) (sectors_before_partition p) rc # notices st\<rparr>)" for block
    unfolding write_fat_def using assms(3,4) by (simp add: Let_def)
  moreover have "write_exfat dev p fio (st\<lparr>live_buffers := live_buffers st + 1\<rparr>) = Inr (1, st)"
    unfolding write_exfat_def using assms(2,3) by (simp add: Let_def)
  ultimately show ?thesis using bootflag_branches [where fio = fio and decode = decode and st = st and dev = dev, OF assms(1) refl assms(5)] by (simp split: if_splits)
qed

theorem bootflag_write_failure_witness:
  "bootflag_write_bootblock (Some (sample_device\<lparr>write_block := \<lambda>d buf b n. (0, d)\<rparr>)) (\<lambda>_. sample_partition 7)
     (\<lambda>n. Some (replicate n 0)) sample_boot = Inr (1, sample_boot)"
proof -
  note t = bootflag_write_failure [where fio = "\<lambda>n. Some (replicate n 0)" and decode = "\<lambda>_. sample_partition 7"
      and st = sample_boot and dev = "sample_device\<lparr>write_block := \<lambda>d buf b n. (0, d)\<rparr>" and rc = 0, OF refl refl _ _ refl]
  show ?thesis using t by (simp add: sample_partition_def)
qed

text \<open>The variant for old cameras treats an exFAT card like a partition that starts at block 0.\<close>

lemma bootflag_500D_exfat:
  assumes "fio 512 = Some junk" and "block = snd (read_block dev (card st) (replicate 512 0xAA) 0 1)"
    and "take 5 (drop 0x52 block) \<noteq> c_bytes ''FAT32''" and "take 5 (drop 0x36 block) \<noteq> c_bytes ''FAT16''"
    and "take 5 (drop 0x3 block) = c_bytes ''EXFAT''" and "sectors_before_partition p = 0"
  shows "bootflag_write_bootblock_500D dev fio st = write_exfat dev p fio (st\<lparr>live_buffers := live_buffers st + 1\<rparr>)"
  using assms unfolding bootflag_write_bootblock_500D_def write_exfat_def
  by (simp add: Let_def split_beta split: option.splits)

end
