(* ===== verification/ML_Console.thy ===== *)
theory ML_Console
  imports ML_Strings
begin

text \<open>
  The text console, \<^verbatim>\<open>src/src/console.c\<close>: a circular buffer of 21 lines of 80
  characters that \<^verbatim>\<open>console_puts\<close> fills, and the lines of text that
  \<^verbatim>\<open>console_draw\<close> puts on the screen. A C string is the list of its characters before the
  terminator. The position of the text on the screen and the frame around it are not
  modelled. The specification is a terminal with an unbounded tape of cells,
  whose last lines the buffer holds.
\<close>

section \<open>State\<close>

definition CONSOLE_W :: int where
  "CONSOLE_W = 80"

definition CONSOLE_H :: int where
  "CONSOLE_H = 21"

definition BUFSIZE :: int where
  "BUFSIZE = CONSOLE_H * CONSOLE_W"

record console_state =
  console_buffer :: string
  console_buffer_index :: int
  cr :: bool
  console_visible :: bool
  prev_w :: int
  prev_h :: int

definition console_zero :: console_state where
  "console_zero = \<lparr>console_buffer = replicate (nat BUFSIZE) CHR '' '', console_buffer_index = 0, cr = False,
     console_visible = False, prev_w = 0, prev_h = 0\<rparr>"

definition CONSOLE_BUFFER :: "console_state \<Rightarrow> int \<Rightarrow> char" where
  "CONSOLE_BUFFER st i = console_buffer st ! nat (c_MOD i BUFSIZE)"

section \<open>Operations\<close>

definition console_show :: "console_state \<Rightarrow> console_state" where
  "console_show st = st\<lparr>console_visible := True\<rparr>"

definition console_hide :: "console_state \<Rightarrow> console_state" where
  "console_hide st = st\<lparr>console_visible := False\<rparr>"

definition console_toggle :: "console_state \<Rightarrow> console_state" where
  "console_toggle st = (if console_visible st then console_hide st else console_show st)"

definition console_clear :: "console_state \<Rightarrow> console_state" where
  "console_clear st = st\<lparr>console_buffer := map (\<lambda>_. CHR '' '') (console_buffer st)\<rparr>"

definition NEW_CHAR :: "char \<Rightarrow> console_state \<Rightarrow> console_state" where
  "NEW_CHAR c st = st\<lparr>console_buffer := (console_buffer st)[nat (c_MOD (console_buffer_index st) BUFSIZE) := c],
     console_buffer_index := console_buffer_index st + 1\<rparr>"

text \<open>
  The loops \<^verbatim>\<open>while (MOD(console_buffer_index, n) != 0) NEW_CHAR(' ')\<close>, where \<open>n\<close> is 80 or 4,
  and \<^verbatim>\<open>while (MOD(console_buffer_index, CONSOLE_W)) console_buffer_index--\<close>.
\<close>

function pad_to :: "int \<Rightarrow> console_state \<Rightarrow> console_state" where
  "pad_to n st = (if 0 < n \<and> c_MOD (console_buffer_index st) n \<noteq> 0 then pad_to n (NEW_CHAR (CHR '' '') st) else st)"
  by pat_completeness auto
termination
  by (relation "measure (\<lambda>(n, st). nat ((- console_buffer_index st) mod n))")
     (auto simp: c_MOD_eq NEW_CHAR_def mod_step_up)

function line_start :: "console_state \<Rightarrow> console_state" where
  "line_start st = (if c_MOD (console_buffer_index st) CONSOLE_W \<noteq> 0
     then line_start (st\<lparr>console_buffer_index := console_buffer_index st - 1\<rparr>) else st)"
  by pat_completeness auto
termination
  by (relation "measure (\<lambda>st. nat (console_buffer_index st mod CONSOLE_W))")
     (simp_all add: c_MOD_eq CONSOLE_W_def mod_step_down)

declare pad_to.simps [simp del] line_start.simps [simp del]

definition console_char :: "char \<Rightarrow> console_state \<Rightarrow> console_state" where
  "console_char c st =
     (if c = LF then
        (let st = (if c_MOD (console_buffer_index st) CONSOLE_W = 0 then NEW_CHAR (CHR '' '') st else st)
         in (pad_to CONSOLE_W st)\<lparr>cr := False\<rparr>)
      else if c = TAB then pad_to 4 (NEW_CHAR (CHR '' '') st)
      else if c = CHR 0x08 then
        (if c_MOD (console_buffer_index st) CONSOLE_W \<noteq> 0 then
           (let i = console_buffer_index st - 1
            in st\<lparr>console_buffer_index := i, console_buffer := (console_buffer st)[nat (c_MOD i BUFSIZE) := CHR '' '']\<rparr>)
         else st)
      else if c = CR then st\<lparr>cr := True\<rparr>
      else NEW_CHAR c (if cr st then (line_start st)\<lparr>cr := False\<rparr> else st))"

definition console_puts :: "string \<Rightarrow> console_state \<Rightarrow> console_state" where
  "console_puts str st =
     (let st = fold console_char str st in st\<lparr>console_buffer_index := c_MOD (console_buffer_index st) BUFSIZE\<rparr>)"

definition c_puts :: "string \<Rightarrow> console_state \<Rightarrow> console_state" where
  "c_puts fmt st = console_puts [LF] (console_puts fmt st)"

section \<open>The text on the screen\<close>

definition draw_start :: "console_state \<Rightarrow> int" where
  "draw_start st =
     (let cbpos0 = c_MOD (c_div (console_buffer_index st) CONSOLE_W * CONSOLE_W + CONSOLE_W) BUFSIZE
      in if c_rem (console_buffer_index st) CONSOLE_W = 0 then cbpos0 - CONSOLE_W else cbpos0)"

definition skipped_lines :: "console_state \<Rightarrow> int" where
  "skipped_lines st = int (length (takeWhile
     (\<lambda>i. list_all (\<lambda>j. CONSOLE_BUFFER st (draw_start st + i * CONSOLE_W + j) = CHR '' '') [0..CONSOLE_W - 1])
     [0..CONSOLE_H - 1]))"

definition chopped_columns :: "int \<Rightarrow> console_state \<Rightarrow> int" where
  "chopped_columns skipped st =
     (let n = int (length (takeWhile
            (\<lambda>j. list_all (\<lambda>i. CONSOLE_BUFFER st (draw_start st + i * CONSOLE_W + j) = CHR '' '') [skipped..CONSOLE_H - 1])
            (rev [1..CONSOLE_W - 1])));
          n = c_MIN n (CONSOLE_W - c_rem (console_buffer_index st) CONSOLE_W)
      in if n < 5 then 0 else n)"

text \<open>One cell of the text: the flag tells that the cursor has been shown.\<close>

definition draw_cell :: "console_state \<Rightarrow> int \<Rightarrow> bool \<Rightarrow> char \<times> bool" where
  "draw_cell st p found_cursor =
     (if c_MOD p BUFSIZE = c_MOD (console_buffer_index st) BUFSIZE \<and> \<not> found_cursor then (CHR ''_'', True)
      else (let c = (if found_cursor then CHR '' '' else CONSOLE_BUFFER st p)
            in (if c = NULc then CHR ''?'' else c, found_cursor)))"

fun draw_cells :: "console_state \<Rightarrow> int list \<Rightarrow> bool \<Rightarrow> string \<times> bool" where
  "draw_cells st [] found_cursor = ([], found_cursor)"
| "draw_cells st (p # ps) found_cursor =
     (let (c, found_cursor) = draw_cell st p found_cursor; (cs, found_cursor) = draw_cells st ps found_cursor
      in (c # cs, found_cursor))"

fun draw_lines :: "console_state \<Rightarrow> int \<Rightarrow> int list \<Rightarrow> bool \<Rightarrow> string list" where
  "draw_lines st chopped [] found_cursor = []"
| "draw_lines st chopped (i # is) found_cursor =
     (let cbpos = draw_start st + i * CONSOLE_W;
          (buf, found_cursor) = draw_cells st (map (\<lambda>j. cbpos + j) [0..CONSOLE_W - 1]) found_cursor
      in take (nat (CONSOLE_W - chopped)) buf # draw_lines st chopped is found_cursor)"

datatype drawing = Nothing_to_show | Redraw | Lines "string list"

text \<open>The arguments \<open>fw\<close> and \<open>fh\<close> are the width and height of the console font.\<close>

definition console_draw :: "int \<Rightarrow> int \<Rightarrow> bool \<Rightarrow> console_state \<Rightarrow> drawing \<times> console_state" where
  "console_draw fw fh tiny st =
     (let skipped = skipped_lines st
      in if skipped = CONSOLE_H then (Nothing_to_show, st)
         else
           (let skipped = c_MAX skipped (CONSOLE_H - (if tiny then 3 else 15));
                chopped = chopped_columns skipped st;
                w = c_MIN (if chopped < 7 then 720 else 704) (fw * (CONSOLE_W - chopped) + 2);
                h = fh * (CONSOLE_H - skipped);
                st' = st\<lparr>prev_w := w, prev_h := h\<rparr>
            in if w < prev_w st \<or> h < prev_h st then (Redraw, st')
               else (Lines (draw_lines st chopped [skipped..CONSOLE_H - 1] False), st')))"

definition console_draw_from_menu :: "int \<Rightarrow> int \<Rightarrow> console_state \<Rightarrow> drawing \<times> console_state" where
  "console_draw_from_menu fw fh st = (if console_visible st then console_draw fw fh True st else (Nothing_to_show, st))"

text \<open>
  One round of the console task. The arguments tell whether Canon's display is idle or in playback,
  and whether the menu is shown; the flag is the local variable \<^verbatim>\<open>dirty\<close>.
\<close>

definition console_task_step :: "int \<Rightarrow> int \<Rightarrow> bool \<Rightarrow> bool \<Rightarrow> bool \<times> console_state \<Rightarrow> drawing \<times> bool \<times> console_state" where
  "console_task_step fw fh idle menu_shown s =
     (let (dirty, st) = s
      in if console_visible st \<and> idle then
           (if dirty then (let (d, st) = console_draw fw fh False st in (d, True, st)) else (Nothing_to_show, True, st))
         else if dirty then (Redraw, False, st)
         else if console_visible st \<and> \<not> menu_shown then (let (d, st) = console_draw fw fh True st in (d, dirty, st))
         else (Nothing_to_show, dirty, st))"

section \<open>Specification: a terminal with an unbounded tape\<close>

record terminal =
  cells :: "int \<Rightarrow> char"
  cursor :: int
  returned :: bool

definition term_zero :: terminal where
  "term_zero = \<lparr>cells = \<lambda>_. CHR '' '', cursor = 0, returned = False\<rparr>"

text \<open>Blanks up to a position, where the cursor moves.\<close>

definition blank_to :: "int \<Rightarrow> terminal \<Rightarrow> terminal" where
  "blank_to p t = t\<lparr>cells := \<lambda>i. if cursor t \<le> i \<and> i < p then CHR '' '' else cells t i, cursor := p\<rparr>"

definition term_char :: "char \<Rightarrow> terminal \<Rightarrow> terminal" where
  "term_char c t =
     (if c = LF then (blank_to (80 * (cursor t div 80) + 80) t)\<lparr>returned := False\<rparr>
      else if c = TAB then blank_to (4 * (cursor t div 4) + 4) t
      else if c = CHR 0x08 then
        (if cursor t mod 80 \<noteq> 0 then t\<lparr>cells := (cells t)(cursor t - 1 := CHR '' ''), cursor := cursor t - 1\<rparr> else t)
      else if c = CR then t\<lparr>returned := True\<rparr>
      else (let p = (if returned t then 80 * (cursor t div 80) else cursor t)
            in t\<lparr>cells := (cells t)(p := c), cursor := p + 1, returned := False\<rparr>))"

text \<open>
  The buffer holds the window of the tape that ends at \<open>high\<close>, the highest position written on the
  line of the cursor.
\<close>

definition window :: "int \<Rightarrow> console_state \<Rightarrow> terminal \<Rightarrow> bool" where
  "window high st t \<longleftrightarrow> length (console_buffer st) = nat BUFSIZE
     \<and> console_buffer_index st mod BUFSIZE = cursor t mod BUFSIZE \<and> cr st = returned t
     \<and> cursor t \<le> high \<and> high \<le> 80 * (cursor t div 80) + 80
     \<and> (\<forall>i. high - BUFSIZE \<le> i \<and> i < high \<longrightarrow> CONSOLE_BUFFER st i = cells t i)"

definition console_ok :: "console_state \<Rightarrow> bool" where
  "console_ok st \<longleftrightarrow> length (console_buffer st) = nat BUFSIZE
     \<and> 0 \<le> console_buffer_index st \<and> console_buffer_index st < BUFSIZE"

definition norm_index :: "console_state \<Rightarrow> console_state" where
  "norm_index st = st\<lparr>console_buffer_index := console_buffer_index st mod 1680\<rparr>"

definition put_cell :: "char \<Rightarrow> terminal \<Rightarrow> terminal" where
  "put_cell c t = t\<lparr>cells := (cells t)(cursor t := c), cursor := cursor t + 1\<rparr>"

definition plain :: "string \<Rightarrow> bool" where
  "plain s \<longleftrightarrow> list_all (\<lambda>c. c \<noteq> NULc \<and> c \<noteq> LF \<and> c \<noteq> TAB \<and> c \<noteq> CHR 0x08 \<and> c \<noteq> CR) s"

section \<open>The index counts modulo the size of the buffer\<close>

lemma console_consts: "CONSOLE_W = 80" "CONSOLE_H = 21" "BUFSIZE = 1680"
  by (simp_all add: CONSOLE_W_def CONSOLE_H_def BUFSIZE_def)

lemma console_mods [simp]: "c_MOD i CONSOLE_W = i mod 80" "c_MOD i BUFSIZE = i mod 1680" "c_MOD i 4 = i mod 4" "c_MOD i 80 = i mod 80"
  by (simp_all add: console_consts c_MOD_eq)

lemma norm_index_eq:
  "norm_index st = norm_index st' \<longleftrightarrow> console_buffer_index st mod 1680 = console_buffer_index st' mod 1680
    \<and> st' = st\<lparr>console_buffer_index := console_buffer_index st'\<rparr>"
  by (cases st; cases st') (auto simp: norm_index_def)

lemma mod_1680_mod: "(i :: int) mod 1680 = j mod 1680 \<Longrightarrow> n dvd 1680 \<Longrightarrow> i mod n = j mod n"
  by (metis mod_mod_cancel)

lemma mod_1680_80: "(i :: int) mod 1680 = j mod 1680 \<Longrightarrow> i mod 80 = j mod 80"
  by (rule mod_1680_mod) simp_all

lemma mod_1680_step: "(i :: int) mod 1680 = j mod 1680 \<Longrightarrow> (i + k) mod 1680 = (j + k) mod 1680"
  by (rule mod_add_cong) simp_all

lemma mod_1680_back: "(i :: int) mod 1680 = j mod 1680 \<Longrightarrow> (i - k) mod 1680 = (j - k) mod 1680"
  by (rule mod_diff_cong) simp_all

lemma norm_NEW_CHAR: "norm_index st = norm_index st' \<Longrightarrow> norm_index (NEW_CHAR c st) = norm_index (NEW_CHAR c st')"
  by (cases st; cases st') (auto simp: norm_index_def NEW_CHAR_def intro: mod_1680_step)

lemma norm_pad_to:
  "n dvd 1680 \<Longrightarrow> norm_index st = norm_index st' \<Longrightarrow> norm_index (pad_to n st) = norm_index (pad_to n st')"
proof (induction n st arbitrary: st' rule: pad_to.induct)
  case (1 n st)
  have m: "console_buffer_index st mod n = console_buffer_index st' mod n"
    using 1(3) unfolding norm_index_eq by (intro mod_1680_mod [OF _ 1(2)]) simp
  show ?case
  proof (cases "0 < n \<and> c_MOD (console_buffer_index st) n \<noteq> 0")
    case True
    have "norm_index (pad_to n (NEW_CHAR CHR '' '' st)) = norm_index (pad_to n (NEW_CHAR CHR '' '' st'))"
      using 1(1) [OF True 1(2) norm_NEW_CHAR [OF 1(3)]] .
    moreover have "0 < n \<and> c_MOD (console_buffer_index st') n \<noteq> 0" using True m by (auto simp: c_MOD_eq)
    ultimately show ?thesis using True by (simp add: pad_to.simps [of n st] pad_to.simps [of n st'])
  next
    case False
    then have "\<not> (0 < n \<and> c_MOD (console_buffer_index st') n \<noteq> 0)" using m by (auto simp: c_MOD_eq)
    then show ?thesis using False 1(3) by (simp only: pad_to.simps [of n st] pad_to.simps [of n st'] if_False)
  qed
qed

lemma norm_line_start: "norm_index st = norm_index st' \<Longrightarrow> norm_index (line_start st) = norm_index (line_start st')"
proof (induction st arbitrary: st' rule: line_start.induct)
  case (1 st)
  have m: "console_buffer_index st mod 80 = console_buffer_index st' mod 80"
    using 1(2) unfolding norm_index_eq by (intro mod_1680_80) simp
  show ?case
  proof (cases "console_buffer_index st mod 80 = 0")
    case True
    then show ?thesis using m 1(2) by (simp add: line_start.simps [of st] line_start.simps [of st'])
  next
    case False
    let ?b = "\<lambda>s. s\<lparr>console_buffer_index := console_buffer_index s - 1\<rparr>"
    have "norm_index (?b st) = norm_index (?b st')"
      using 1(2) by (cases st; cases st') (auto simp: norm_index_def intro: mod_1680_back)
    with 1(1) False have "norm_index (line_start (?b st)) = norm_index (line_start (?b st'))" by simp
    then show ?thesis using False m by (simp add: line_start.simps [of st] line_start.simps [of st'])
  qed
qed

lemma norm_index_cr: "norm_index st = norm_index st' \<Longrightarrow> norm_index (st\<lparr>cr := b\<rparr>) = norm_index (st'\<lparr>cr := b\<rparr>)"
  by (cases st; cases st') (simp add: norm_index_def)

lemma norm_console_char:
  assumes "norm_index st = norm_index st'"
  shows "norm_index (console_char c st) = norm_index (console_char c st')"
proof -
  have m: "console_buffer_index st mod 80 = console_buffer_index st' mod 80"
    using assms unfolding norm_index_eq by (intro mod_1680_80) simp
  have r: "cr st = cr st'" using arg_cong [OF assms, of cr] by (simp add: norm_index_def)
  have bs: "norm_index (st\<lparr>console_buffer_index := console_buffer_index st - 1,
        console_buffer := (console_buffer st)[nat ((console_buffer_index st - 1) mod 1680) := CHR '' '']\<rparr>) =
      norm_index (st'\<lparr>console_buffer_index := console_buffer_index st' - 1,
        console_buffer := (console_buffer st')[nat ((console_buffer_index st' - 1) mod 1680) := CHR '' '']\<rparr>)"
    using assms mod_1680_back [of "console_buffer_index st" "console_buffer_index st'" 1]
    by (cases st; cases st') (auto simp: norm_index_def)
  note n = norm_NEW_CHAR [OF assms]
  have pad: "norm_index ((pad_to 80 s)\<lparr>cr := False\<rparr>) = norm_index ((pad_to 80 s')\<lparr>cr := False\<rparr>)"
    if "norm_index s = norm_index s'" for s s'
    using that by (intro norm_index_cr norm_pad_to) simp_all
  consider "c = LF" | "c = TAB" | "c = CHR 0x08" | "c = CR" | "c \<noteq> LF" "c \<noteq> TAB" "c \<noteq> CHR 0x08" "c \<noteq> CR" by blast
  then show ?thesis
  proof cases
    case 1
    have "norm_index (if console_buffer_index st mod 80 = 0 then NEW_CHAR CHR '' '' st else st) =
        norm_index (if console_buffer_index st' mod 80 = 0 then NEW_CHAR CHR '' '' st' else st')"
      using m n assms by (cases "console_buffer_index st mod 80 = 0") simp_all
    from pad [OF this] show ?thesis using 1 by (simp only: console_char_def Let_def console_consts console_mods simp_thms if_True)
  next
    case 2
    then show ?thesis using norm_pad_to [of 4, OF _ n] by (simp add: console_char_def)
  next
    case 3
    then show ?thesis using bs m assms by (simp add: console_char_def Let_def)
  next
    case 4
    then show ?thesis using norm_index_cr [OF assms] by (simp add: console_char_def)
  next
    case 5
    then show ?thesis using n r norm_NEW_CHAR [OF norm_index_cr [OF norm_line_start [OF assms]]] by (simp add: console_char_def)
  qed
qed

lemma norm_fold:
  "norm_index st = norm_index st' \<Longrightarrow> norm_index (fold console_char s st) = norm_index (fold console_char s st')"
proof (induction s arbitrary: st st')
  case (Cons c s)
  show ?case using Cons.IH [OF norm_console_char [OF Cons.prems]] by simp
qed simp

lemma console_puts_norm: "console_puts s st = norm_index (fold console_char s st)"
  by (simp add: console_puts_def norm_index_def Let_def)

lemma norm_index_idem: "norm_index (norm_index st) = norm_index st"
  by (simp add: norm_index_def)

text \<open>
  Printing a text in one call or in pieces gives the same console: the state between two calls
  carries over, including a pending carriage return.
\<close>

theorem console_puts_append: "console_puts (a @ b) st = console_puts b (console_puts a st)"
  using norm_fold [OF norm_index_idem, of b "fold console_char a st"] by (simp add: console_puts_norm)

section \<open>The buffer is a window of the terminal\<close>

lemma CONSOLE_BUFFER_eq: "CONSOLE_BUFFER st i = console_buffer st ! nat (i mod 1680)"
  by (simp add: CONSOLE_BUFFER_def)

lemma windowD:
  assumes "window high st t"
  shows "length (console_buffer st) = 1680" and "console_buffer_index st mod 1680 = cursor t mod 1680"
    and "cr st = returned t" and "cursor t \<le> high" and "high \<le> 80 * (cursor t div 80) + 80" and "high \<le> cursor t + 80"
    and "high - 1680 \<le> i \<Longrightarrow> i < high \<Longrightarrow> CONSOLE_BUFFER st i = cells t i"
proof -
  show h: "high \<le> 80 * (cursor t div 80) + 80" using assms by (simp add: window_def)
  have "80 * (cursor t div 80) \<le> cursor t" using div_mult_mod_eq [of "cursor t" 80] pos_mod_sign [of 80 "cursor t"] by linarith
  with h show "high \<le> cursor t + 80" by linarith
qed (use assms in \<open>simp_all add: window_def console_consts\<close>)

lemma windowI:
  assumes "length (console_buffer st) = 1680" "console_buffer_index st mod 1680 = cursor t mod 1680"
    "cr st = returned t" "cursor t \<le> high" "high \<le> 80 * (cursor t div 80) + 80"
    "\<And>i. high - 1680 \<le> i \<Longrightarrow> i < high \<Longrightarrow> CONSOLE_BUFFER st i = cells t i"
  shows "window high st t"
  using assms by (simp add: window_def console_consts)

lemma slot_neq:
  assumes "\<bar>i - j\<bar> < 1680" "i \<noteq> (j :: int)"
  shows "nat (i mod 1680) \<noteq> nat (j mod 1680)"
proof
  assume "nat (i mod 1680) = nat (j mod 1680)"
  then have "i mod 1680 = j mod 1680" by simp
  then have "1680 dvd i - j" by (simp add: mod_eq_dvd_iff)
  then show False using assms zdvd_imp_le [of 1680 "\<bar>i - j\<bar>"] by auto
qed

lemma CONSOLE_BUFFER_write:
  assumes "length (console_buffer st) = 1680" "\<bar>i - p\<bar> < 1680" "k mod 1680 = p mod 1680"
    "console_buffer st' = (console_buffer st)[nat (k mod 1680) := c]"
  shows "CONSOLE_BUFFER st' i = (if i = p then c else CONSOLE_BUFFER st i)"
proof -
  have "nat (p mod 1680) < 1680" using pos_mod_bound [of 1680 p] pos_mod_sign [of 1680 p] by linarith
  then show ?thesis using assms slot_neq [of i p] by (cases "i = p") (simp_all add: CONSOLE_BUFFER_eq)
qed

lemma line_end_mono: "(i :: int) \<le> j \<Longrightarrow> 80 * (i div 80) + 80 \<le> 80 * (j div 80) + 80"
  using zdiv_mono1 [of i j 80] by simp

lemma line_end_next: "(i :: int) + 1 \<le> 80 * ((i + 1) div 80) + 80"
  using div_mult_mod_eq [of "i + 1" 80] pos_mod_bound [of 80 "i + 1"] by linarith

lemma window_NEW_CHAR:
  assumes "window high st t"
  shows "window (max high (cursor t + 1)) (NEW_CHAR c st) (put_cell c t)"
proof -
  note w = windowD [OF assms]
  let ?h = "max high (cursor t + 1)"
  have b: "CONSOLE_BUFFER (NEW_CHAR c st) i = (if i = cursor t then c else CONSOLE_BUFFER st i)" if "\<bar>i - cursor t\<bar> < 1680" for i
    using CONSOLE_BUFFER_write [OF w(1) that w(2), of "NEW_CHAR c st" c] by (simp add: NEW_CHAR_def)
  show ?thesis
  proof (rule windowI)
    show "console_buffer_index (NEW_CHAR c st) mod 1680 = cursor (put_cell c t) mod 1680"
      using mod_1680_step [OF w(2), of 1] by (simp add: NEW_CHAR_def put_cell_def)
    show "?h \<le> 80 * (cursor (put_cell c t) div 80) + 80"
      using w(5) line_end_mono [of "cursor t" "cursor t + 1"] line_end_next [of "cursor t"] by (simp add: put_cell_def)
    fix i assume i: "?h - 1680 \<le> i" "i < ?h"
    then have "\<bar>i - cursor t\<bar> < 1680" using w(4,6) by linarith
    then show "CONSOLE_BUFFER (NEW_CHAR c st) i = cells (put_cell c t) i"
      using b w(7) [of i] i w(4) by (auto simp: put_cell_def)
  qed (simp_all add: w NEW_CHAR_def put_cell_def)
qed

lemma put_blank_to: "cursor t < p \<Longrightarrow> blank_to p (put_cell CHR '' '' t) = blank_to p t"
  by (auto simp: blank_to_def put_cell_def fun_eq_iff)

lemma blank_to_cursor: "blank_to (cursor t) t = t"
proof -
  have "(\<lambda>i. if cursor t \<le> i \<and> i < cursor t then CHR '' '' else cells t i) = cells t" by (rule ext) auto
  then show ?thesis by (simp add: blank_to_def)
qed

lemma next_multiple_step:
  assumes "0 < n" "(i :: int) mod n \<noteq> 0"
  shows "i + 1 + (- (i + 1)) mod n = i + (- i) mod n" and "i < i + (- i) mod n"
proof -
  have "(- i) mod n \<noteq> 0" using assms(2) by (metis dvd_minus_iff mod_0_imp_dvd mod_eq_0_iff_dvd)
  from mod_step_down [OF assms(1) this] show "i + 1 + (- (i + 1)) mod n = i + (- i) mod n" and "i < i + (- i) mod n" by simp_all
qed

lemma window_pad_to:
  "window high st t \<Longrightarrow> n dvd 1680 \<Longrightarrow> 0 < n \<Longrightarrow>
    \<exists>h. window h (pad_to n st) (blank_to (cursor t + (- cursor t) mod n) t)"
proof (induction n st arbitrary: t high rule: pad_to.induct)
  case (1 n st)
  note w = windowD [OF 1(2)]
  have m: "console_buffer_index st mod n = cursor t mod n" using mod_1680_mod [OF w(2) 1(3)] .
  show ?case
  proof (cases "cursor t mod n = 0")
    case True
    then have "(- cursor t) mod n = 0" by (metis dvd_minus_iff mod_0_imp_dvd mod_eq_0_iff_dvd)
    moreover have "pad_to n st = st" using True m 1(4) by (subst pad_to.simps) (simp add: c_MOD_eq)
    ultimately show ?thesis using 1(2) by (auto simp: blank_to_cursor)
  next
    case False
    let ?t = "put_cell CHR '' '' t"
    have c: "0 < n \<and> c_MOD (console_buffer_index st) n \<noteq> 0" using False m 1(4) by (simp add: c_MOD_eq)
    obtain h where "window h (pad_to n (NEW_CHAR CHR '' '' st)) (blank_to (cursor ?t + (- cursor ?t) mod n) ?t)"
      using 1(1) [OF c window_NEW_CHAR [OF 1(2)] 1(3,4)] by blast
    moreover have "cursor ?t + (- cursor ?t) mod n = cursor t + (- cursor t) mod n"
      using next_multiple_step(1) [OF 1(4) False] by (simp add: put_cell_def)
    ultimately have "window h (pad_to n (NEW_CHAR CHR '' '' st)) (blank_to (cursor t + (- cursor t) mod n) t)"
      using put_blank_to [OF next_multiple_step(2) [OF 1(4) False]] by simp
    then show ?thesis using c by (subst pad_to.simps) auto
  qed
qed

lemma window_line_start: "window high st t \<Longrightarrow> window high (line_start st) (t\<lparr>cursor := 80 * (cursor t div 80)\<rparr>)"
proof (induction st arbitrary: t rule: line_start.induct)
  case (1 st)
  note w = windowD [OF 1(2)]
  have m: "console_buffer_index st mod 80 = cursor t mod 80" using mod_1680_80 [OF w(2)] .
  show ?case
  proof (cases "cursor t mod 80 = 0")
    case True
    then have "80 * (cursor t div 80) = cursor t" using div_mult_mod_eq [of "cursor t" 80] by linarith
    moreover have "line_start st = st" using True m by (subst line_start.simps) simp
    ultimately show ?thesis using 1(2) by simp
  next
    case False
    let ?st = "st\<lparr>console_buffer_index := console_buffer_index st - 1\<rparr>" and ?t = "t\<lparr>cursor := cursor t - 1\<rparr>"
    have d: "(cursor t - 1) div 80 = cursor t div 80" using False by (intro div_step_down) simp_all
    have "window high ?st ?t"
      using w d mod_1680_back [OF w(2), of 1] by (intro windowI) (simp_all add: CONSOLE_BUFFER_def)
    then have "window high (line_start ?st) (t\<lparr>cursor := 80 * (cursor t div 80)\<rparr>)"
      using 1(1) [of ?t] False m d by simp
    then show ?thesis using False m by (subst line_start.simps) simp
  qed
qed

lemma next_multiple: "(i :: int) + 1 + (- (i + 1)) mod n = n * (i div n) + n" if "0 < n"
proof -
  have "(- (i + 1)) mod n = n - 1 - i mod n"
  proof -
    have "(- (i + 1)) mod n = (n + (- (i + 1))) mod n" by (simp only: mod_add_self1)
    also have "\<dots> = (n - 1 - i mod n) mod n" by (simp add: mod_simps algebra_simps)
    also have "\<dots> = n - 1 - i mod n"
      using pos_mod_bound [OF that, of i] pos_mod_sign [OF that, of i] by (intro mod_pos_pos_trivial) linarith+
    finally show ?thesis .
  qed
  then show ?thesis using mult_div_mod_eq [of n i] by linarith
qed

lemma next_multiple_greater: "(i :: int) < n * (i div n) + n" if "0 < n"
  using mult_div_mod_eq [of n i] pos_mod_bound [OF that, of i] by linarith

lemma window_cr: "window high st t \<Longrightarrow> window high (st\<lparr>cr := b\<rparr>) (t\<lparr>returned := b\<rparr>)"
  by (simp add: window_def CONSOLE_BUFFER_def)

text \<open>A blank, and more up to the next multiple of \<open>n\<close>.\<close>

lemma window_blank_pad:
  assumes "window high st t" "n dvd 1680" "0 < n"
  shows "\<exists>h. window h (pad_to n (NEW_CHAR CHR '' '' st)) (blank_to (n * (cursor t div n) + n) t)"
proof -
  obtain h where "window h (pad_to n (NEW_CHAR CHR '' '' st))
      (blank_to (cursor t + 1 + (- (cursor t + 1)) mod n) (put_cell CHR '' '' t))"
    using window_pad_to [OF window_NEW_CHAR [OF assms(1)] assms(2,3)] by (auto simp: put_cell_def)
  then show ?thesis
    unfolding next_multiple [OF assms(3)] put_blank_to [OF next_multiple_greater [OF assms(3)]] by blast
qed

lemma window_newline:
  assumes "window high st t"
  shows "\<exists>h. window h (pad_to 80 (if console_buffer_index st mod 80 = 0 then NEW_CHAR CHR '' '' st else st))
    (blank_to (80 * (cursor t div 80) + 80) t)"
proof (cases "cursor t mod 80 = 0")
  case True
  then show ?thesis using window_blank_pad [OF assms, of 80] mod_1680_80 [OF windowD(2) [OF assms]] by simp
next
  case False
  have "cursor t + (- cursor t) mod 80 = 80 * (cursor t div 80) + 80"
    using next_multiple_step(1) [of 80, OF _ False] next_multiple [of 80 "cursor t"] by simp
  then show ?thesis using window_pad_to [OF assms, of 80] False mod_1680_80 [OF windowD(2) [OF assms]] by simp
qed

lemma window_backspace:
  assumes "window high st t" "cursor t mod 80 \<noteq> 0"
  shows "window high (st\<lparr>console_buffer_index := console_buffer_index st - 1,
      console_buffer := (console_buffer st)[nat ((console_buffer_index st - 1) mod 1680) := CHR '' '']\<rparr>)
    (t\<lparr>cells := (cells t)(cursor t - 1 := CHR '' ''), cursor := cursor t - 1\<rparr>)"
  (is "window high ?st ?t")
proof -
  note w = windowD [OF assms(1)]
  note bk = mod_1680_back [OF w(2), of 1]
  have d: "(cursor t - 1) div 80 = cursor t div 80" using assms(2) by (intro div_step_down) simp_all
  have b: "CONSOLE_BUFFER ?st i = (if i = cursor t - 1 then CHR '' '' else CONSOLE_BUFFER st i)" if "\<bar>i - (cursor t - 1)\<bar> < 1680" for i
    using CONSOLE_BUFFER_write [OF w(1) that bk, of ?st "CHR '' ''"] by simp
  show ?thesis
  proof (rule windowI)
    show "cursor ?t \<le> high" using w(4) by simp
    fix i assume i: "high - 1680 \<le> i" "i < high"
    then have "\<bar>i - (cursor t - 1)\<bar> < 1680" using w(4,6) by linarith
    then show "CONSOLE_BUFFER ?st i = cells ?t i" using b w(7) [OF i] by simp
  qed (simp_all add: w bk d)
qed

lemma window_console_char:
  assumes "window high st t"
  shows "\<exists>h. window h (console_char c st) (term_char c t)"
proof -
  have m: "console_buffer_index st mod 80 = cursor t mod 80" using mod_1680_80 [OF windowD(2) [OF assms]] .
  have r: "cr st = returned t" using windowD(3) [OF assms] .
  consider "c = LF" | "c = TAB" | "c = CHR 0x08" | "c = CR" | "c \<noteq> LF" "c \<noteq> TAB" "c \<noteq> CHR 0x08" "c \<noteq> CR" by blast
  then show ?thesis
  proof cases
    case 1
    obtain h where "window h (pad_to 80 (if console_buffer_index st mod 80 = 0 then NEW_CHAR CHR '' '' st else st))
      (blank_to (80 * (cursor t div 80) + 80) t)" using window_newline [OF assms] by blast
    from window_cr [OF this, of False] show ?thesis using 1
      by (simp only: console_char_def term_char_def Let_def console_consts console_mods simp_thms if_True) blast
  next
    case 2
    then show ?thesis using window_blank_pad [OF assms, of 4] by (simp add: console_char_def term_char_def)
  next
    case 3
    then show ?thesis using assms window_backspace [OF assms] m by (auto simp: console_char_def term_char_def Let_def)
  next
    case 4
    then show ?thesis using window_cr [OF assms, of True] by (auto simp: console_char_def term_char_def)
  next
    case 5
    show ?thesis
    proof (cases "returned t")
      case True
      let ?t = "t\<lparr>cursor := 80 * (cursor t div 80), returned := False\<rparr>"
      have "t\<lparr>cells := (cells t)(80 * (cursor t div 80) := c), cursor := 80 * (cursor t div 80) + 1, returned := False\<rparr> = put_cell c ?t"
        by (cases t) (simp add: put_cell_def)
      then show ?thesis using 5 True r window_NEW_CHAR [OF window_cr [OF window_line_start [OF assms], of False], of c]
        by (auto simp: console_char_def term_char_def Let_def)
    next
      case False
      then have "t\<lparr>cells := (cells t)(cursor t := c), cursor := cursor t + 1, returned := False\<rparr> = put_cell c t"
        by (cases t) (simp add: put_cell_def)
      then show ?thesis using 5 False r window_NEW_CHAR [OF assms, of c]
        by (auto simp: console_char_def term_char_def Let_def)
    qed
  qed
qed

lemma window_fold: "window high st t \<Longrightarrow> \<exists>h. window h (fold console_char s st) (fold term_char s t)"
proof (induction s arbitrary: high st t)
  case (Cons c s)
  obtain h where "window h (console_char c st) (term_char c t)" using window_console_char [OF Cons.prems] by blast
  from Cons.IH [OF this] show ?case by simp
qed auto

lemma window_norm: "window high st t \<Longrightarrow> window high (norm_index st) t"
  by (simp add: window_def norm_index_def CONSOLE_BUFFER_def console_consts)

lemma window_puts: "window high st t \<Longrightarrow> \<exists>h. window h (console_puts s st) (fold term_char s t)"
  unfolding console_puts_norm using window_fold window_norm by blast

lemma window_zero: "window 0 console_zero term_zero"
proof (rule windowI)
  fix i :: int
  have "nat (i mod 1680) < 1680" using pos_mod_bound [of 1680 i] pos_mod_sign [of 1680 i] by linarith
  then show "CONSOLE_BUFFER console_zero i = cells term_zero i"
    by (simp add: CONSOLE_BUFFER_eq console_zero_def term_zero_def console_consts)
qed (simp_all add: console_zero_def term_zero_def console_consts)

text \<open>
  C14: The console implements a terminal with an unbounded tape: after any text the index is
  the position of the cursor modulo the size of the buffer, and the buffer holds the line of the cursor up to
  the cursor and the 20 lines before it.
\<close>

theorem console_refines_terminal:
  assumes "t = fold term_char s term_zero" and "st = console_puts s console_zero"
  shows "console_buffer_index st = cursor t mod BUFSIZE \<and> cr st = returned t
    \<and> (\<forall>i. 80 * (cursor t div 80) - 20 * 80 \<le> i \<and> i < cursor t \<longrightarrow> CONSOLE_BUFFER st i = cells t i)"
proof -
  obtain h where h: "window h st t" using window_puts [OF window_zero, of s] assms by blast
  note w = windowD [OF h]
  have "console_buffer_index st mod 1680 = console_buffer_index st"
    unfolding assms(2) console_puts_norm by (simp add: norm_index_def)
  moreover have "CONSOLE_BUFFER st i = cells t i" if "80 * (cursor t div 80) - 20 * 80 \<le> i" "i < cursor t" for i
    using w(7) [of i] that w(4,5) by linarith
  ultimately show ?thesis using w(2,3) by (simp add: console_consts)
qed

theorem console_refines_terminal_witness:
  "CONSOLE_BUFFER (console_puts (''ab'' @ [CHR 0x08, CHR ''c'']) console_zero) 1 = CHR ''c''"
  using console_refines_terminal [OF refl refl, of "''ab'' @ [CHR 0x08, CHR ''c'']"]
  by (simp add: term_char_def term_zero_def Let_def)

section \<open>Bounds\<close>

lemma pad_to_index:
  "0 < n \<Longrightarrow> console_buffer_index (pad_to n st) = console_buffer_index st + (- console_buffer_index st) mod n
    \<and> length (console_buffer (pad_to n st)) = length (console_buffer st)"
proof (induction n st rule: pad_to.induct)
  case (1 n st)
  show ?case
  proof (cases "console_buffer_index st mod n = 0")
    case True
    then have "(- console_buffer_index st) mod n = 0" by (metis dvd_minus_iff mod_0_imp_dvd mod_eq_0_iff_dvd)
    then show ?thesis using True 1(2) by (subst (1 2) pad_to.simps) (simp add: c_MOD_eq)
  next
    case False
    have c: "0 < n \<and> c_MOD (console_buffer_index st) n \<noteq> 0" using False 1(2) by (simp add: c_MOD_eq)
    from 1(1) [OF c 1(2)] next_multiple_step(1) [OF 1(2) False] c show ?thesis
      by (subst (1 2) pad_to.simps) (simp add: NEW_CHAR_def)
  qed
qed

lemma line_start_index:
  "console_buffer_index (line_start st) = 80 * (console_buffer_index st div 80)
    \<and> console_buffer (line_start st) = console_buffer st"
proof (induction st rule: line_start.induct)
  case (1 st)
  show ?case
  proof (cases "console_buffer_index st mod 80 = 0")
    case True
    then show ?thesis by (subst (1 2) line_start.simps) auto
  next
    case False
    have "(console_buffer_index st - 1) div 80 = console_buffer_index st div 80" using False by (intro div_step_down) simp_all
    then show ?thesis using 1 False by (subst (1 2) line_start.simps) simp
  qed
qed

lemma neg_mod_less: "0 < n \<Longrightarrow> 0 \<le> (- i :: int) mod n \<and> (- i) mod n < n"
  by simp

lemma console_char_index:
  assumes "0 \<le> console_buffer_index st"
  shows "0 \<le> console_buffer_index (console_char c st) \<and> console_buffer_index (console_char c st) \<le> console_buffer_index st + 80
    \<and> length (console_buffer (console_char c st)) = length (console_buffer st)"
proof -
  let ?i = "console_buffer_index st"
  consider "c = LF" | "c = TAB" | "c = CHR 0x08" | "c = CR" | "c \<noteq> LF" "c \<noteq> TAB" "c \<noteq> CHR 0x08" "c \<noteq> CR" by blast
  then show ?thesis
  proof cases
    case 1
    then show ?thesis
      using assms pad_to_index [of 80 "NEW_CHAR CHR '' '' st"] pad_to_index [of 80 st]
        neg_mod_less [of 80 ?i] neg_mod_less [of 80 "?i + 1"] next_multiple [of 80 ?i]
      by (cases "?i mod 80 = 0") (auto simp: console_char_def Let_def console_consts NEW_CHAR_def)
  next
    case 2
    then show ?thesis
      using assms pad_to_index [of 4 "NEW_CHAR CHR '' '' st"] neg_mod_less [of 4 "?i + 1"]
      by (simp add: console_char_def NEW_CHAR_def)
  next
    case 3
    have "?i mod 80 \<noteq> 0 \<Longrightarrow> 1 \<le> ?i" using assms by (cases "?i = 0") auto
    then show ?thesis using 3 assms by (auto simp: console_char_def Let_def)
  next
    case 4
    then show ?thesis using assms by (simp add: console_char_def)
  next
    case 5
    have "0 \<le> ?i div 80" using assms by simp
    then have "80 * (?i div 80) \<le> ?i" "0 \<le> 80 * (?i div 80)" using mult_div_mod_eq [of 80 ?i] pos_mod_sign [of 80 ?i] by linarith+
    then show ?thesis using 5 assms line_start_index [of st] by (simp add: console_char_def NEW_CHAR_def)
  qed
qed

lemma console_fold_index:
  "0 \<le> console_buffer_index st \<Longrightarrow>
    0 \<le> console_buffer_index (fold console_char s st)
    \<and> console_buffer_index (fold console_char s st) \<le> console_buffer_index st + 80 * int (length s)
    \<and> length (console_buffer (fold console_char s st)) = length (console_buffer st)"
proof (induction s arbitrary: st)
  case (Cons c s)
  note c = console_char_index [OF Cons.prems, of c]
  from Cons.IH [of "console_char c st"] c show ?case by auto
qed simp

text \<open>
  C16: Every operation keeps the console well formed: 1680 cells and an index into them. Within a
  call of \<^verbatim>\<open>console_puts\<close> the index stays below 1680 plus 80 for each character, so that it
  does not overflow for texts of less than 26 million characters.
\<close>

theorem console_well_formed:
  assumes "console_ok st"
  shows "0 \<le> console_buffer_index (fold console_char s st)
    \<and> console_buffer_index (fold console_char s st) < 1680 + 80 * int (length s)
    \<and> console_ok (console_puts s st) \<and> console_ok (c_puts s st) \<and> console_ok (console_clear st)
    \<and> console_ok (console_toggle st)
    \<and> console_ok (snd (console_draw_from_menu fw fh st))
    \<and> console_ok (snd (snd (console_task_step fw fh idle menu_shown (dirty, st))))"
proof -
  have ok: "console_ok (console_puts s st)" if "console_ok st" for s st
    using console_fold_index [of st s] that
    by (simp add: console_ok_def console_puts_norm norm_index_def console_consts)
  have puts: "console_ok (console_puts s st)" "console_ok (c_puts s st)" using assms ok by (simp_all add: c_puts_def)
  have bounds: "0 \<le> console_buffer_index (fold console_char s st)"
    "console_buffer_index (fold console_char s st) < 1680 + 80 * int (length s)"
    using console_fold_index [of st s] assms by (simp_all add: console_ok_def console_consts)
  have vis: "console_ok (console_clear st)" "console_ok (console_toggle st)"
    using assms by (simp_all add: console_ok_def console_clear_def console_show_def console_hide_def console_toggle_def)
  have "console_ok (snd (console_draw fw fh tiny st))" for tiny
    using assms by (simp add: console_ok_def console_draw_def Let_def)
  then have "console_ok (snd (console_draw_from_menu fw fh st))"
    "console_ok (snd (snd (console_task_step fw fh idle menu_shown (dirty, st))))"
    using assms by (simp_all add: console_draw_from_menu_def console_task_step_def split_beta)
  with puts bounds vis show ?thesis by blast
qed

theorem console_well_formed_witness: "console_ok console_zero \<and> console_ok (console_puts ''hello'' console_zero)"
proof -
  have "console_ok console_zero" by (simp add: console_ok_def console_zero_def console_consts)
  then show ?thesis using console_well_formed [of console_zero "''hello''"] by blast
qed

section \<open>Drawing\<close>

lemma fold_plain:
  "plain s \<Longrightarrow> length s \<le> 1680 \<Longrightarrow> fold console_char s console_zero =
    console_zero\<lparr>console_buffer := s @ replicate (1680 - length s) CHR '' '', console_buffer_index := int (length s)\<rparr>"
proof (induction s rule: rev_induct)
  case Nil
  then show ?case by (simp add: console_zero_def console_consts)
next
  case (snoc c s)
  have "replicate (1680 - length s) CHR '' '' = CHR '' '' # replicate (1680 - length (s @ [c])) CHR '' ''"
    using snoc.prems by (simp flip: replicate_Suc add: Suc_diff_Suc)
  moreover have "int (length s) mod 1680 = int (length s)" using snoc.prems by simp
  ultimately show ?case
    using snoc by (simp add: plain_def console_char_def NEW_CHAR_def console_zero_def)
qed

lemma console_plain:
  assumes "plain s" "length s \<le> 75" "st = console_puts s console_zero"
  shows "console_buffer st = s @ replicate (1680 - length s) CHR '' ''" and "console_buffer_index st = int (length s)"
    and "prev_w st = 0" and "prev_h st = 0"
  using fold_plain [OF assms(1)] assms(2,3) by (simp_all add: console_puts_norm norm_index_def console_zero_def)

lemma takeWhile_block: "list_all P xs \<Longrightarrow> (ys \<noteq> [] \<Longrightarrow> \<not> P (hd ys)) \<Longrightarrow> takeWhile P (xs @ ys) = xs"
  by (induction xs) (auto simp: takeWhile_eq_Nil_iff)

lemma draw_cells_append:
  "fst (draw_cells st (ps @ qs) f) = fst (draw_cells st ps f) @ fst (draw_cells st qs (snd (draw_cells st ps f)))"
  by (induction ps arbitrary: f) (simp_all add: split_beta Let_def)

lemma draw_cells_before_cursor:
  "list_all (\<lambda>p. p mod 1680 \<noteq> console_buffer_index st mod 1680 \<and> CONSOLE_BUFFER st p \<noteq> NULc) ps \<Longrightarrow>
    draw_cells st ps False = (map (CONSOLE_BUFFER st) ps, False)"
  by (induction ps) (simp_all add: draw_cell_def Let_def)

lemma CONSOLE_BUFFER_plain:
  assumes "plain s" "length s \<le> 75" "st = console_puts s console_zero" "0 \<le> p" "p < 1680"
  shows "CONSOLE_BUFFER st p = (if nat p < length s then s ! nat p else CHR '' '')"
    and "CONSOLE_BUFFER st (1680 + p) = (if nat p < length s then s ! nat p else CHR '' '')"
proof -
  have "nat p < 1680" using assms by simp
  then show "CONSOLE_BUFFER st p = (if nat p < length s then s ! nat p else CHR '' '')"
    using assms(4,5) unfolding CONSOLE_BUFFER_eq console_plain(1) [OF assms(1-3)] by (simp add: nth_append)
  then show "CONSOLE_BUFFER st (1680 + p) = (if nat p < length s then s ! nat p else CHR '' '')"
    unfolding CONSOLE_BUFFER_eq by simp
qed

lemma plain_layout:
  assumes "plain s" "s \<noteq> []" "last s \<noteq> CHR '' ''" "length s \<le> 75" "st = console_puts s console_zero"
  shows "draw_start st = 80" and "skipped_lines st = 20" and "chopped_columns 20 st = 80 - int (length s)"
proof -
  note b = CONSOLE_BUFFER_plain [OF assms(1,4,5)]
  have n: "0 < int (length s)" "int (length s) \<le> 75" using assms(2,4) by simp_all
  have i: "console_buffer_index st = int (length s)" using console_plain(2) [OF assms(1,4,5)] .
  have last: "s ! nat (int (length s) - 1) \<noteq> CHR '' ''"
  proof -
    have "nat (int (length s) - 1) = length s - 1" by arith
    then show ?thesis using assms(2,3) by (simp add: last_conv_nth)
  qed
  show d: "draw_start st = 80"
    using n unfolding draw_start_def i by (simp add: Let_def console_consts c_div_nonneg c_rem_nonneg c_MOD_eq)
  have lt: "nat (int (length s) - 1) < length s" using n by linarith
  let ?e = "\<lambda>i. list_all (\<lambda>j. CONSOLE_BUFFER st (80 + i * 80 + j) = CHR '' '') [0..79]"
  have "list_all ?e [0..19]" using n b(1) by (auto simp: list_all_iff)
  moreover have "\<not> ?e 20"
    using last lt n b(2) [of "int (length s) - 1"] by (auto simp: list_all_iff intro!: bexI [of _ "int (length s) - 1"])
  moreover have "[0..20] = [0..19] @ [20 :: int]" using upto_rec2 [of 0 20] by simp
  ultimately have "takeWhile ?e [0..20] = [0..19]" by (simp only: takeWhile_block [of ?e "[0..19]" "[20]"] list.sel simp_thms)
  then show "skipped_lines st = 20" unfolding skipped_lines_def d by (simp add: console_consts)
  let ?c = "\<lambda>j. list_all (\<lambda>i. CONSOLE_BUFFER st (80 + i * 80 + j) = CHR '' '') [20..20]"
  have r: "rev [1..79] = rev [int (length s)..79] @ rev [1..int (length s) - 1]"
    unfolding rev_append [symmetric] using n by (intro arg_cong [where f = rev] upto_split1) linarith+
  have a: "list_all ?c (rev [int (length s)..79])" using n b(2) by (auto simp: list_all_iff)
  have h: "\<not> ?c (hd (rev [1..int (length s) - 1]))" if "rev [1..int (length s) - 1] \<noteq> []"
  proof -
    have "hd (rev [1..int (length s) - 1]) = int (length s) - 1"
      using that upto_rec2 [of 1 "int (length s) - 1"] by (simp split: if_splits)
    then show ?thesis using last lt n b(2) [of "int (length s) - 1"] by simp
  qed
  have "takeWhile ?c (rev [1..79]) = rev [int (length s)..79]" unfolding r using a h by (rule takeWhile_block)
  then show "chopped_columns 20 st = 80 - int (length s)"
    using n unfolding chopped_columns_def d i by (simp add: console_consts c_rem_nonneg c_MIN_def Let_def)
qed

text \<open>
  A text of up to 75 characters on a fresh console is the only line that is drawn, without the
  cursor: the limit on the chopped columns lets the terminator of the line overwrite the cursor.
\<close>

theorem console_draws_text_without_cursor:
  assumes "plain s" "s \<noteq> []" "last s \<noteq> CHR '' ''" "length s \<le> 75" "0 \<le> fw" "0 \<le> fh"
  shows "fst (console_draw fw fh tiny (console_puts s console_zero)) = Lines [s]"
proof -
  define st where "st = console_puts s console_zero"
  note b = CONSOLE_BUFFER_plain(2) [OF assms(1,4) st_def]
  note l = plain_layout [OF assms(1-4) st_def]
  note c = console_plain [OF assms(1,4) st_def]
  let ?n = "int (length s)"
  have n: "0 < ?n" "?n \<le> 75" using assms(2,4) by simp_all
  have nz: "s ! k \<noteq> NULc" if "k < length s" for k using assms(1) that by (simp add: plain_def list_all_length)
  let ?ps = "map (\<lambda>j. 1680 + j) [0..?n - 1]" and ?qs = "map (\<lambda>j. 1680 + j) [?n..79]"
  have split: "map (\<lambda>j. 1680 + j) [0..79] = ?ps @ ?qs"
    using n upto_split1 [of 0 ?n 79] by (simp flip: map_append)
  have bs: "CONSOLE_BUFFER st (1680 + j) = s ! nat j" if "0 \<le> j" "j < ?n" for j
  proof -
    have "nat j < length s" using that by linarith
    then show ?thesis using that n b [of j] by simp
  qed
  have "draw_cells st ?ps False = (map (CONSOLE_BUFFER st) ?ps, False)"
  proof (rule draw_cells_before_cursor)
    show "list_all (\<lambda>p. p mod 1680 \<noteq> console_buffer_index st mod 1680 \<and> CONSOLE_BUFFER st p \<noteq> NULc) ?ps"
    proof -
      have "(1680 + j) mod 1680 \<noteq> ?n mod 1680 \<and> CONSOLE_BUFFER st (1680 + j) \<noteq> NULc" if "0 \<le> j" "j \<le> ?n - 1" for j
        using that n bs [of j] nz [of "nat j"] by simp
      then show ?thesis unfolding c(2) list.pred_map unfolding list_all_iff o_def set_upto by (intro ballI) (simp only: atLeastAtMost_iff simp_thms)
    qed
  qed
  moreover have "map (CONSOLE_BUFFER st) ?ps = s"
    using n by (intro nth_equalityI) (auto simp: bs)
  ultimately have "take (length s) (fst (draw_cells st (map (\<lambda>j. 1680 + j) [0..79]) False)) = s"
    unfolding split draw_cells_append by simp
  then have "draw_lines st (80 - ?n) [20..20] False = [s]"
    using l(1) by (simp add: split_beta Let_def console_consts)
  moreover have "\<not> fw * ?n + 2 < 0" using mult_nonneg_nonneg [OF assms(5), of ?n] by linarith
  ultimately show ?thesis
    using n assms(5,6) unfolding st_def [symmetric] console_draw_def
    by (simp add: l c Let_def console_consts c_MAX_def c_MIN_def)
qed

theorem console_draws_text_without_cursor_witness:
  "fst (console_draw 10 20 False (console_puts ''hello'' console_zero)) = Lines [''hello'']"
  using console_draws_text_without_cursor [of "''hello''" 10 20 False] by (simp add: plain_def)

end
