(* ===== verification/ML_Raw.thy ===== *)
theory ML_Raw
  imports ML_Prelude
begin

text \<open>
  Access to raw image data, \<^verbatim>\<open>src/src/raw.c\<close> and \<^verbatim>\<open>src/src/raw.h\<close>: eight 14-bit pixels share a
  block of seven 16-bit units, whose bit fields GCC lays out from the least significant bit. The
  buffer lies in the byte memory. The structure \<^verbatim>\<open>raw_info\<close> is reduced to the fields that the
  functions here use. The lemmas show that the buffer is an array of pixels, laid out as the
  comment in \<^verbatim>\<open>raw.h\<close> draws it, and what the colour channels and grayscale projections return.
\<close>

section \<open>Pixel blocks\<close>

datatype pix_field = F_b_hi | F_a | F_c_hi | F_b_lo | F_d_hi | F_c_lo | F_e_hi | F_d_lo
  | F_f_hi | F_e_lo | F_g_hi | F_f_lo | F_h | F_g_lo

text \<open>The 16-bit unit, the lowest bit and the width of a field of \<^verbatim>\<open>raw_pixblock\<close>.\<close>

fun field_pos :: "pix_field \<Rightarrow> nat \<times> nat \<times> nat" where
  "field_pos F_b_hi = (0, 0, 2)"
| "field_pos F_a = (0, 2, 14)"
| "field_pos F_c_hi = (1, 0, 4)"
| "field_pos F_b_lo = (1, 4, 12)"
| "field_pos F_d_hi = (2, 0, 6)"
| "field_pos F_c_lo = (2, 6, 10)"
| "field_pos F_e_hi = (3, 0, 8)"
| "field_pos F_d_lo = (3, 8, 8)"
| "field_pos F_f_hi = (4, 0, 10)"
| "field_pos F_e_lo = (4, 10, 6)"
| "field_pos F_g_hi = (5, 0, 12)"
| "field_pos F_f_lo = (5, 12, 4)"
| "field_pos F_h = (6, 0, 14)"
| "field_pos F_g_lo = (6, 14, 2)"

definition get_field :: "memory \<Rightarrow> u32 \<Rightarrow> pix_field \<Rightarrow> u16" where
  "get_field m p f = (let (k, lo, w) = field_pos f in take_bit w (drop_bit lo (rd16 m (p + of_nat (2 * k)))))"

definition set_field :: "memory \<Rightarrow> u32 \<Rightarrow> pix_field \<Rightarrow> u16 \<Rightarrow> memory" where
  "set_field m p f v =
     (let (k, lo, w) = field_pos f; q = p + of_nat (2 * k)
      in wr16 m q ((rd16 m q AND NOT (push_bit lo (mask w))) OR push_bit lo (take_bit w v)))"

text \<open>The switch statements of \<^verbatim>\<open>raw_get_pixel\<close> and \<^verbatim>\<open>raw_set_pixel\<close>.\<close>

definition pixblock_get :: "memory \<Rightarrow> u32 \<Rightarrow> int \<Rightarrow> int" where
  "pixblock_get m p r =
     (let g = get_field m p in
      uint (if r = 0 then g F_a
        else if r = 1 then g F_b_lo OR push_bit 12 (g F_b_hi)
        else if r = 2 then g F_c_lo OR push_bit 10 (g F_c_hi)
        else if r = 3 then g F_d_lo OR push_bit 8 (g F_d_hi)
        else if r = 4 then g F_e_lo OR push_bit 6 (g F_e_hi)
        else if r = 5 then g F_f_lo OR push_bit 4 (g F_f_hi)
        else if r = 6 then g F_g_lo OR push_bit 2 (g F_g_hi)
        else if r = 7 then g F_h
        else g F_a))"

definition set_split :: "memory \<Rightarrow> u32 \<Rightarrow> pix_field \<Rightarrow> pix_field \<Rightarrow> nat \<Rightarrow> int \<Rightarrow> memory" where
  "set_split m p lo hi n v = set_field (set_field m p lo (word_of_int v)) p hi (word_of_int (drop_bit n v))"

definition pixblock_set :: "memory \<Rightarrow> u32 \<Rightarrow> int \<Rightarrow> int \<Rightarrow> memory" where
  "pixblock_set m p r v =
     (if r = 0 then set_field m p F_a (word_of_int v)
      else if r = 1 then set_split m p F_b_lo F_b_hi 12 v
      else if r = 2 then set_split m p F_c_lo F_c_hi 10 v
      else if r = 3 then set_split m p F_d_lo F_d_hi 8 v
      else if r = 4 then set_split m p F_e_lo F_e_hi 6 v
      else if r = 5 then set_split m p F_f_lo F_f_hi 4 v
      else if r = 6 then set_split m p F_g_lo F_g_hi 2 v
      else if r = 7 then set_field m p F_h (word_of_int v)
      else m)"

section \<open>The raw buffer\<close>

record raw_info =
  raw_buffer :: u32
  raw_height :: int
  raw_width :: int
  raw_pitch :: int
  frame_size :: int
  bits_per_pixel :: int
  jpeg_x :: int
  jpeg_y :: int
  jpeg_width :: int
  jpeg_height :: int
  active_y1 :: int
  active_x1 :: int
  active_y2 :: int
  active_x2 :: int

definition set_geometry_info :: "int \<Rightarrow> int \<Rightarrow> int \<Rightarrow> int \<Rightarrow> int \<Rightarrow> int \<Rightarrow> raw_info \<Rightarrow> raw_info" where
  "set_geometry_info width height skip_left skip_right skip_top skip_bottom info =
     (let pitch = c_div (width * bits_per_pixel info) 8
      in info\<lparr>raw_width := width, raw_height := height, raw_pitch := pitch, frame_size := height * pitch,
           active_x1 := skip_left, active_y1 := skip_top,
           active_x2 := width - skip_right, active_y2 := height - skip_bottom,
           jpeg_x := 0, jpeg_y := 0,
           jpeg_width := width - skip_left - skip_right, jpeg_height := height - skip_top - skip_bottom\<rparr>)"

definition raw_get_pixel_ex :: "raw_info \<Rightarrow> memory \<Rightarrow> u32 \<Rightarrow> int \<Rightarrow> int \<Rightarrow> int" where
  "raw_get_pixel_ex info m buf x y =
     pixblock_get m (buf + word_of_int (y * raw_pitch info + c_div x 8 * 14)) (c_rem x 8)"

definition raw_get_pixel :: "raw_info \<Rightarrow> memory \<Rightarrow> int \<Rightarrow> int \<Rightarrow> int" where
  "raw_get_pixel info m x y =
     pixblock_get m (raw_buffer info + word_of_int (y * raw_pitch info + c_div x 8 * 14)) (c_rem x 8)"

definition raw_set_pixel :: "raw_info \<Rightarrow> memory \<Rightarrow> int \<Rightarrow> int \<Rightarrow> int \<Rightarrow> memory" where
  "raw_set_pixel info m x y v =
     pixblock_set m (raw_buffer info + word_of_int (y * raw_pitch info + c_div x 8 * 14)) (c_rem x 8) v"

text \<open>\<^verbatim>\<open>buf[i]\<close>, a block of 14 bytes.\<close>

definition block_at :: "raw_info \<Rightarrow> int \<Rightarrow> u32" where
  "block_at info i = raw_buffer info + word_of_int (14 * i)"

text \<open>The index of the block of a pixel; the processor computes it in 32 bits.\<close>

definition block_index :: "raw_info \<Rightarrow> int \<Rightarrow> int \<Rightarrow> int" where
  "block_index info x y = c_div (s32 (s32 (y * raw_width info) + x)) 8"

definition raw_red_pixel :: "raw_info \<Rightarrow> memory \<Rightarrow> int \<Rightarrow> int \<Rightarrow> int" where
  "raw_red_pixel info m x y =
     (let y = c_div y 2 * 2; i = block_index info x y in uint (get_field m (block_at info i) F_a))"

definition raw_green_pixel :: "raw_info \<Rightarrow> memory \<Rightarrow> int \<Rightarrow> int \<Rightarrow> int" where
  "raw_green_pixel info m x y =
     (let y = c_div y 2 * 2; i = block_index info x y in uint (get_field m (block_at info i) F_h))"

definition raw_blue_pixel :: "raw_info \<Rightarrow> memory \<Rightarrow> int \<Rightarrow> int \<Rightarrow> int" where
  "raw_blue_pixel info m x y =
     (let y = c_div y 2 * 2 - 1; i = block_index info x y in uint (get_field m (block_at info i) F_h))"

text \<open>The dark and bright variants combine a block with the one two lines above.\<close>

definition two_exposures :: "(int \<Rightarrow> int \<Rightarrow> int) \<Rightarrow> raw_info \<Rightarrow> memory \<Rightarrow> int \<Rightarrow> pix_field \<Rightarrow> int" where
  "two_exposures op info m i f =
     op (uint (get_field m (block_at info i) f)) (uint (get_field m (block_at info (i - c_div (raw_width info * 2) 8)) f))"

definition raw_red_pixel_dark :: "raw_info \<Rightarrow> memory \<Rightarrow> int \<Rightarrow> int \<Rightarrow> int" where
  "raw_red_pixel_dark info m x y = (let y = c_div y 2 * 2 in two_exposures c_MIN info m (block_index info x y) F_a)"

definition raw_green_pixel_dark :: "raw_info \<Rightarrow> memory \<Rightarrow> int \<Rightarrow> int \<Rightarrow> int" where
  "raw_green_pixel_dark info m x y = (let y = c_div y 2 * 2 in two_exposures c_MIN info m (block_index info x y) F_h)"

definition raw_blue_pixel_dark :: "raw_info \<Rightarrow> memory \<Rightarrow> int \<Rightarrow> int \<Rightarrow> int" where
  "raw_blue_pixel_dark info m x y = (let y = c_div y 2 * 2 - 1 in two_exposures c_MIN info m (block_index info x y) F_h)"

definition raw_red_pixel_bright :: "raw_info \<Rightarrow> memory \<Rightarrow> int \<Rightarrow> int \<Rightarrow> int" where
  "raw_red_pixel_bright info m x y = (let y = c_div y 2 * 2 in two_exposures c_MAX info m (block_index info x y) F_a)"

definition raw_green_pixel_bright :: "raw_info \<Rightarrow> memory \<Rightarrow> int \<Rightarrow> int \<Rightarrow> int" where
  "raw_green_pixel_bright info m x y = (let y = c_div y 2 * 2 in two_exposures c_MAX info m (block_index info x y) F_h)"

definition raw_blue_pixel_bright :: "raw_info \<Rightarrow> memory \<Rightarrow> int \<Rightarrow> int \<Rightarrow> int" where
  "raw_blue_pixel_bright info m x y = (let y = c_div y 2 * 2 - 1 in two_exposures c_MAX info m (block_index info x y) F_h)"

section \<open>Grayscale projections\<close>

definition GRAY_PROJECTION_RED :: u32 where "GRAY_PROJECTION_RED = 0"
definition GRAY_PROJECTION_GREEN :: u32 where "GRAY_PROJECTION_GREEN = 1"
definition GRAY_PROJECTION_BLUE :: u32 where "GRAY_PROJECTION_BLUE = 2"
definition GRAY_PROJECTION_AVERAGE_RGB :: u32 where "GRAY_PROJECTION_AVERAGE_RGB = 3"
definition GRAY_PROJECTION_MAX_RGB :: u32 where "GRAY_PROJECTION_MAX_RGB = 4"
definition GRAY_PROJECTION_MAX_RB :: u32 where "GRAY_PROJECTION_MAX_RB = 5"
definition GRAY_PROJECTION_MEDIAN_RGB :: u32 where "GRAY_PROJECTION_MEDIAN_RGB = 6"
definition GRAY_PROJECTION_BRIGHT_DARK_MASK :: u32 where "GRAY_PROJECTION_BRIGHT_DARK_MASK = 0x300"
definition GRAY_PROJECTION_DARK_ONLY :: u32 where "GRAY_PROJECTION_DARK_ONLY = 0x000"
definition GRAY_PROJECTION_BRIGHT_ONLY :: u32 where "GRAY_PROJECTION_BRIGHT_ONLY = 0x100"

text \<open>The functions that read the channels, as the first switch statement selects them.\<close>

type_synonym pixel_fun = "raw_info \<Rightarrow> memory \<Rightarrow> int \<Rightarrow> int \<Rightarrow> int"

definition gray_channels :: "u32 \<Rightarrow> pixel_fun \<times> pixel_fun \<times> pixel_fun" where
  "gray_channels gray_projection =
     (let e = gray_projection AND GRAY_PROJECTION_BRIGHT_DARK_MASK
      in if e = GRAY_PROJECTION_DARK_ONLY then (raw_red_pixel_dark, raw_green_pixel_dark, raw_blue_pixel_dark)
         else if e = GRAY_PROJECTION_BRIGHT_ONLY then (raw_red_pixel_bright, raw_green_pixel_bright, raw_blue_pixel_bright)
         else (raw_red_pixel, raw_green_pixel, raw_blue_pixel))"

definition gray_median :: "int \<Rightarrow> int \<Rightarrow> int \<Rightarrow> int" where
  "gray_median r g b =
     (let M = c_MAX (c_MAX r g) b; m = c_MIN (c_MIN r g) b
      in if r \<ge> m \<and> r \<le> M then r else if g \<ge> m \<and> g \<le> M then g else b)"

definition raw_get_gray_pixel :: "raw_info \<Rightarrow> memory \<Rightarrow> int \<Rightarrow> int \<Rightarrow> u32 \<Rightarrow> int" where
  "raw_get_gray_pixel info m x y gray_projection =
     (let (red_pixel, green_pixel, blue_pixel) = gray_channels gray_projection;
          r = red_pixel info m x y; g = green_pixel info m x y; b = blue_pixel info m x y;
          k = gray_projection AND 0xFF
      in if k = GRAY_PROJECTION_RED then r
         else if k = GRAY_PROJECTION_GREEN then g
         else if k = GRAY_PROJECTION_BLUE then b
         else if k = GRAY_PROJECTION_AVERAGE_RGB then c_div (r + g + b) 3
         else if k = GRAY_PROJECTION_MAX_RGB then c_MAX (c_MAX r g) b
         else if k = GRAY_PROJECTION_MAX_RB then c_MAX r b
         else if k = GRAY_PROJECTION_MEDIAN_RGB then gray_median r g b
         else - 1)"

section \<open>Specification\<close>

text \<open>
  The comment in \<^verbatim>\<open>raw.h\<close>: the seven units of a block, the first one the most significant, hold
  the eight pixels one after the other.
\<close>

definition block_word :: "memory \<Rightarrow> u32 \<Rightarrow> 112 word" where
  "block_word m p = fold (\<lambda>k w. push_bit 16 w OR ucast (rd16 m (p + of_nat (2 * k)))) [0..<7] 0"

definition block_pixel :: "112 word \<Rightarrow> nat \<Rightarrow> int" where
  "block_pixel w k = uint (take_bit 14 (drop_bit (98 - 14 * k) w))"

text \<open>A frame of 14-bit pixels whose lines are whole blocks and which does not wrap around memory.\<close>

definition raw_ok :: "raw_info \<Rightarrow> bool" where
  "raw_ok info \<longleftrightarrow> 0 < raw_width info \<and> raw_width info mod 8 = 0 \<and> 0 \<le> raw_height info
     \<and> raw_pitch info = raw_width info div 8 * 14 \<and> frame_size info = raw_height info * raw_pitch info
     \<and> frame_size info \<le> 2 ^ 32"

definition in_frame :: "raw_info \<Rightarrow> int \<Rightarrow> int \<Rightarrow> bool" where
  "in_frame info x y \<longleftrightarrow> 0 \<le> x \<and> x < raw_width info \<and> 0 \<le> y \<and> y < raw_height info"

text \<open>Two lines of 16 pixels, for witnesses.\<close>

definition sample_raw :: raw_info where
  "sample_raw = set_geometry_info 16 2 0 0 0 0 \<lparr>raw_buffer = 0x1000, raw_height = 0, raw_width = 0, raw_pitch = 0,
     frame_size = 0, bits_per_pixel = 14, jpeg_x = 0, jpeg_y = 0, jpeg_width = 0, jpeg_height = 0,
     active_y1 = 0, active_x1 = 0, active_y2 = 0, active_x2 = 0\<rparr>"

text \<open>The field of the lower bits of a pixel, their number, and the field of the upper bits.\<close>

definition pixel_fields :: "int \<Rightarrow> pix_field \<times> nat \<times> pix_field" where
  "pixel_fields r = (if r = 1 then (F_b_lo, 12, F_b_hi) else if r = 2 then (F_c_lo, 10, F_c_hi)
     else if r = 3 then (F_d_lo, 8, F_d_hi) else if r = 4 then (F_e_lo, 6, F_e_hi)
     else if r = 5 then (F_f_lo, 4, F_f_hi) else (F_g_lo, 2, F_g_hi))"

definition pixel_block :: "raw_info \<Rightarrow> int \<Rightarrow> int \<Rightarrow> nat" where
  "pixel_block info x y = nat (y * (raw_width info div 8) + x div 8)"

section \<open>Fields\<close>

lemma field_pos_bounds: "field_pos f = (k, lo, w) \<Longrightarrow> k < 7 \<and> lo + w \<le> 16"
  by (cases f) auto

lemma field_pos_disjoint:
  assumes "f \<noteq> f'" "field_pos f = (k, lo, w)" "field_pos f' = (k, lo', w')"
  shows "lo + w \<le> lo' \<or> lo' + w' \<le> lo"
  using assms by (cases f; cases f') auto

lemma unit_addr: "q + of_nat (14 * b) + of_nat (2 * k) = (q :: u32) + of_nat (2 * (7 * b + k))"
  by simp

lemma rd16_wr16_unit:
  assumes "u < 2 ^ 31" "u' < 2 ^ 31" "u \<noteq> u'"
  shows "rd16 (wr16 m (q + of_nat (2 * u)) v) (q + of_nat (2 * u')) = rd16 m (q + of_nat (2 * u'))"
proof (rule rd16_cong)
  fix k :: nat assume "k < 2"
  then have "2 * u' + k < 2 * u \<or> 2 * u + 2 \<le> 2 * u' + k" using assms(3) by linarith
  moreover have "2 * u' + k < 2 ^ 32" "2 * u + 2 \<le> 2 ^ 32" using assms(1,2) \<open>k < 2\<close> by simp_all
  ultimately show "wr16 m (q + of_nat (2 * u)) v (q + of_nat (2 * u' + k)) = m (q + of_nat (2 * u' + k))"
    by (intro wr16_off)
qed

lemma bit_get_field:
  "field_pos f = (k, lo, w) \<Longrightarrow> bit (get_field m p f) n \<longleftrightarrow> n < w \<and> bit (rd16 m (p + of_nat (2 * k))) (lo + n)"
  by (auto simp: get_field_def bit_simps)

lemma bit_insert_field:
  assumes "lo + w \<le> 16"
  shows "bit (((x :: u16) AND NOT (push_bit lo (mask w))) OR push_bit lo (take_bit w v)) i \<longleftrightarrow>
    (if lo \<le> i \<and> i < lo + w then bit v (i - lo) else bit x i)"
proof (cases "i < 16")
  case True
  then show ?thesis using assms by (auto simp: bit_simps)
next
  case False
  then have "\<not> bit y i" for y :: u16 by (auto dest: bit_imp_le_length)
  then show ?thesis using assms False by auto
qed

lemma get_set_field:
  assumes "7 * b + 7 \<le> 2 ^ 31" "7 * b' + 7 \<le> 2 ^ 31" "field_pos f = (k, lo, w)"
  shows "get_field (set_field m (q + of_nat (14 * b)) f v) (q + of_nat (14 * b')) f' =
    (if b = b' \<and> f = f' then take_bit w v else get_field m (q + of_nat (14 * b')) f')"
proof (rule bit_word_eqI)
  fix n assume n: "n < LENGTH(16)"
  obtain k' lo' w' where f': "field_pos f' = (k', lo', w')" by (cases "field_pos f'") auto
  note bd = field_pos_bounds [OF assms(3)] field_pos_bounds [OF f']
  let ?u = "7 * b + k" and ?u' = "7 * b' + k'"
  let ?N = "(rd16 m (q + of_nat (2 * ?u)) AND NOT (push_bit lo (mask w))) OR push_bit lo (take_bit w v)"
  have u: "?u < 2 ^ 31" "?u' < 2 ^ 31" using assms(1,2) bd by linarith+
  have s: "set_field m (q + of_nat (14 * b)) f v = wr16 m (q + of_nat (2 * ?u)) ?N"
    by (simp only: set_field_def assms(3) Let_def prod.case unit_addr)
  have g: "bit (get_field m' (q + of_nat (14 * b')) f') n \<longleftrightarrow> n < w' \<and> bit (rd16 m' (q + of_nat (2 * ?u'))) (lo' + n)" for m'
    unfolding bit_get_field [OF f'] unit_addr ..
  show "bit (get_field (set_field m (q + of_nat (14 * b)) f v) (q + of_nat (14 * b')) f') n =
      bit (if b = b' \<and> f = f' then take_bit w v else get_field m (q + of_nat (14 * b')) f') n"
  proof (cases "?u = ?u'")
    case False
    then have ne: "\<not> (b = b' \<and> f = f')" using assms(3) f' by auto
    have "rd16 (wr16 m (q + of_nat (2 * ?u)) ?N) (q + of_nat (2 * ?u')) = rd16 m (q + of_nat (2 * ?u'))"
      using u False by (rule rd16_wr16_unit)
    then show ?thesis unfolding s if_not_P [OF ne] g by (simp only:)
  next
    case True
    have "b = b'" using bd arg_cong [OF True, of "\<lambda>i. i div 7"] by simp
    moreover from this have "k = k'" using True by simp
    ultimately have e: "b = b'" "k = k'" by blast+
    have r: "bit (get_field (set_field m (q + of_nat (14 * b)) f v) (q + of_nat (14 * b')) f') n \<longleftrightarrow> n < w' \<and> bit ?N (lo' + n)"
      unfolding g s True [symmetric] rd16_wr16 ..
    show ?thesis
    proof (cases "f = f'")
      case True
      then have "lo' = lo" "w' = w" using assms(3) f' by simp_all
      then show ?thesis unfolding r bit_insert_field [OF conjunct2 [OF bd(1)]] using True e(1) by (auto simp: bit_take_bit_iff)
    next
      case False
      then have "lo + w \<le> lo' \<or> lo' + w' \<le> lo" using field_pos_disjoint [OF False assms(3)] f' e(2) by blast
      then show ?thesis unfolding r bit_insert_field [OF conjunct2 [OF bd(1)]] using False g [of m] True by auto
    qed
  qed
qed

lemma split_join:
  assumes "n + k = 14"
  shows "uint ((take_bit n (word_of_int v) :: u16) OR push_bit n (take_bit k (word_of_int (drop_bit n v)))) = take_bit 14 v"
proof (rule bit_eqI)
  fix i
  show "bit (uint ((take_bit n (word_of_int v) :: u16) OR push_bit n (take_bit k (word_of_int (drop_bit n v))))) i = bit (take_bit 14 v) i"
    using assms by (cases "i < n") (auto simp: bit_simps)
qed

lemma single_join: "uint (take_bit 14 (word_of_int v) :: u16) = take_bit 14 v"
  by (rule bit_eqI) (auto simp: bit_simps)

section \<open>Pixels of a block\<close>

lemma pix_cases: "0 \<le> (r :: int) \<Longrightarrow> r < 8 \<Longrightarrow> r = 0 \<or> r = 7 \<or> r \<in> {1..6}"
  by auto

lemma pixblock_split:
  assumes "r \<in> {1..6}" "pixel_fields r = (lo, n, hi)"
  shows "pixblock_get m p r = uint (get_field m p lo OR push_bit n (get_field m p hi))"
    and "pixblock_set m p r v = set_split m p lo hi n v"
    and "\<exists>k l. field_pos lo = (k, l, n)" and "\<exists>k. field_pos hi = (k, 0, 14 - n)" and "n \<le> 14"
    and "lo \<noteq> hi" "lo \<noteq> F_a" "lo \<noteq> F_h" "hi \<noteq> F_a" "hi \<noteq> F_h"
proof -
  have "r = 1 \<or> r = 2 \<or> r = 3 \<or> r = 4 \<or> r = 5 \<or> r = 6" using assms(1) by auto
  then show "pixblock_get m p r = uint (get_field m p lo OR push_bit n (get_field m p hi))"
    and "pixblock_set m p r v = set_split m p lo hi n v"
    and "\<exists>k l. field_pos lo = (k, l, n)" and "\<exists>k. field_pos hi = (k, 0, 14 - n)" and "n \<le> 14"
    and "lo \<noteq> hi" "lo \<noteq> F_a" "lo \<noteq> F_h" "hi \<noteq> F_a" "hi \<noteq> F_h"
    using assms(2) by (auto simp: pixel_fields_def pixblock_get_def pixblock_set_def Let_def)
qed

lemma pixel_fields_inj:
  assumes "r \<in> {1..6}" "r' \<in> {1..6}" "r \<noteq> r'" "pixel_fields r = (lo, n, hi)" "pixel_fields r' = (lo', n', hi')"
  shows "lo \<noteq> lo'" "lo \<noteq> hi'" "hi \<noteq> lo'" "hi \<noteq> hi'"
proof -
  have "r = 1 \<or> r = 2 \<or> r = 3 \<or> r = 4 \<or> r = 5 \<or> r = 6" "r' = 1 \<or> r' = 2 \<or> r' = 3 \<or> r' = 4 \<or> r' = 5 \<or> r' = 6"
    using assms(1,2) by auto
  then show "lo \<noteq> lo'" "lo \<noteq> hi'" "hi \<noteq> lo'" "hi \<noteq> hi'" using assms(3-5) by (auto simp: pixel_fields_def)
qed

lemma pixblock_ends:
  "pixblock_get m p 0 = uint (get_field m p F_a)" "pixblock_get m p 7 = uint (get_field m p F_h)"
  "pixblock_set m p 0 v = set_field m p F_a (word_of_int v)" "pixblock_set m p 7 v = set_field m p F_h (word_of_int v)"
  by (simp_all add: pixblock_get_def pixblock_set_def Let_def)

lemma get_set_split:
  assumes "7 * b + 7 \<le> 2 ^ 31" "7 * b' + 7 \<le> 2 ^ 31" "r \<in> {1..6}" "pixel_fields r = (lo, n, hi)"
  shows "get_field (set_split m (q + of_nat (14 * b)) lo hi n v) (q + of_nat (14 * b')) f =
    (if b = b' \<and> f = lo then take_bit n (word_of_int v)
     else if b = b' \<and> f = hi then take_bit (14 - n) (word_of_int (drop_bit n v))
     else get_field m (q + of_nat (14 * b')) f)"
proof -
  obtain k l k' where lo: "field_pos lo = (k, l, n)" and hi: "field_pos hi = (k', 0, 14 - n)"
    using pixblock_split(3,4) [OF assms(3,4)] by blast
  show ?thesis unfolding set_split_def get_set_field [OF assms(1,2) hi] get_set_field [OF assms(1,2) lo]
    using pixblock_split(6) [OF assms(3,4)] by auto
qed

lemma end_fields: "field_pos F_a = (0, 2, 14)" "field_pos F_h = (6, 0, 14)"
  by simp_all

lemma pixblock_get_set:
  assumes "7 * b + 7 \<le> 2 ^ 31" "7 * b' + 7 \<le> 2 ^ 31" "0 \<le> r" "r < 8" "0 \<le> r'" "r' < 8"
  shows "pixblock_get (pixblock_set m (q + of_nat (14 * b)) r v) (q + of_nat (14 * b')) r' =
    (if b = b' \<and> r = r' then take_bit 14 v else pixblock_get m (q + of_nat (14 * b')) r')"
proof -
  let ?p = "q + of_nat (14 * b)" and ?p' = "q + of_nat (14 * b')"
  note fs = get_set_field [OF assms(1,2)]
  obtain lo n hi where f: "pixel_fields r = (lo, n, hi)" by (cases "pixel_fields r") auto
  obtain lo' n' hi' where f': "pixel_fields r' = (lo', n', hi')" by (cases "pixel_fields r'") auto
  consider "r = 0" | "r = 7" | "r \<in> {1..6}" using pix_cases [OF assms(3,4)] by blast
  then show ?thesis
  proof cases
    case 1
    consider "r' = 0" | "r' = 7" | "r' \<in> {1..6}" using pix_cases [OF assms(5,6)] by blast
    then show ?thesis
    proof cases
      case 3
      note s = pixblock_split [OF 3 f']
      show ?thesis using 1 3 s(7,9) unfolding s(1) by (simp only: pixblock_ends fs [OF end_fields(1)]) auto
    qed (use 1 in \<open>simp_all only: pixblock_ends fs [OF end_fields(1)], simp_all add: single_join\<close>)
  next
    case 2
    consider "r' = 0" | "r' = 7" | "r' \<in> {1..6}" using pix_cases [OF assms(5,6)] by blast
    then show ?thesis
    proof cases
      case 3
      note s = pixblock_split [OF 3 f']
      show ?thesis using 2 3 s(8,10) unfolding s(1) by (simp only: pixblock_ends fs [OF end_fields(2)]) auto
    qed (use 2 in \<open>simp_all only: pixblock_ends fs [OF end_fields(2)], simp_all add: single_join\<close>)
  next
    case r: 3
    note s = pixblock_split [OF r f] and gs = get_set_split [OF assms(1,2) r f]
    consider "r' = 0" | "r' = 7" | "r' \<in> {1..6}" using pix_cases [OF assms(5,6)] by blast
    then show ?thesis
    proof cases
      case 1
      then show ?thesis using r s(7,9) unfolding s(2) by (simp only: pixblock_ends gs) auto
    next
      case 2
      then show ?thesis using r s(8,10) unfolding s(2) by (simp only: pixblock_ends gs) auto
    next
      case 3
      note s' = pixblock_split [OF 3 f']
      show ?thesis
      proof (cases "r = r'")
        case True
        then have e: "lo' = lo" "n' = n" "hi' = hi" using f f' by simp_all
        show ?thesis unfolding s(2) s'(1) gs e using s(5,6) True split_join [of n "14 - n" v] by auto
      next
        case False
        show ?thesis unfolding s(2) s'(1) gs using pixel_fields_inj [OF r 3 False f f'] False by auto
      qed
    qed
  qed
qed

section \<open>The frame\<close>

lemma column_block:
  assumes "raw_ok info" "in_frame info x y"
  shows "0 < raw_width info div 8" "0 \<le> x div 8" "x div 8 < raw_width info div 8"
proof -
  have w: "0 < raw_width info" "raw_width info mod 8 = 0" "0 \<le> x" "x < raw_width info"
    using assms by (simp_all add: raw_ok_def in_frame_def)
  have e: "8 * (raw_width info div 8) = raw_width info" using mult_div_mod_eq [of 8 "raw_width info"] w(2) by linarith
  show "0 \<le> x div 8" using w(3) by simp
  have "8 * (x div 8) \<le> x" using mult_div_mod_eq [of 8 x] pos_mod_sign [of 8 x] by linarith
  then show "0 < raw_width info div 8" "x div 8 < raw_width info div 8" using e w by linarith+
qed

lemma pixel_block_bounds:
  assumes "raw_ok info" "in_frame info x y"
  shows "int (pixel_block info x y) = y * (raw_width info div 8) + x div 8"
    and "14 * int (pixel_block info x y) + 14 \<le> frame_size info"
    and "7 * pixel_block info x y + 7 \<le> 2 ^ 31"
proof -
  let ?W = "raw_width info div 8"
  note W = column_block(1) [OF assms] and xd = column_block(2,3) [OF assms]
  have y: "0 \<le> y" "y < raw_height info" using assms(2) by (simp_all add: in_frame_def)
  have "0 \<le> y * ?W" using y(1) W by simp
  with xd show b: "int (pixel_block info x y) = y * ?W + x div 8" by (simp add: pixel_block_def)
  have "y * ?W + ?W \<le> raw_height info * ?W" using y(2) W mult_right_mono [of "y + 1" "raw_height info" ?W] by (simp add: algebra_simps)
  then have "14 * int (pixel_block info x y) + 14 \<le> raw_height info * (?W * 14)" using b xd by linarith
  then show fs: "14 * int (pixel_block info x y) + 14 \<le> frame_size info" using assms(1) by (simp add: raw_ok_def)
  have "frame_size info \<le> 2 ^ 32" using assms(1) unfolding raw_ok_def by blast
  with fs have "14 * int (pixel_block info x y) + 14 \<le> 2 ^ 32" by (rule order_trans)
  then show "7 * pixel_block info x y + 7 \<le> 2 ^ 31" by simp
qed

lemma pixel_addr:
  assumes "raw_ok info" "in_frame info x y"
  shows "word_of_int (y * raw_pitch info + c_div x 8 * 14) = (of_nat (14 * pixel_block info x y) :: u32)"
    and "c_rem x 8 = x mod 8"
proof -
  have x: "0 \<le> x" using assms(2) by (simp add: in_frame_def)
  have "y * raw_pitch info + c_div x 8 * 14 = int (14 * pixel_block info x y)"
    using assms(1) x pixel_block_bounds(1) [OF assms] by (simp add: raw_ok_def c_div_nonneg algebra_simps)
  then show "word_of_int (y * raw_pitch info + c_div x 8 * 14) = (of_nat (14 * pixel_block info x y) :: u32)"
    by (simp only: of_int_of_nat_eq)
  show "c_rem x 8 = x mod 8" using x by (simp add: c_rem_nonneg)
qed

lemma pixel_block_inj:
  assumes "raw_ok info" "in_frame info x y" "in_frame info x' y'"
  shows "pixel_block info x y = pixel_block info x' y' \<and> x mod 8 = x' mod 8 \<longleftrightarrow> x' = x \<and> y' = y"
proof
  let ?W = "raw_width info div 8"
  assume a: "pixel_block info x y = pixel_block info x' y' \<and> x mod 8 = x' mod 8"
  note W = column_block(1) [OF assms(1,2)]
  note xd = column_block(2,3) [OF assms(1,2)] column_block(2,3) [OF assms(1,3)]
  have e: "y * ?W + x div 8 = y' * ?W + x' div 8"
    using a pixel_block_bounds(1) [OF assms(1,2)] pixel_block_bounds(1) [OF assms(1,3)] by simp
  have q: "(c * ?W + d) div ?W = c" if "0 \<le> d" "d < ?W" for c d
    using that by (intro int_div_pos_eq) (simp_all add: mult.commute)
  from q [OF xd(1,2), of y] q [OF xd(3,4), of y'] have y: "y = y'" unfolding e by (rule trans [OF sym])
  with e have "x div 8 = x' div 8" by (simp only: add_left_cancel)
  then have "x' = x" using a mult_div_mod_eq [of 8 x] mult_div_mod_eq [of 8 x'] by linarith
  with y show "x' = x \<and> y' = y" by blast
qed blast

text \<open>
  C18: The raw buffer is an array of 14-bit pixels: a pixel that was written reads back as the low 14
  bits of the value, and no other pixel of the frame changes.
\<close>

theorem raw_pixel_array:
  assumes "raw_ok info" "in_frame info x y" "in_frame info x' y'"
  shows "raw_get_pixel info (raw_set_pixel info m x y v) x' y' =
    (if x' = x \<and> y' = y then v mod 2 ^ 14 else raw_get_pixel info m x' y')"
proof -
  note b = pixel_block_bounds(3) [OF assms(1)] and a = pixel_addr [OF assms(1)]
  have r: "0 \<le> x mod 8" "x mod 8 < 8" "0 \<le> x' mod 8" "x' mod 8 < 8" by simp_all
  show ?thesis
    unfolding raw_get_pixel_def raw_set_pixel_def a [OF assms(2)] a [OF assms(3)]
      pixblock_get_set [OF b [OF assms(2)] b [OF assms(3)] r]
    using pixel_block_inj [OF assms] by (simp add: take_bit_eq_mod)
qed

lemma set_field_outside:
  assumes "field_pos f = (k, lo, w)" "14 * b + 14 \<le> d" "d < 2 ^ 32"
  shows "set_field m (q + of_nat (14 * b)) f v (q + of_nat d) = m (q + of_nat d)"
proof -
  have k: "k < 7" using field_pos_bounds [OF assms(1)] by simp
  have s: "set_field m (q + of_nat (14 * b)) f v = wr16 m (q + of_nat (2 * (7 * b + k)))
      ((rd16 m (q + of_nat (2 * (7 * b + k))) AND NOT (push_bit lo (mask w))) OR push_bit lo (take_bit w v))"
    by (simp only: set_field_def assms(1) Let_def prod.case unit_addr)
  have u: "2 * (7 * b + k) + 2 \<le> 14 * b + 14" using k by simp
  show ?thesis unfolding s
  proof (rule wr16_off)
    show "2 * (7 * b + k) + 2 \<le> 2 ^ 32" using u assms(2,3) by (meson le_trans less_imp_le)
    show "d < 2 * (7 * b + k) \<or> 2 * (7 * b + k) + 2 \<le> d" using u assms(2) by (meson le_trans)
  qed (rule assms(3))
qed

lemma pixblock_set_outside:
  assumes "14 * b + 14 \<le> d" "d < 2 ^ 32"
  shows "pixblock_set m (q + of_nat (14 * b)) r v (q + of_nat d) = m (q + of_nat d)"
proof -
  have f: "set_field m (q + of_nat (14 * b)) f v (q + of_nat d) = m (q + of_nat d)" for m f v
    using set_field_outside [OF _ assms] by (cases "field_pos f") blast
  show ?thesis unfolding pixblock_set_def set_split_def by (simp add: f del: of_nat_mult)
qed

text \<open>
  C30: Writing a pixel of the frame changes no byte outside the frame's bytes in memory.
\<close>

theorem raw_set_pixel_in_bounds:
  assumes "raw_ok info" "in_frame info x y" "frame_size info \<le> int d" "d < 2 ^ 32"
  shows "raw_set_pixel info m x y v (raw_buffer info + of_nat d) = m (raw_buffer info + of_nat d)"
proof -
  have "14 * pixel_block info x y + 14 \<le> d" using pixel_block_bounds(2) [OF assms(1,2)] assms(3) by linarith
  then show ?thesis unfolding raw_set_pixel_def pixel_addr [OF assms(1,2)] using assms(4) by (rule pixblock_set_outside)
qed

theorem raw_set_pixel_in_bounds_witness:
  "raw_set_pixel sample_raw (\<lambda>_. 0) 9 1 77 (0x1000 + of_nat 56) = 0"
  using raw_set_pixel_in_bounds [of sample_raw 9 1 56 "\<lambda>_. 0" 77]
  by (simp add: raw_ok_def in_frame_def sample_raw_def set_geometry_info_def c_div_nonneg Let_def)

theorem raw_pixel_array_witness:
  "raw_get_pixel sample_raw (raw_set_pixel sample_raw (\<lambda>_. 0) 9 1 0x5123) 9 1 = 0x1123"
  using raw_pixel_array [of sample_raw 9 1 9 1 "\<lambda>_. 0" "0x5123"]
  by (simp add: raw_ok_def in_frame_def sample_raw_def set_geometry_info_def c_div_nonneg Let_def)

section \<open>The layout of a block\<close>

lemma block_word_unfold:
  "block_word m p = (let u = (\<lambda>k. ucast (rd16 m (p + of_nat (2 * k)))) in
     push_bit 96 (u 0) OR push_bit 80 (u 1) OR push_bit 64 (u 2) OR push_bit 48 (u 3) OR push_bit 32 (u 4) OR push_bit 16 (u 5) OR u 6)"
proof -
  have "[0..<7] = [0, 1, 2, 3, 4, 5, 6 :: nat]" by (simp add: upt_rec)
  then show ?thesis unfolding block_word_def Let_def
    by (simp only: fold_simps) (rule bit_word_eqI, auto simp: bit_simps)
qed

lemma bit_block_word:
  assumes "k < 7" "j < 16"
  shows "bit (block_word m p) (16 * (6 - k) + j) \<longleftrightarrow> bit (rd16 m (p + of_nat (2 * k))) j"
proof -
  have ge: "\<not> bit (w :: u16) n" if "16 \<le> n" for w n using that by (auto dest: bit_imp_le_length)
  have "k = 0 \<or> k = 1 \<or> k = 2 \<or> k = 3 \<or> k = 4 \<or> k = 5 \<or> k = 6" using assms(1) by arith
  then show ?thesis using assms(2) unfolding block_word_unfold Let_def
    by (elim disjE) (simp_all add: bit_simps ge)
qed

lemma pixel_stream_pos:
  assumes "r \<in> {1..6}" "pixel_fields r = (lo, n, hi)" "field_pos lo = (k, l, n)" "field_pos hi = (k', 0, w)"
  shows "98 - 14 * nat r = 16 * (6 - k) + l" and "98 - 14 * nat r + n = 16 * (6 - k')"
proof -
  have "r = 1 \<or> r = 2 \<or> r = 3 \<or> r = 4 \<or> r = 5 \<or> r = 6" using assms(1) by auto
  then show "98 - 14 * nat r = 16 * (6 - k) + l" and "98 - 14 * nat r + n = 16 * (6 - k')"
    using assms(2-4) by (auto simp: pixel_fields_def)
qed

lemma bit_stream_field:
  assumes "field_pos f = (k, lo, w)" "i = 16 * (6 - k) + lo" "n < w"
  shows "bit (get_field m p f) n \<longleftrightarrow> bit (block_word m p) (i + n)"
  using assms(3) bit_get_field [OF assms(1), of m p n] bit_block_word [of k "lo + n" m p] field_pos_bounds [OF assms(1)]
  unfolding assms(2) by (simp add: add.assoc)

lemma bit_block_pixel: "k < 8 \<Longrightarrow> bit (block_pixel w k) n \<longleftrightarrow> n < 14 \<and> bit w (98 - 14 * k + n)"
  by (auto simp: block_pixel_def bit_simps)

lemma end_field_pixel:
  assumes "field_pos f = (k, lo, 14)" "98 - 14 * j = 16 * (6 - k) + lo" "j < 8"
  shows "uint (get_field m p f) = block_pixel (block_word m p) j"
proof (rule bit_eqI)
  fix n
  show "bit (uint (get_field m p f)) n = bit (block_pixel (block_word m p) j) n"
    using bit_stream_field [OF assms(1) refl, of n m p] bit_get_field [OF assms(1), of m p n]
    unfolding bit_block_pixel [OF assms(3)] assms(2) by (auto simp: bit_uint_iff dest: bit_imp_le_length)
qed

lemma pixblock_get_stream:
  assumes "0 \<le> r" "r < 8"
  shows "pixblock_get m p r = block_pixel (block_word m p) (nat r)"
proof -
  consider "r = 0" | "r = 7" | "r \<in> {1..6}" using pix_cases [OF assms] by blast
  then show ?thesis
  proof cases
    case 1
    then show ?thesis using end_field_pixel [of F_a 0 2 0 m p] by (simp add: pixblock_ends)
  next
    case 2
    then show ?thesis using end_field_pixel [of F_h 6 0 7 m p] by (simp add: pixblock_ends)
  next
    case 3
    obtain lo n hi where f: "pixel_fields r = (lo, n, hi)" by (cases "pixel_fields r") auto
    note s = pixblock_split [OF 3 f]
    obtain k l where lo: "field_pos lo = (k, l, n)" using s(3) by blast
    obtain k' where hi: "field_pos hi = (k', 0, 14 - n)" using s(4) by blast
    note pos = pixel_stream_pos [OF 3 f lo hi]
    have j: "nat r < 8" using assms by simp
    show ?thesis unfolding s(1)
    proof (rule bit_eqI)
      fix i
      have "bit (get_field m p lo OR push_bit n (get_field m p hi)) i \<longleftrightarrow> i < 14 \<and> bit (block_word m p) (98 - 14 * nat r + i)"
      proof (cases "i < n")
        case True
        then show ?thesis using bit_stream_field [OF lo pos(1) True, of m p] s(5) by (simp add: bit_or_iff bit_push_bit_iff)
      next
        case False
        have "bit (get_field m p hi) (i - n) \<longleftrightarrow> i < 14 \<and> bit (block_word m p) (98 - 14 * nat r + i)"
        proof (cases "i < 14")
          case True
          have i: "98 - 14 * nat r + n + (i - n) = 98 - 14 * nat r + i" using False by linarith
          show ?thesis using bit_stream_field [OF hi _ , of "98 - 14 * nat r + n" "i - n" m p] pos(2) True False
            unfolding i by simp
        next
          case f: False
          then have "\<not> i - n < 14 - n" by linarith
          then show ?thesis using f bit_get_field [OF hi, of m p "i - n"] by blast
        qed
        moreover have "\<not> bit (get_field m p lo) i" using False bit_get_field [OF lo, of m p i] by simp
        moreover have "bit (get_field m p hi) (i - n) \<Longrightarrow> i < 16"
          using bit_get_field [OF hi, of m p "i - n"] by auto
        ultimately show ?thesis using False by (auto simp: bit_or_iff bit_push_bit_iff)
      qed
      then show "bit (uint (get_field m p lo OR push_bit n (get_field m p hi))) i = bit (block_pixel (block_word m p) (nat r)) i"
        unfolding bit_block_pixel [OF j] by (simp add: bit_uint_iff) (auto dest: bit_imp_le_length)
    qed
  qed
qed

text \<open>
  C24: The pixels lie in memory as the comment in \<^verbatim>\<open>raw.h\<close> draws them: read as one number, the seven
  16-bit units of a block are eight 14-bit pixels one after the other.
\<close>

theorem raw_get_pixel_layout:
  assumes "raw_ok info" "in_frame info x y"
  shows "raw_get_pixel info m x y =
    block_pixel (block_word m (raw_buffer info + of_nat (14 * nat (y * (raw_width info div 8) + x div 8)))) (nat (x mod 8))"
  unfolding raw_get_pixel_def pixel_addr [OF assms] pixel_block_def by (rule pixblock_get_stream) simp_all

theorem raw_get_pixel_layout_witness:
  "raw_get_pixel sample_raw ucast 9 1 = block_pixel (block_word ucast (0x1000 + of_nat 42)) 1"
  using raw_get_pixel_layout [of sample_raw 9 1 ucast]
  by (simp add: raw_ok_def in_frame_def sample_raw_def set_geometry_info_def c_div_nonneg Let_def)

section \<open>Colour channels\<close>

lemma pixel_number:
  assumes "in_frame info x y" "raw_width info * raw_height info < 2 ^ 31"
  shows "block_index info x y = c_div (y * raw_width info + x) 8"
proof -
  have xy: "0 \<le> x" "x < raw_width info" "0 \<le> y" "y + 1 \<le> raw_height info" using assms(1) by (simp_all add: in_frame_def)
  have "(y + 1) * raw_width info \<le> raw_height info * raw_width info" using xy by (intro mult_right_mono) simp_all
  then have "y * raw_width info + raw_width info < 2 ^ 31" using assms(2) by (simp add: algebra_simps)
  moreover have "0 \<le> y * raw_width info" using xy by simp
  ultimately have "s32 (y * raw_width info) = y * raw_width info" "s32 (y * raw_width info + x) = y * raw_width info + x"
    using xy by (intro s32_id; linarith)+
  then show ?thesis by (simp add: block_index_def)
qed

lemma block_addr:
  assumes "raw_ok info" "in_frame info x y" "raw_width info * raw_height info < 2 ^ 31"
  shows "block_at info (block_index info x y) = raw_buffer info + of_nat (14 * pixel_block info x y)"
proof -
  have W: "8 * (raw_width info div 8) = raw_width info"
    using assms(1) mult_div_mod_eq [of 8 "raw_width info"] by (simp add: raw_ok_def)
  have n: "0 \<le> y * raw_width info + x" using assms by (simp add: raw_ok_def in_frame_def)
  have "y * raw_width info + x = y * (8 * (raw_width info div 8)) + x" by (simp only: W)
  also have "\<dots> = x + 8 * (y * (raw_width info div 8))" by simp
  finally have e: "(y * raw_width info + x) div 8 = x div 8 + y * (raw_width info div 8)" by (simp only: div_mult_self2 zero_neq_numeral [symmetric] simp_thms)
  have "block_index info x y = int (pixel_block info x y)"
    unfolding pixel_number [OF assms(2,3)] pixel_block_bounds(1) [OF assms(1,2)] c_div_nonneg [OF n zero_less_numeral] e by (rule add.commute)
  then show ?thesis by (simp add: block_at_def)
qed

lemma block_end_pixels:
  assumes "raw_ok info" "in_frame info x y" "raw_width info * raw_height info < 2 ^ 31"
  shows "uint (get_field m (block_at info (block_index info x y)) F_a) = raw_get_pixel info m (x - x mod 8) y"
    and "uint (get_field m (block_at info (block_index info x y)) F_h) = raw_get_pixel info m (x - x mod 8 + 7) y"
proof -
  have W: "8 * (raw_width info div 8) = raw_width info"
    using assms(1) mult_div_mod_eq [of 8 "raw_width info"] by (simp add: raw_ok_def)
  have c: "x - x mod 8 = 8 * (x div 8)" by (simp add: minus_mod_eq_mult_div)
  have f: "in_frame info (x - x mod 8) y" "in_frame info (x - x mod 8 + 7) y"
    using assms(2) column_block [OF assms(1,2)] W unfolding c in_frame_def by auto
  have "pixel_block info (x - x mod 8) y = pixel_block info x y" "pixel_block info (x - x mod 8 + 7) y = pixel_block info x y"
    unfolding pixel_block_def c by simp_all
  moreover have "(x - x mod 8) mod 8 = 0" "(x - x mod 8 + 7) mod 8 = 7" unfolding c by simp_all
  ultimately show "uint (get_field m (block_at info (block_index info x y)) F_a) = raw_get_pixel info m (x - x mod 8) y"
    and "uint (get_field m (block_at info (block_index info x y)) F_h) = raw_get_pixel info m (x - x mod 8 + 7) y"
    unfolding raw_get_pixel_def pixel_addr [OF assms(1) f(1)] pixel_addr [OF assms(1) f(2)] block_addr [OF assms]
    by (simp_all add: pixblock_ends)
qed

lemma even_line:
  assumes "in_frame info x y"
  shows "c_div y 2 * 2 = y - y mod 2" "in_frame info x (y - y mod 2)" "2 \<le> y \<Longrightarrow> in_frame info x (y - y mod 2 - 1)"
proof -
  have y: "0 \<le> y" using assms by (simp add: in_frame_def)
  have m: "0 \<le> y mod 2" "y mod 2 < 2" "y mod 2 \<le> y" using y by (simp_all add: zmod_le_nonneg_dividend)
  show "c_div y 2 * 2 = y - y mod 2" using y by (simp add: c_div_nonneg minus_mod_eq_div_mult)
  show "in_frame info x (y - y mod 2)" using assms m unfolding in_frame_def by linarith
  show "in_frame info x (y - y mod 2 - 1)" if "2 \<le> y" using assms m that unfolding in_frame_def by linarith
qed

text \<open>
  The line before the buffer: the index is rounded towards zero, so the last seven columns give the
  first block of the buffer and the others a block before it.
\<close>

lemma raw_blue_pixel_first_lines:
  assumes "raw_ok info" "in_frame info x y" "raw_width info * raw_height info < 2 ^ 31" "y < 2"
  shows "raw_blue_pixel info m x y
    = uint (get_field m (raw_buffer info - of_nat (14 * nat ((raw_width info - x) div 8))) F_h)"
proof -
  have y: "c_div y 2 * 2 = 0" using assms(2,4) by (simp add: in_frame_def c_div_nonneg)
  have x: "0 \<le> x" "x < raw_width info" "1 \<le> raw_height info" using assms(2) by (simp_all add: in_frame_def)
  have "raw_width info * 1 \<le> raw_width info * raw_height info" using x by (intro mult_left_mono) simp_all
  then have w: "raw_width info < 2 ^ 31" using assms(3) by simp
  have d: "0 \<le> (raw_width info - x) div 8" using x by simp
  have "block_index info x (- 1) = - ((raw_width info - x) div 8)"
    using x w by (simp add: block_index_def s32_id c_div_neg)
  then have b: "block_at info (block_index info x (- 1)) = raw_buffer info - of_nat (14 * nat ((raw_width info - x) div 8))"
    using d by (simp add: block_at_def)
  have "raw_blue_pixel info m x y = uint (get_field m (block_at info (block_index info x (- 1))) F_h)"
    using y by (simp add: raw_blue_pixel_def Let_def)
  then show ?thesis unfolding b .
qed

text \<open>
  C25: In the Bayer pattern of the header the channel functions return a red pixel (even column, even
  line), a green pixel (odd column, even line) and, from the third line on, a blue pixel (odd column,
  odd line) of the block. For the first two lines the blue channel is read outside its line: as many
  blocks before the start of the buffer as there are whole blocks from the column to the end of the line.
\<close>

theorem raw_channels_bayer:
  assumes "raw_ok info" "in_frame info x y" "raw_width info * raw_height info < 2 ^ 31"
  shows "raw_red_pixel info m x y = raw_get_pixel info m (x - x mod 8) (y - y mod 2)
    \<and> raw_green_pixel info m x y = raw_get_pixel info m (x - x mod 8 + 7) (y - y mod 2)
    \<and> (2 \<le> y \<longrightarrow> raw_blue_pixel info m x y = raw_get_pixel info m (x - x mod 8 + 7) (y - y mod 2 - 1))
    \<and> (y < 2 \<longrightarrow> raw_blue_pixel info m x y
         = uint (get_field m (raw_buffer info - of_nat (14 * nat ((raw_width info - x) div 8))) F_h))
    \<and> even (x - x mod 8) \<and> odd (x - x mod 8 + 7) \<and> even (y - y mod 2) \<and> odd (y - y mod 2 - 1)"
proof -
  note e = even_line [OF assms(2)] and b = block_end_pixels [OF assms(1) _ assms(3)]
  have p: "even (x - x mod 8)" "even (y - y mod 2)" by (simp_all add: minus_mod_eq_mult_div)
  have "raw_red_pixel info m x y = raw_get_pixel info m (x - x mod 8) (y - y mod 2)"
    and "raw_green_pixel info m x y = raw_get_pixel info m (x - x mod 8 + 7) (y - y mod 2)"
    and "2 \<le> y \<longrightarrow> raw_blue_pixel info m x y = raw_get_pixel info m (x - x mod 8 + 7) (y - y mod 2 - 1)"
    unfolding raw_red_pixel_def raw_green_pixel_def raw_blue_pixel_def Let_def e(1)
    using b [OF e(2)] b(2) [OF e(3)] by simp_all
  then show ?thesis using p raw_blue_pixel_first_lines [OF assms] by simp
qed

theorem raw_channels_bayer_witness:
  "raw_red_pixel sample_raw ucast 9 1 = raw_get_pixel sample_raw ucast 8 0
    \<and> raw_blue_pixel sample_raw ucast 1 1 = uint (get_field ucast (0x1000 - of_nat 14) F_h)"
  using raw_channels_bayer [of sample_raw 9 1 ucast] raw_channels_bayer [of sample_raw 1 1 ucast]
  by (simp add: raw_ok_def in_frame_def sample_raw_def set_geometry_info_def c_div_nonneg Let_def)

section \<open>Projections\<close>

text \<open>
  The median projection always returns the red channel: its tests ask whether a value lies between the
  least and the greatest of the three, which holds for each of them.
\<close>

theorem raw_median_is_red:
  "raw_get_gray_pixel info m x y GRAY_PROJECTION_MEDIAN_RGB = raw_get_gray_pixel info m x y GRAY_PROJECTION_RED"
proof -
  have "gray_median r g b = r" for r g b by (simp add: gray_median_def c_MAX_def c_MIN_def Let_def)
  then show ?thesis
    by (simp add: raw_get_gray_pixel_def gray_channels_def GRAY_PROJECTION_MEDIAN_RGB_def GRAY_PROJECTION_RED_def
        GRAY_PROJECTION_GREEN_def GRAY_PROJECTION_BLUE_def GRAY_PROJECTION_AVERAGE_RGB_def GRAY_PROJECTION_MAX_RGB_def
        GRAY_PROJECTION_MAX_RB_def GRAY_PROJECTION_BRIGHT_DARK_MASK_def GRAY_PROJECTION_DARK_ONLY_def Let_def)
qed

end
