(* ===== verification/ML_Menu.thy ===== *)
theory ML_Menu
  imports ML_Config ML_Math
begin

text \<open>
  Editing numbers in the menu, the part of \<^verbatim>\<open>src/src/menu.c\<close> that computes the new value of an
  entry when its user presses left or right, and the composition with the configuration variables
  (\<open>set_config_var_ptr\<close>). The functions compute on integers. Where sums and products of values and
  increments can leave the type \<^verbatim>\<open>int\<close> this is the error \<open>Signed_overflow\<close>; the search for preferred
  numbers is the exception, it is modelled without limits. A loop that does not end is
  \<open>None\<close>, a division by zero is the error \<open>Division_by_zero\<close>. Rounding to powers of 2 uses
  floating point and is an argument. Drawing and navigation of the menu are not modelled.
\<close>

section \<open>Preferred numbers\<close>

text \<open>The loop \<^verbatim>\<open>while (val >= lim) { val /= 10; mag *= 10; }\<close>, with \<open>lim\<close> 30 or 60.\<close>

function shrink :: "int \<Rightarrow> int \<Rightarrow> int \<Rightarrow> int \<times> int" where
  "shrink lim val mag = (if 0 < lim \<and> val \<ge> lim then shrink lim (c_div val 10) (mag * 10) else (val, mag))"
  by pat_completeness auto
termination
  by (relation "measure (\<lambda>(lim, val, mag). nat val)") (auto simp: c_div_nonneg)

declare shrink.simps [simp del]

definition step_125 :: "int \<Rightarrow> int" where
  "step_125 val = (if val \<le> 2 then val else if val \<le> 3 then 2 else if val \<le> 7 then 5
     else if val \<le> 14 then 10 else 20)"

definition step_R10 :: "int \<Rightarrow> int" where
  "step_R10 val = (if val \<le> 6 then val else if val \<le> 8 then 8 else if val \<le> 11 then 10 else if val \<le> 13 then 12
     else if val \<le> 17 then 15 else if val \<le> 22 then 20 else if val \<le> 27 then 25 else 30)"

definition step_R20 :: "int \<Rightarrow> int" where
  "step_R20 val = (if val \<le> 12 then val else if val \<le> 14 then 14 else if val \<le> 16 then 15 else if val \<le> 19 then 18
     else if val \<le> 21 then 20 else if val \<le> 23 then 22 else if val \<le> 26 then 25 else if val \<le> 29 then 28
     else if val \<le> 32 then 30 else if val \<le> 37 then 35 else if val \<le> 42 then 40 else if val \<le> 47 then 45
     else if val \<le> 52 then 50 else if val \<le> 57 then 55 else 60)"

definition round_to :: "int \<Rightarrow> (int \<Rightarrow> int) \<Rightarrow> int \<Rightarrow> int" where
  "round_to lim step val =
     (let round = (\<lambda>val. let (val, mag) = shrink lim val 1 in step val * mag)
      in if val < 0 then - round (- val) else round val)"

definition round_to_125 :: "int \<Rightarrow> int" where
  "round_to_125 val = round_to 30 step_125 val"

definition round_to_R10 :: "int \<Rightarrow> int" where
  "round_to_R10 val = round_to 30 step_R10 val"

definition round_to_R20 :: "int \<Rightarrow> int" where
  "round_to_R20 val = round_to 60 step_R20 val"

section \<open>Toggling a value\<close>

text \<open>Each function returns the value that the code passes to \<^verbatim>\<open>set_config_var_ptr\<close>.\<close>

partial_function (option) leave_step :: "(int \<Rightarrow> int) \<Rightarrow> int \<Rightarrow> int \<Rightarrow> int \<Rightarrow> int option" where
  "leave_step round_func v0 delta v =
     (if v0 = round_func v then leave_step round_func v0 delta (v + delta) else Some v)"

definition menu_numeric_toggle_rounded :: "int \<Rightarrow> int \<Rightarrow> int \<Rightarrow> int \<Rightarrow> (int \<Rightarrow> int) \<Rightarrow> int option" where
  "menu_numeric_toggle_rounded v delta lo hi round_func =
     (if v \<ge> hi \<and> delta > 0 then Some lo
      else if v \<le> lo \<and> delta < 0 then Some hi
      else
        (let v0 = round_func v
         in if v0 \<noteq> v \<and> c_SGN (v0 - v) = c_SGN delta then Some v0
            else map_option (\<lambda>v. COERCE (round_func v) lo hi) (leave_step round_func v0 delta v)))"

definition long_range_unit :: "int \<Rightarrow> int" where
  "long_range_unit a = (if a \<ge> 20000 then 1000 else if a \<ge> 10000 then 500 else if a \<ge> 2000 then 100
     else if a \<ge> 1000 then 50 else if a \<ge> 200 then 10 else if a \<ge> 100 then 5 else 1)"

partial_function (option) long_range_loop :: "int \<Rightarrow> int \<Rightarrow> int \<Rightarrow> int \<Rightarrow> int \<Rightarrow> int option" where
  "long_range_loop M lo hi delta v =
     (if c_rem v M = 0 then Some v
      else if v \<ge> hi then Some v
      else if v \<le> lo then Some v
      else long_range_loop M lo hi delta (v + delta))"

definition menu_numeric_toggle_long_range :: "int \<Rightarrow> int \<Rightarrow> int \<Rightarrow> int \<Rightarrow> int option" where
  "menu_numeric_toggle_long_range v delta lo hi =
     (if v \<ge> hi \<and> delta > 0 then Some lo
      else if v \<le> lo \<and> delta < 0 then Some hi
      else long_range_loop (long_range_unit (c_ABS (v + delta))) lo hi delta (v + delta))"

datatype menu_error = Division_by_zero | Endless_loop | Caret_out_of_range | Signed_overflow

definition menu_numeric_toggle :: "int \<Rightarrow> int \<Rightarrow> int \<Rightarrow> int \<Rightarrow> menu_error + int" where
  "menu_numeric_toggle old_val delta mn mx =
     (if delta = 0 then Inl Division_by_zero
      else if \<not> fits_int (old_val + delta) then Inl Signed_overflow
      else
        (let new_val = old_val + delta;
             new_val = (if new_val < mn then mx else if new_val > mx then mn else new_val);
             a = c_ABS old_val; d = c_ABS delta; n = c_ABS new_val;
             lo = c_MOD a d;
             hi = c_div n d
         in if \<not> list_all fits_int [a, d, n, c_rem a d + d, hi * d + lo] then Inl Signed_overflow
            else
              (let new_val = (hi * d + lo) * c_SGN new_val
               in if \<not> (new_val < mn \<or> new_val > mx) then Inr new_val
                  else if fits_int (new_val + delta) then Inr (new_val + delta)
                  else Inl Signed_overflow)))"

definition menu_numeric_toggle_hex :: "u32 \<Rightarrow> int \<Rightarrow> u32 \<Rightarrow> u32 \<Rightarrow> menu_error + u32" where
  "menu_numeric_toggle_hex val delta mn mx =
     (if delta = 0 then Inl Division_by_zero
      else
        (let old_val = uint val; new_val = old_val + delta; adelta = c_ABS delta;
             new_val = (if new_val < uint mn then uint mx else if new_val > uint mx then uint mn else new_val);
             new_val = new_val + (c_rem old_val adelta - c_rem new_val adelta);
             new_val = (if new_val < uint mn \<or> new_val > uint mx then new_val + delta else new_val)
         in Inr (word_of_int new_val)))"

definition time_deltas :: "int list" where
  "time_deltas = [1, 5, 15, 30, 60, 300, 900, 1800, 3600]"

text \<open>
  The scan from the last increment down; the first one is taken without a test.
\<close>

definition time_delta :: "int \<Rightarrow> int \<Rightarrow> int" where
  "time_delta v delta =
     (case find (\<lambda>d. d * 4 \<le> (if delta < 0 then v - 1 else v)) (rev (tl time_deltas)) of
        Some d \<Rightarrow> d | None \<Rightarrow> hd time_deltas)"

definition menu_numeric_toggle_time :: "int \<Rightarrow> int \<Rightarrow> int \<Rightarrow> int \<Rightarrow> menu_error + int" where
  "menu_numeric_toggle_time val delta mn mx =
     (let step = delta * time_delta val delta
      in if delta < 0 \<and> \<not> fits_int (val - 1) \<or> \<not> fits_int step \<or> \<not> fits_int (val + step) then Inl Signed_overflow
         else if step = 0 then Inl Division_by_zero
         else if \<not> fits_int (c_div (val + step) step) then Inl Signed_overflow
         else
           (let new_val = c_div (val + step) step * step;
                new_val = (if new_val > mx then mn else new_val);
                new_val = (if new_val < mn then mx else new_val)
            in Inr new_val))"

section \<open>Menu entries\<close>

datatype menu_unit = UNIT_1_8_EV | UNIT_x10 | UNIT_PERCENT | UNIT_PERCENT_x10 | UNIT_ISO | UNIT_HEX
  | UNIT_DEC | UNIT_TIME | UNIT_TIME_MS | UNIT_TIME_US | UNIT_NONE

record menu_entry =
  priv :: u32
  entry_min :: int
  entry_max :: int
  has_select :: bool
  entry_mode :: u8
  entry_unit :: menu_unit

text \<open>
  \<open>caret_editing\<close> is \<^verbatim>\<open>EDIT_OR_TRANSPARENT\<close>; \<open>prev_t\<close> and \<open>prev_delta\<close> are the static variables
  of \<^verbatim>\<open>menu_numeric_toggle_fast\<close>.
\<close>

record menu_state =
  caret_editing :: bool
  caret_position :: int
  prev_t :: int
  prev_delta :: int

definition EM_ROUND_ISO_R10 :: u8 where "EM_ROUND_ISO_R10 = 0x10"
definition EM_ROUND_ISO_R20 :: u8 where "EM_ROUND_ISO_R20 = 0x20"
definition EM_ROUND_1_2_5_10 :: u8 where "EM_ROUND_1_2_5_10 = 0x40"
definition EM_ROUND_POWER_OF_2 :: u8 where "EM_ROUND_POWER_OF_2 = 0x80"

definition no_end :: "int option \<Rightarrow> menu_error + int" where
  "no_end r = (case r of None \<Rightarrow> Inl Endless_loop | Some v \<Rightarrow> Inr v)"

text \<open>
  The branches of \<^verbatim>\<open>menu_numeric_toggle_fast\<close>; the flag \<open>fast\<close> is its test of the clock, whose
  differences wrap around.
\<close>

definition fast_value :: "(int \<Rightarrow> int) \<Rightarrow> bool \<Rightarrow> int \<Rightarrow> int \<Rightarrow> int \<Rightarrow> int \<Rightarrow> menu_unit \<Rightarrow> u8 \<Rightarrow> menu_error + int" where
  "fast_value round_to_pow2 fast val delta mn mx u mode =
     (if u = UNIT_TIME then menu_numeric_toggle_time val delta mn mx
      else if mode AND EM_ROUND_ISO_R10 \<noteq> 0 then no_end (menu_numeric_toggle_rounded val delta mn mx round_to_R10)
      else if mode AND EM_ROUND_ISO_R20 \<noteq> 0 then no_end (menu_numeric_toggle_rounded val delta mn mx round_to_R20)
      else if mode AND EM_ROUND_1_2_5_10 \<noteq> 0 then no_end (menu_numeric_toggle_rounded val delta mn mx round_to_125)
      else if mode AND EM_ROUND_POWER_OF_2 \<noteq> 0 then no_end (menu_numeric_toggle_rounded val delta mn mx round_to_pow2)
      else if \<not> fits_int (mx - mn) then Inl Signed_overflow
      else if mx - mn > 20 then
        (if fast then no_end (menu_numeric_toggle_rounded val delta mn mx round_to_R20)
         else no_end (menu_numeric_toggle_long_range val delta mn mx))
      else if \<not> fits_int (val - mn) \<or> \<not> fits_int (val - mn + delta) then Inl Signed_overflow
      else if mx - mn + 1 = 0 then Inl Division_by_zero
      else Inr (c_MOD (val - mn + delta) (mx - mn + 1) + mn))"

definition menu_numeric_toggle_fast ::
  "(int \<Rightarrow> int) \<Rightarrow> int \<Rightarrow> int \<Rightarrow> int \<Rightarrow> int \<Rightarrow> int \<Rightarrow> menu_unit \<Rightarrow> u8 \<Rightarrow> bool \<Rightarrow> menu_state \<Rightarrow> (menu_error + int) \<times> menu_state" where
  "menu_numeric_toggle_fast round_to_pow2 t val delta mn mx u mode ignore_timing st =
     (fast_value round_to_pow2 (s32 (t - prev_t st) < 200 \<and> prev_delta st < 200 \<and> \<not> ignore_timing) val delta mn mx u mode,
      st\<lparr>prev_delta := s32 (t - prev_t st), prev_t := t\<rparr>)"

definition caret_increments :: "int list" where
  "caret_increments = [0, 1, 10, 0, 60, 600, 0, 3600, 36000]"

definition get_caret_delta :: "menu_entry \<Rightarrow> int \<Rightarrow> menu_state \<Rightarrow> menu_error + int" where
  "get_caret_delta e sign st =
     (if \<not> caret_editing st then Inr sign
      else case entry_unit e of
          UNIT_DEC \<Rightarrow> Inr (sign * uint (powi_c 10 (word_of_int (caret_position st))))
        | UNIT_TIME_MS \<Rightarrow> Inr (sign * uint (powi_c 10 (word_of_int (caret_position st))))
        | UNIT_TIME_US \<Rightarrow> Inr (sign * uint (powi_c 10 (word_of_int (caret_position st))))
        | UNIT_HEX \<Rightarrow> Inr (sign * uint (powi_c 16 (word_of_int (caret_position st))))
        | UNIT_TIME \<Rightarrow>
            (if 0 \<le> caret_position st \<and> caret_position st < int (length caret_increments)
             then Inr (sign * caret_increments ! nat (caret_position st)) else Inl Caret_out_of_range)
        | _ \<Rightarrow> Inr sign)"

definition uses_caret_editing :: "menu_entry \<Rightarrow> bool" where
  "uses_caret_editing e \<longleftrightarrow> \<not> has_select e \<and> entry_unit e \<in> {UNIT_DEC, UNIT_HEX, UNIT_TIME, UNIT_TIME_MS, UNIT_TIME_US}"

definition editing_with_caret :: "menu_entry \<Rightarrow> menu_state \<Rightarrow> bool" where
  "editing_with_caret e st \<longleftrightarrow> caret_editing st \<and> uses_caret_editing e"

definition caret_max :: "menu_entry \<Rightarrow> int" where
  "caret_max e =
     (if entry_unit e = UNIT_TIME then 7
      else if entry_unit e = UNIT_HEX then uint (log2i (word_of_int (entry_max e)) div 4)
      else uint (log10i (word_of_int (c_MAX (c_ABS (entry_max e)) (c_ABS (entry_min e))))))"

definition caret_move :: "menu_entry \<Rightarrow> int \<Rightarrow> menu_state \<Rightarrow> menu_state" where
  "caret_move e delta st =
     (let p = c_MOD (caret_position st + delta) (caret_max e + 1);
          p = (if entry_unit e = UNIT_TIME \<and> (p = 0 \<or> p = 3 \<or> p = 6) then c_MOD (p + delta) (caret_max e + 1) else p)
      in st\<lparr>caret_position := p\<rparr>)"

text \<open>
  The increment and decrement branches of \<^verbatim>\<open>menu_entry_select\<close>, with \<open>sign\<close> 1 or -1: first the part for an
  entry whose \<^verbatim>\<open>priv\<close> points to an integer, where \<open>t\<close> is the clock, \<open>vars\<close> and \<open>mods\<close> are the registered configuration variables. An argument of
  type \<^verbatim>\<open>int\<close> takes the low 32 bits of the increment.
\<close>

definition toggle_priv ::
  "(int \<Rightarrow> int) \<Rightarrow> int \<Rightarrow> config_var list \<Rightarrow> config_var list list \<Rightarrow> menu_entry \<Rightarrow> int \<Rightarrow> menu_state \<times> ints
    \<Rightarrow> menu_error + menu_state \<times> ints" where
  "toggle_priv round_to_pow2 t vars mods e sign s =
     (let (st, m) = s; val = m (priv e);
          (new_val, st') =
            (if entry_unit e = UNIT_HEX then
               (case get_caret_delta e sign st of
                  Inl err \<Rightarrow> Inl err
                | Inr delta \<Rightarrow> menu_numeric_toggle_hex val delta (word_of_int (entry_min e)) (word_of_int (entry_max e)), st)
             else if editing_with_caret e st then
               (case get_caret_delta e sign st of
                  Inl err \<Rightarrow> Inl err
                | Inr delta \<Rightarrow> map_sum id word_of_int (menu_numeric_toggle (sint val) (s32 delta) (entry_min e) (entry_max e)), st)
             else
               (let (r, st') = menu_numeric_toggle_fast round_to_pow2 t (sint val) sign (entry_min e) (entry_max e)
                      (entry_unit e) (entry_mode e) False st
                in (map_sum id word_of_int r, st')))
      in case new_val of Inl err \<Rightarrow> Inl err
         | Inr v \<Rightarrow> Inr (st', snd (set_config_var_ptr vars mods (priv e) v m)))"

text \<open>The custom select function of an entry is an argument.\<close>

definition IS_ML_PTR :: "u32 \<Rightarrow> bool" where
  "IS_ML_PTR val \<longleftrightarrow> val > 0x1000 \<and> val < 0x20000000"

definition entry_toggle ::
  "(u32 \<Rightarrow> int \<Rightarrow> menu_state \<times> ints \<Rightarrow> menu_state \<times> ints) \<Rightarrow> (int \<Rightarrow> int) \<Rightarrow> int \<Rightarrow> config_var list \<Rightarrow> config_var list list
    \<Rightarrow> menu_entry \<Rightarrow> int \<Rightarrow> menu_state \<times> ints \<Rightarrow> menu_error + menu_state \<times> ints" where
  "entry_toggle select round_to_pow2 t vars mods e sign s =
     (if has_select e then Inr (select (priv e) sign s)
      else if IS_ML_PTR (priv e) then toggle_priv round_to_pow2 t vars mods e sign s
      else Inr s)"

definition caret_ok :: "menu_entry \<Rightarrow> menu_state \<Rightarrow> bool" where
  "caret_ok e st \<longleftrightarrow> 0 \<le> caret_position st \<and> caret_position st \<le> caret_max e
     \<and> (entry_unit e = UNIT_TIME \<longrightarrow> caret_position st \<notin> {0, 3, 6})"

definition entry_ok :: "menu_entry \<Rightarrow> ints \<Rightarrow> bool" where
  "entry_ok e m \<longleftrightarrow> \<not> has_select e \<and> 0 \<le> entry_min e \<and> entry_max e < 2 ^ 30
     \<and> entry_min e \<le> sint (m (priv e)) \<and> sint (m (priv e)) \<le> entry_max e"

section \<open>Keeping the lower digits\<close>

lemma cong_step: "(a :: int) mod D = b mod D \<Longrightarrow> 0 < D \<Longrightarrow> b - D < a \<Longrightarrow> b \<le> a"
proof -
  assume a: "a mod D = b mod D" "0 < D" "b - D < a"
  then obtain k where k: "a - b = D * k" by (metis mod_eq_dvd_iff dvdE)
  have "- 1 < k"
  proof (rule ccontr)
    assume "\<not> - 1 < k"
    then have "D * k \<le> D * (- 1)" using a(2) by (intro mult_left_mono) auto
    then show False using a(3) k by simp
  qed
  then have "0 \<le> D * k" using a(2) by simp
  then show "b \<le> a" using k by linarith
qed

text \<open>The value after wrapping, with the lower digits of the old value, and one more step if needed.\<close>

lemma digits_in_range:
  fixes old :: int
  assumes D: "D = \<bar>delta\<bar>" "delta \<noteq> 0" and old: "mn \<le> old" "old \<le> mx"
    and new: "new = (if old + delta < mn then mx else if old + delta > mx then mn else old + delta)"
    and cand: "cand = new + (old mod D - new mod D)"
    and res: "res = (if cand < mn \<or> cand > mx then cand + delta else cand)"
  shows "mn \<le> res \<and> res \<le> mx \<and> res mod D = old mod D"
proof -
  have D0: "0 < D" using D by linarith
  have "cand = old mod D + D * (new div D)" using cand mult_div_mod_eq [of D new] by linarith
  then have c: "cand mod D = old mod D" by simp
  have b: "new - D < cand" "cand < new + D"
    using pos_mod_bound [OF D0, of old] pos_mod_sign [OF D0, of old] pos_mod_bound [OF D0, of new] pos_mod_sign [OF D0, of new]
    unfolding cand by linarith+
  have sh: "(x + delta) mod D = x mod D" for x
  proof (cases "delta < 0")
    case True
    then have "x + delta = x - D" using D by linarith
    then show ?thesis by simp
  qed (use D in simp)
  have cs: "(cand + delta) mod D = old mod D" unfolding sh c ..
  consider "old + delta < mn" | "old + delta > mx" | "mn \<le> old + delta" "old + delta \<le> mx" by linarith
  then show ?thesis
  proof cases
    case 1
    have d: "delta = - D" using 1 old D by linarith
    have n: "new = mx" using new 1 by simp
    have lo: "old \<le> cand" using cong_step [OF c D0] b old n by linarith
    have "cand > mx \<Longrightarrow> old + D \<le> cand"
      using cong_step [of cand D "old + D"] c D0 old by simp
    then show ?thesis using lo c cs b n d old res by auto
  next
    case 2
    have d: "delta = D" using 2 old D by linarith
    have n: "new = mn" using new 2 old by simp
    have hi: "cand \<le> old" using cong_step [OF c [symmetric] D0] b old n by linarith
    have "cand < mn \<Longrightarrow> cand \<le> old - D"
      using cong_step [of "old - D" D cand] c D0 old by (simp add: mod_simps)
    then show ?thesis using hi c cs b n d old res by auto
  next
    case 3
    have "new = old + delta" using new 3 by simp
    then have "cand = old + delta" using cand sh [of old] by simp
    then show ?thesis using 3 c res by auto
  qed
qed

text \<open>The wrapped value and the sum of its upper and the old lower digits.\<close>

lemma wrapped_digits:
  assumes "0 \<le> mn" "mn \<le> old" "old \<le> mx" "delta \<noteq> 0" "mx + \<bar>delta\<bar> < 2 ^ 31"
    and "new = (if old + delta < mn then mx else if old + delta > mx then mn else old + delta)"
  shows "mn \<le> new" "new \<le> mx" "0 \<le> new"
    and "c_div (c_ABS new) (c_ABS delta) * c_ABS delta + c_MOD (c_ABS old) (c_ABS delta) = new + (old mod \<bar>delta\<bar> - new mod \<bar>delta\<bar>)"
    and "list_all fits_int [c_ABS old, c_ABS delta, c_ABS new, c_rem (c_ABS old) (c_ABS delta) + c_ABS delta,
      c_div (c_ABS new) (c_ABS delta) * c_ABS delta + c_MOD (c_ABS old) (c_ABS delta)]"
proof -
  let ?D = "\<bar>delta\<bar>"
  show new: "mn \<le> new" "new \<le> mx" "0 \<le> new" using assms by (auto split: if_splits)
  have D: "0 < ?D" using assms(4) by simp
  have m: "0 \<le> old mod ?D" "old mod ?D < ?D" "0 \<le> new mod ?D" "old mod ?D \<le> old" "new mod ?D \<le> new"
    using D new assms by (simp_all add: zmod_le_nonneg_dividend)
  have "new div ?D * ?D = new - new mod ?D" by (simp add: minus_mod_eq_div_mult)
  then show e: "c_div (c_ABS new) (c_ABS delta) * c_ABS delta + c_MOD (c_ABS old) (c_ABS delta) = new + (old mod ?D - new mod ?D)"
    using new assms by (simp add: c_ABS_abs c_MOD_eq c_div_nonneg)
  have "fits_int old" "fits_int ?D" "fits_int new" "fits_int (old mod ?D + ?D)" "fits_int (new + (old mod ?D - new mod ?D))"
    using m D new assms unfolding fits_int_def by linarith+
  then show "list_all fits_int [c_ABS old, c_ABS delta, c_ABS new, c_rem (c_ABS old) (c_ABS delta) + c_ABS delta,
      c_div (c_ABS new) (c_ABS delta) * c_ABS delta + c_MOD (c_ABS old) (c_ABS delta)]"
    unfolding e using new assms by (simp add: c_ABS_abs c_rem_nonneg)
qed

lemma menu_numeric_toggle_range:
  assumes "0 \<le> mn" "mn \<le> old" "old \<le> mx" "delta \<noteq> 0" "mx + \<bar>delta\<bar> < 2 ^ 31"
  shows "\<exists>v. menu_numeric_toggle old delta mn mx = Inr v \<and> mn \<le> v \<and> v \<le> mx \<and> (v = 0 \<or> v mod \<bar>delta\<bar> = old mod \<bar>delta\<bar>)"
proof -
  let ?D = "\<bar>delta\<bar>"
  define new where "new = (if old + delta < mn then mx else if old + delta > mx then mn else old + delta)"
  define cand where "cand = new + (old mod ?D - new mod ?D)"
  note w = wrapped_digits [OF assms new_def]
  have o: "fits_int (old + delta)" using assms unfolding fits_int_def by linarith
  have t: "menu_numeric_toggle old delta mn mx = (let v = cand * c_SGN new in
      if \<not> (v < mn \<or> v > mx) then Inr v else if fits_int (v + delta) then Inr (v + delta) else Inl Signed_overflow)"
    using assms(4) o w(4,5) unfolding menu_numeric_toggle_def Let_def new_def [symmetric] cand_def by simp
  show ?thesis
  proof (cases "new = 0")
    case True
    then show ?thesis using t w by (simp add: c_SGN_def)
  next
    case False
    note d = digits_in_range [OF refl assms(4) assms(2,3) new_def cand_def refl]
    have "cand * c_SGN new = cand" using False w(3) by (simp add: c_SGN_def)
    moreover have "fits_int (cand + delta)" if "cand < mn \<or> cand > mx" using that d assms unfolding fits_int_def by auto
    ultimately show ?thesis using t d by (auto simp: Let_def)
  qed
qed

text \<open>
  Editing a decimal number digit by digit keeps it in a range of non-negative numbers, for every
  increment that does not overflow, and keeps the digits below the increment, except that wrapping around to 0 clears them.
\<close>

theorem menu_numeric_toggle_in_range:
  assumes "0 \<le> mn" "mn \<le> old" "old \<le> mx" "delta \<noteq> 0" "mx + \<bar>delta\<bar> < 2 ^ 31"
  shows "\<exists>v. menu_numeric_toggle old delta mn mx = Inr v \<and> mn \<le> v \<and> v \<le> mx \<and> (v = 0 \<or> v mod \<bar>delta\<bar> = old mod \<bar>delta\<bar>)"
  using assms by (rule menu_numeric_toggle_range)

theorem menu_numeric_toggle_in_range_witness: "\<exists>v. menu_numeric_toggle 25 (- 10) 25 150 = Inr v \<and> 25 \<le> v \<and> v \<le> 150"
  using menu_numeric_toggle_in_range [of 25 25 150 "- 10"] by auto

text \<open>The two exceptions: a range with negative numbers is left, and a wrap around to 0 clears the lower digits.\<close>

lemma menu_numeric_toggle_leaves_range: "menu_numeric_toggle (- 80) 100 (- 90) 50 = Inr 180"
  by (simp add: menu_numeric_toggle_def fits_int_def c_ABS_def c_SGN_def c_MOD_eq c_div_nonneg c_rem_nonneg)

lemma menu_numeric_toggle_clears_digits: "menu_numeric_toggle 95 10 0 99 = Inr 0"
  by (simp add: menu_numeric_toggle_def fits_int_def c_ABS_def c_SGN_def c_MOD_eq c_div_nonneg c_rem_nonneg)

lemma menu_numeric_toggle_hex_range:
  assumes "mn \<le> val" "val \<le> mx" "delta \<noteq> 0"
  shows "\<exists>v. menu_numeric_toggle_hex val delta mn mx = Inr v \<and> mn \<le> v \<and> v \<le> mx \<and> uint v mod \<bar>delta\<bar> = uint val mod \<bar>delta\<bar>"
proof -
  let ?D = "\<bar>delta\<bar>"
  define new where "new = (if uint val + delta < uint mn then uint mx else if uint val + delta > uint mx then uint mn else uint val + delta)"
  define cand where "cand = new + (uint val mod ?D - new mod ?D)"
  define res where "res = (if cand < uint mn \<or> cand > uint mx then cand + delta else cand)"
  have r: "uint mn \<le> uint val" "uint val \<le> uint mx" using assms(1,2) by (simp_all add: word_le_def)
  have u: "0 \<le> uint mn" "0 \<le> uint mx" by simp_all
  then have n: "0 \<le> new" unfolding new_def by (auto simp: not_less intro: order_trans)
  have t: "menu_numeric_toggle_hex val delta mn mx = Inr (word_of_int res)"
    using assms(3) n unfolding menu_numeric_toggle_hex_def new_def [symmetric] Let_def res_def cand_def
    by (simp add: c_ABS_abs c_rem_nonneg)
  note d = digits_in_range [OF refl assms(3) r new_def cand_def res_def]
  have "0 \<le> res" using d u(1) by linarith
  moreover have "res < 2 ^ 32" using d uint_lt2p [of mx] by simp
  ultimately have w: "uint (word_of_int res :: u32) = res" by (simp add: uint_word_of_int_eq take_bit_int_eq_self)
  show ?thesis using d t w by (simp add: word_le_def)
qed

text \<open>
  Editing a hexadecimal number keeps it in its range and always keeps the digits below the increment.
\<close>

theorem menu_numeric_toggle_hex_in_range:
  assumes "mn \<le> val" "val \<le> mx" "delta \<noteq> 0"
  shows "\<exists>v. menu_numeric_toggle_hex val delta mn mx = Inr v \<and> mn \<le> v \<and> v \<le> mx \<and> uint v mod \<bar>delta\<bar> = uint val mod \<bar>delta\<bar>"
  using assms by (rule menu_numeric_toggle_hex_range)

theorem menu_numeric_toggle_hex_in_range_witness: "\<exists>v. menu_numeric_toggle_hex 0xF5 0x10 0 0xFF = Inr v \<and> uint v mod 0x10 = 5"
  using menu_numeric_toggle_hex_in_range [of 0 "0xF5" "0xFF" "0x10"] by (auto simp: word_le_def)

section \<open>Rounded steps\<close>







text \<open>The second case leaves the range of an entry whose limit is not in the series.\<close>

lemma menu_rounded_leaves_range: "menu_numeric_toggle_rounded 58 1 0 59 round_to_R20 = Some 60"
  by (simp add: menu_numeric_toggle_rounded_def round_to_R20_def round_to_def step_R20_def shrink.simps [of 60 58 1] c_SGN_def)

section \<open>Long ranges\<close>

lemma long_range_loop_returns:
  assumes "delta = 1 \<or> delta = - 1" "lo \<le> v" "v \<le> hi"
  shows "\<exists>r. long_range_loop M lo hi delta v = Some r \<and> lo \<le> r \<and> r \<le> hi \<and> (c_rem r M = 0 \<or> r = lo \<or> r = hi)"
  using assms(2,3)
proof (induction "nat (if delta = 1 then hi - v else v - lo)" arbitrary: v rule: less_induct)
  case less
  show ?case
  proof (cases "c_rem v M = 0 \<or> v \<ge> hi \<or> v \<le> lo")
    case True
    then show ?thesis using less(2,3) by (subst long_range_loop.simps) auto
  next
    case False
    then have "nat (if delta = 1 then hi - (v + delta) else v + delta - lo) < nat (if delta = 1 then hi - v else v - lo)"
      "lo \<le> v + delta" "v + delta \<le> hi" using assms(1) by auto
    from less(1) [OF this] show ?thesis using False by (subst long_range_loop.simps) simp
  qed
qed

lemma long_range_in_range:
  assumes "delta = 1 \<or> delta = - 1" "lo \<le> v" "v \<le> hi"
  shows "\<exists>r. menu_numeric_toggle_long_range v delta lo hi = Some r \<and> lo \<le> r \<and> r \<le> hi"
proof (cases "v \<ge> hi \<and> delta > 0 \<or> v \<le> lo \<and> delta < 0")
  case True
  then show ?thesis using assms by (auto simp: menu_numeric_toggle_long_range_def)
next
  case False
  then have "lo \<le> v + delta" "v + delta \<le> hi" using assms by auto
  from long_range_loop_returns [OF assms(1) this] show ?thesis
    using False by (simp add: menu_numeric_toggle_long_range_def) blast
qed

lemma c_div_le: "\<bar>c_div a b\<bar> \<le> \<bar>a\<bar>"
proof (cases "b = 0")
  case False
  then have "0 \<le> \<bar>a\<bar> div \<bar>b\<bar>" "\<bar>a\<bar> div \<bar>b\<bar> \<le> \<bar>a\<bar>" using zdiv_mono2 [of "\<bar>a\<bar>" 1 "\<bar>b\<bar>"] by (simp_all add: pos_imp_zdiv_nonneg_iff)
  moreover have "\<bar>c_div a b\<bar> = \<bar>sgn a\<bar> * (\<bar>sgn b\<bar> * (\<bar>a\<bar> div \<bar>b\<bar>))"
    unfolding c_div_def abs_mult using calculation(1) by simp
  ultimately show ?thesis by (simp add: abs_sgn_eq)
qed (simp add: c_div_def)

lemma time_delta_bounds: "1 \<le> time_delta v delta" "time_delta v delta \<le> 3600"
  by (auto simp: time_delta_def time_deltas_def split: option.splits dest!: find_Some_iff [THEN iffD1])

lemma toggle_time_in_range:
  assumes "delta = 1 \<or> delta = - 1" "0 \<le> v" "v \<le> mx" "mn \<le> mx" "mx < 2 ^ 30"
  shows "\<exists>r. menu_numeric_toggle_time v delta mn mx = Inr r \<and> mn \<le> r \<and> r \<le> mx"
proof -
  let ?s = "delta * time_delta v delta"
  have s: "?s \<noteq> 0" "\<bar>?s\<bar> \<le> 3600" using assms(1) time_delta_bounds [of v delta] by auto
  then have f: "fits_int ?s" "fits_int (v + ?s)" "fits_int (v - 1)" "\<bar>v + ?s\<bar> < 2 ^ 31"
    using assms unfolding fits_int_def by auto
  have "fits_int (c_div (v + ?s) ?s)" using c_div_le [of "v + ?s" ?s] f(4) unfolding fits_int_def by linarith
  then show ?thesis using s f assms(4) by (auto simp: menu_numeric_toggle_time_def Let_def)
qed

lemma mod_toggle_in_range:
  assumes "mn \<le> mx"
  shows "mn \<le> c_MOD x (mx - mn + 1) + mn \<and> c_MOD x (mx - mn + 1) + mn \<le> mx"
  using assms pos_mod_bound [of "mx - mn + 1" x] pos_mod_sign [of "mx - mn + 1" x] by (simp add: c_MOD_eq)

lemma fast_value_in_range:
  assumes "mn \<le> val" "val \<le> mx" "delta = 1 \<or> delta = - 1" "mode AND 0xF0 = 0" "0 \<le> mn" "mx < 2 ^ 30"
  shows "\<exists>r. fast_value p2 False val delta mn mx u mode = Inr r \<and> mn \<le> r \<and> r \<le> mx"
proof -
  have "mode AND EM_ROUND_ISO_R10 = 0" "mode AND EM_ROUND_ISO_R20 = 0" "mode AND EM_ROUND_1_2_5_10 = 0" "mode AND EM_ROUND_POWER_OF_2 = 0"
  proof -
    have k: "mode AND k = 0" if "0xF0 AND k = k" for k
    proof -
      have "mode AND k = (mode AND 0xF0) AND k" using that by (simp add: and.assoc)
      then show ?thesis unfolding assms(4) by simp
    qed
    show "mode AND EM_ROUND_ISO_R10 = 0" "mode AND EM_ROUND_ISO_R20 = 0" "mode AND EM_ROUND_1_2_5_10 = 0" "mode AND EM_ROUND_POWER_OF_2 = 0"
      by (rule k, simp add: EM_ROUND_ISO_R10_def EM_ROUND_ISO_R20_def EM_ROUND_1_2_5_10_def EM_ROUND_POWER_OF_2_def)+
  qed
  moreover have "mn \<le> mx" "delta \<noteq> 0" using assms by auto
  moreover obtain r where "menu_numeric_toggle_long_range val delta mn mx = Some r" "mn \<le> r" "r \<le> mx"
    using long_range_in_range [OF assms(3,1,2)] by blast
  moreover have "fits_int (mx - mn)" "fits_int (val - mn)" "fits_int (val - mn + delta)"
    using assms unfolding fits_int_def by auto
  ultimately show ?thesis
    using toggle_time_in_range [of delta val mx mn] assms mod_toggle_in_range [of mn mx "val - mn + delta"]
    by (auto simp: fast_value_def no_end_def)
qed

section \<open>The caret\<close>

lemma uint_unat: "uint (w :: u32) = int (unat w)"
  by simp

text \<open>
  Moving the caret by one position keeps it on a digit of the number, and in a time field off the
  letters between the digits.
\<close>

theorem caret_move_ok:
  assumes "delta = 1 \<or> delta = - 1"
  shows "caret_ok e (caret_move e delta st)"
proof -
  have m: "0 \<le> caret_max e" by (simp add: caret_max_def)
  have b: "0 \<le> x mod (caret_max e + 1)" "x mod (caret_max e + 1) \<le> caret_max e" for x
    using m pos_mod_bound [of "caret_max e + 1" x] by simp_all
  show ?thesis
  proof (cases "entry_unit e = UNIT_TIME")
    case True
    let ?p = "(caret_position st + delta) mod 8"
    have c: "caret_max e = 7" using True by (simp add: caret_max_def)
    have "?p = 0 \<or> ?p = 1 \<or> ?p = 2 \<or> ?p = 3 \<or> ?p = 4 \<or> ?p = 5 \<or> ?p = 6 \<or> ?p = 7"
      using pos_mod_bound [of 8 "caret_position st + delta"] pos_mod_sign [of 8 "caret_position st + delta"] by linarith
    then show ?thesis using assms True c by (auto simp: caret_ok_def caret_move_def c_MOD_eq Let_def)
  next
    case False
    then show ?thesis using b m by (simp add: caret_ok_def caret_move_def c_MOD_eq Let_def)
  qed
qed

theorem caret_move_ok_witness:
  "caret_ok \<lparr>priv = 0x2000, entry_min = 0, entry_max = 7200, has_select = False, entry_mode = 0, entry_unit = UNIT_TIME\<rparr>
     (caret_move \<lparr>priv = 0x2000, entry_min = 0, entry_max = 7200, has_select = False, entry_mode = 0, entry_unit = UNIT_TIME\<rparr> 1
        \<lparr>caret_editing = True, caret_position = 2, prev_t = 0, prev_delta = 1000\<rparr>)"
  by (rule caret_move_ok) simp

lemma log10i_loop_bound: "\<exists>k. log10i_loop x r = r + of_nat k \<and> (k = 0 \<or> 10 ^ k \<le> unat x)"
proof (induction x r rule: log10i_loop.induct)
  case (1 x r)
  show ?case
  proof (cases "x div 10 = 0")
    case True
    then show ?thesis by (intro exI [of _ 0]) (simp add: log10i_loop.simps [of x r])
  next
    case False
    then obtain k where k: "log10i_loop (x div 10) (r + 1) = r + 1 + of_nat k" "k = 0 \<or> 10 ^ k \<le> unat (x div 10)"
      using 1 [OF refl False] by blast
    have u: "unat (x div 10) = unat x div 10" by (simp add: unat_div_distrib)
    have "0 < unat (x div 10)" using False by (simp only: unat_gt_0 not_False_eq_True)
    then have "10 ^ k \<le> unat x div 10" using k(2) unfolding u by (cases "k = 0") simp_all
    then have "10 ^ Suc k \<le> unat x div 10 * 10" by simp
    also have "\<dots> \<le> unat x" by (rule div_times_less_eq_dividend)
    finally have "10 ^ Suc k \<le> unat x" .
    moreover have "log10i_loop x r = r + of_nat (Suc k)"
      using False k(1) unfolding log10i_loop.simps [of x r] Let_def by simp
    ultimately show ?thesis by blast
  qed
qed

lemma log10i_le: "uint (log10i x) \<le> 9"
proof -
  obtain k where k: "log10i x = of_nat k" "k = 0 \<or> 10 ^ k \<le> unat x"
    using log10i_loop_bound [of x 0] unfolding log10i_def by auto
  have "k \<le> 9"
  proof (rule ccontr)
    assume "\<not> k \<le> 9"
    then have "(10 :: nat) ^ 10 \<le> 10 ^ k" by (intro power_increasing) simp_all
    moreover have "10 ^ k \<le> unat x" using k(2) \<open>\<not> k \<le> 9\<close> by auto
    ultimately have "10 ^ 10 \<le> unat x" by (rule order_trans)
    then show False using unat_less_power32 [of x] by simp
  qed
  then have "unat (of_nat k :: u32) = k" by (intro unat_of_nat32) simp
  then have "unat (log10i x) \<le> 9" unfolding k(1) using \<open>k \<le> 9\<close> by simp
  then show ?thesis unfolding uint_unat by linarith
qed

lemma log2i_div_le: "uint (log2i x div 4) \<le> 7"
proof -
  have "unat (log2i x) < 32"
  proof (cases "x = 0")
    case True
    then show ?thesis by (simp add: log2i_def log2i_loop.simps)
  next
    case False
    then obtain k where k: "log2i x = of_nat k" "2 ^ k \<le> unat x"
      using log2i_loop_bounds [of x 0] unfolding log2i_def by auto
    have "(2 :: nat) ^ k < 2 ^ 32" using k(2) unat_less_power32 [of x] by (rule le_less_trans)
    then have "k < 32" by (rule power_less_imp_less_exp [rotated]) simp
    then have "unat (of_nat k :: u32) = k" by (intro unat_of_nat32) simp
    then show ?thesis unfolding k(1) using \<open>k < 32\<close> by simp
  qed
  then have "unat (log2i x) div 4 \<le> 7" by simp
  then have "unat (log2i x div 4) \<le> 7" by (simp add: unat_div_distrib)
  then show ?thesis unfolding uint_unat by linarith
qed

lemma uint_powi:
  assumes "0 \<le> p" "p \<le> int n" "b ^ n < 2 ^ 32" "1 \<le> b" "n < 32"
  shows "uint (powi_c (of_nat b) (word_of_int p)) = int (b ^ nat p)"
proof -
  have p: "nat p \<le> n" using assms(1,2) by simp
  have u: "unat (word_of_int p :: u32) = nat p"
    using assms(1,2,5) unat_of_nat32 [of "nat p"] by simp
  have "b ^ nat p \<le> b ^ n" using assms(4) p by (intro power_increasing)
  then have "b ^ nat p < 2 ^ 32" using assms(3) by (rule le_less_trans)
  then have "unat (of_nat (b ^ nat p) :: u32) = b ^ nat p" by (rule unat_of_nat32)
  then show ?thesis unfolding powi_c_def powi_loop_eq u uint_unat by simp
qed

lemma caret_delta:
  assumes "caret_ok e st" "sign = 1 \<or> sign = - 1"
  shows "\<exists>d. get_caret_delta e sign st = Inr d \<and> d \<noteq> 0 \<and> \<bar>d\<bar> \<le> 10 ^ 9"
proof -
  have p: "0 \<le> caret_position st" "caret_position st \<le> caret_max e" using assms(1) by (simp_all add: caret_ok_def)
  have fin: "sign * x \<noteq> 0 \<and> \<bar>sign * x\<bar> \<le> 10 ^ 9" if "0 < x" "x \<le> 10 ^ 9" for x
    using assms(2) that by auto
  have dec: "sign * uint (powi_c 10 (word_of_int (caret_position st))) \<noteq> 0
      \<and> \<bar>sign * uint (powi_c 10 (word_of_int (caret_position st)))\<bar> \<le> 10 ^ 9"
    if "caret_max e \<le> 9"
  proof -
    have "uint (powi_c 10 (word_of_int (caret_position st))) = 10 ^ nat (caret_position st)"
      using uint_powi [of "caret_position st" 9 10] p that by simp
    moreover have "(10 :: int) ^ nat (caret_position st) \<le> 10 ^ 9" using p that by (intro power_increasing) simp_all
    ultimately show ?thesis using fin [of "10 ^ nat (caret_position st)"] by simp
  qed
  have hex: "sign * uint (powi_c 16 (word_of_int (caret_position st))) \<noteq> 0
      \<and> \<bar>sign * uint (powi_c 16 (word_of_int (caret_position st)))\<bar> \<le> 10 ^ 9"
    if "caret_max e \<le> 7"
  proof -
    have "uint (powi_c 16 (word_of_int (caret_position st))) = 16 ^ nat (caret_position st)"
      using uint_powi [of "caret_position st" 7 16] p that by simp
    moreover have "(16 :: int) ^ nat (caret_position st) \<le> 16 ^ 7" using p that by (intro power_increasing) simp_all
    ultimately show ?thesis using fin [of "16 ^ nat (caret_position st)"] by simp
  qed
  have one: "sign \<noteq> 0 \<and> \<bar>sign\<bar> \<le> 10 ^ 9" using fin [of 1] by simp
  have time: "0 < caret_increments ! nat (caret_position st)" "caret_increments ! nat (caret_position st) \<le> 10 ^ 9"
    "nat (caret_position st) < 9" if "entry_unit e = UNIT_TIME"
  proof -
    have "caret_position st \<le> 7" "caret_position st \<noteq> 0" "caret_position st \<noteq> 3" "caret_position st \<noteq> 6"
      using assms(1) that by (simp_all add: caret_ok_def caret_max_def)
    then have "caret_position st = 1 \<or> caret_position st = 2 \<or> caret_position st = 4 \<or> caret_position st = 5 \<or> caret_position st = 7"
      using p(1) by linarith
    then show "0 < caret_increments ! nat (caret_position st)" "caret_increments ! nat (caret_position st) \<le> 10 ^ 9"
      "nat (caret_position st) < 9" by (auto simp: caret_increments_def)
  qed
  show ?thesis
  proof (cases "caret_editing st")
    case False
    then show ?thesis using one by (simp add: get_caret_delta_def)
  next
    case True
    show ?thesis
    proof (cases "entry_unit e = UNIT_TIME")
      case t: True
      have "length caret_increments = 9" by (simp add: caret_increments_def)
      then have "get_caret_delta e sign st = Inr (sign * caret_increments ! nat (caret_position st))"
        using True t time(3) [OF t] p(1) by (simp add: get_caret_delta_def)
      then show ?thesis using fin [OF time(1) [OF t] time(2) [OF t]] by blast
    next
      case False
      have "caret_max e \<le> (if entry_unit e = UNIT_HEX then 7 else 9)"
        using False log10i_le log2i_div_le by (simp add: caret_max_def)
      then show ?thesis using True False one dec hex
        by (cases "entry_unit e") (simp_all add: get_caret_delta_def)
    qed
  qed
qed

section \<open>Entries\<close>

lemma sint_small: "0 \<le> v \<Longrightarrow> v < 2 ^ 31 \<Longrightarrow> sint (word_of_int v :: u32) = v"
  by (simp add: signed_of_int signed_take_bit_int_eq_self)

lemma uint_small: "0 \<le> v \<Longrightarrow> v < 2 ^ 31 \<Longrightarrow> uint (word_of_int v :: u32) = v"
  by (simp add: uint_word_of_int_eq take_bit_int_eq_self)

lemma uint_sint: "0 \<le> sint (w :: u32) \<Longrightarrow> uint w = sint w"
  using uint_small [of "sint w"] sint_lt [of w] by simp

lemma word_between:
  assumes "0 \<le> mn" "mx < 2 ^ 31" "mn \<le> mx" "word_of_int mn \<le> (v :: u32)" "v \<le> word_of_int mx"
  shows "mn \<le> sint v" "sint v \<le> mx"
proof -
  have u: "mn \<le> uint v" "uint v \<le> mx"
    using assms(4,5) uint_small [of mn] uint_small [of mx] assms(1-3) by (simp_all add: word_le_def)
  have "sint (word_of_int (uint v) :: u32) = uint v" using u assms by (intro sint_small) simp_all
  then show "mn \<le> sint v" "sint v \<le> mx" using u by simp_all
qed

lemma set_config_var_ptr_value:
  "snd (set_config_var_ptr vars mods p v m) p = v \<or> snd (set_config_var_ptr vars mods p v m) p = m p"
proof -
  have "var_ptr x = p" if "config_var_lookup vars mods p = Some x" for x
    using that by (auto simp: config_var_lookup_def module_config_var_lookup_def find_Some_iff split: option.splits)
  then show ?thesis
    by (auto simp: set_config_var_ptr_def set_config_var_struct_def Let_def split: option.splits)
qed

lemma toggle_priv_in_range:
  assumes "entry_ok e m" "caret_ok e st" "sign = 1 \<or> sign = - 1"
    and "entry_mode e AND 0xF0 = 0" and "200 \<le> s32 (t - prev_t st)"
  shows "\<exists>st' m'. toggle_priv round_to_pow2 t vars mods e sign (st, m) = Inr (st', m') \<and> entry_ok e m' \<and> caret_ok e st'"
proof -
  let ?mn = "entry_min e" and ?mx = "entry_max e" and ?v = "sint (m (priv e))"
  have r: "0 \<le> ?mn" "?mx < 2 ^ 31" "?mn \<le> ?v" "?v \<le> ?mx" and mx: "?mx < 2 ^ 30" using assms(1) by (simp_all add: entry_ok_def)
  have ok: "entry_ok e (snd (set_config_var_ptr vars mods (priv e) w m))" if "?mn \<le> sint w" "sint w \<le> ?mx" for w
    using that assms(1) set_config_var_ptr_value [of vars mods "priv e" w m] by (auto simp: entry_ok_def)
  obtain d where d: "get_caret_delta e sign st = Inr d" "d \<noteq> 0" "\<bar>d\<bar> \<le> 10 ^ 9" using caret_delta [OF assms(2,3)] by blast
  consider "entry_unit e = UNIT_HEX" | "entry_unit e \<noteq> UNIT_HEX" "editing_with_caret e st"
    | "entry_unit e \<noteq> UNIT_HEX" "\<not> editing_with_caret e st" by blast
  then show ?thesis
  proof cases
    case 1
    have "word_of_int ?mn \<le> m (priv e)" "m (priv e) \<le> word_of_int ?mx"
      using r uint_small [of ?mn] uint_small [of ?mx] uint_sint [of "m (priv e)"] by (simp_all add: word_le_def)
    from menu_numeric_toggle_hex_range [OF this d(2)] obtain w
      where w: "menu_numeric_toggle_hex (m (priv e)) d (word_of_int ?mn) (word_of_int ?mx) = Inr w"
        "word_of_int ?mn \<le> w" "w \<le> word_of_int ?mx" by blast
    have "?mn \<le> sint w" "sint w \<le> ?mx" using word_between [OF r(1,2) _ w(2,3)] r by simp_all
    then show ?thesis using ok assms(2) 1 d(1) w(1) by (simp add: toggle_priv_def)
  next
    case 2
    have "?mx + \<bar>d\<bar> < 2 ^ 31" and s: "s32 d = d" using mx d(3) by (auto simp: s32_id)
    from menu_numeric_toggle_range [OF r(1,3,4) d(2) this(1)] obtain x
      where x: "menu_numeric_toggle ?v d ?mn ?mx = Inr x" "?mn \<le> x" "x \<le> ?mx" by blast
    have "sint (word_of_int x :: u32) = x" using x r by (intro sint_small) linarith+
    then show ?thesis using ok [of "word_of_int x"] assms(2) 2 d(1) s x by (simp add: toggle_priv_def)
  next
    case 3
    from fast_value_in_range [OF r(3,4) assms(3,4) r(1) mx, of round_to_pow2 "entry_unit e"] obtain x
      where x: "fast_value round_to_pow2 False ?v sign ?mn ?mx (entry_unit e) (entry_mode e) = Inr x" "?mn \<le> x" "x \<le> ?mx" by blast
    have "sint (word_of_int x :: u32) = x" using x r by (intro sint_small) linarith+
    moreover have "caret_ok e (st\<lparr>prev_delta := s32 (t - prev_t st), prev_t := t\<rparr>)" using assms(2) by (simp add: caret_ok_def)
    ultimately show ?thesis using ok [of "word_of_int x"] assms(5) 3 x
      by (simp add: toggle_priv_def menu_numeric_toggle_fast_def)
  qed
qed

text \<open>
  C19: Pressing left or right on an entry without a select function, with a range of non-negative
  numbers below $2^{30}$ and a value in it, always ends without overflow and leaves a value in the range, whatever the
  unit of the entry, the position of the caret and the configuration callbacks. The entry has no rounding
  mode and the last press was at least 200 ms ago, so that no preferred numbers are involved.
\<close>

theorem entry_toggle_in_range:
  assumes "entry_ok e m" "caret_ok e st" "sign = 1 \<or> sign = - 1"
    and "entry_mode e AND 0xF0 = 0" and "200 \<le> s32 (t - prev_t st)"
  shows "\<exists>st' m'. entry_toggle select round_to_pow2 t vars mods e sign (st, m) = Inr (st', m') \<and> entry_ok e m' \<and> caret_ok e st'"
  using toggle_priv_in_range [OF assms] assms(1,2) by (auto simp: entry_toggle_def entry_ok_def)

theorem entry_toggle_in_range_witness:
  "\<exists>st' m'. entry_toggle (\<lambda>_ _ s. s) id 1000 [] [] \<lparr>priv = 0x2000, entry_min = 0, entry_max = 7200, has_select = False, entry_mode = 0, entry_unit = UNIT_DEC\<rparr> 1
     (\<lparr>caret_editing = True, caret_position = 0, prev_t = 0, prev_delta = 1000\<rparr>, \<lambda>_. 5) = Inr (st', m')
     \<and> 0 \<le> sint (m' 0x2000) \<and> sint (m' 0x2000) \<le> 7200"
proof -
  have c: "caret_ok \<lparr>priv = 0x2000, entry_min = 0, entry_max = 7200, has_select = False, entry_mode = 0, entry_unit = UNIT_DEC\<rparr>
      \<lparr>caret_editing = True, caret_position = 0, prev_t = 0, prev_delta = 1000\<rparr>" by (simp add: caret_ok_def caret_max_def)
  have e: "entry_ok \<lparr>priv = 0x2000, entry_min = 0, entry_max = 7200, has_select = False, entry_mode = 0, entry_unit = UNIT_DEC\<rparr> (\<lambda>_. 5)"
    by (simp add: entry_ok_def)
  show ?thesis using entry_toggle_in_range [OF e c, of 1 1000 "\<lambda>_ _ s. s" id "[]" "[]"] by (auto simp: entry_ok_def s32_id)
qed

end
