(* ===== verification/ML_Image.thy ===== *)
theory ML_Image
  imports ML_Prelude
begin

text \<open>
  Image conversion, \<^verbatim>\<open>src/src/imgconv.c\<close> and \<^verbatim>\<open>src/src/imgconv.h\<close> as compiled for the 70D (Rec.~709 and
  the packing of DIGIC 5): colour spaces, packed YUV 4:2:2 words, scaling and copying of image buffers,
  and the YUV 4:1:1 format. An image buffer is the list of its 32-bit words, and an access
  outside it is \<open>None\<close>, as is a signed overflow in \<^verbatim>\<open>yuv_resize\<close>; source and destination are different buffers. YUV 4:1:1 pixels and the overlay
  bytes of \<^verbatim>\<open>little_cleanup\<close> are read from the byte memory.
\<close>

section \<open>Colour spaces\<close>

text \<open>The conversion of a byte to \<^verbatim>\<open>int8_t\<close>, and the tables that \<^verbatim>\<open>precompute_yuv2rgb\<close> fills.\<close>

definition int8 :: "int \<Rightarrow> int" where
  "int8 u = signed_take_bit 7 u"

definition yuv2rgb_RV :: "int list" where
  "yuv2rgb_RV = map (\<lambda>v. drop_bit 10 (1608 * int8 v)) [0..255]"

definition yuv2rgb_GU :: "int list" where
  "yuv2rgb_GU = map (\<lambda>u. drop_bit 10 (- 191 * int8 u)) [0..255]"

definition yuv2rgb_GV :: "int list" where
  "yuv2rgb_GV = map (\<lambda>v. drop_bit 10 (- 478 * int8 v)) [0..255]"

definition yuv2rgb_BU :: "int list" where
  "yuv2rgb_BU = map (\<lambda>u. drop_bit 10 (1900 * int8 u)) [0..255]"

definition yuv2rgb :: "int \<Rightarrow> int \<Rightarrow> int \<Rightarrow> int \<times> int \<times> int" where
  "yuv2rgb Y U V =
     (let v_and_ff = nat (take_bit 8 V); u_and_ff = nat (take_bit 8 U)
      in (COERCE (Y + yuv2rgb_RV ! v_and_ff) 0 255,
          COERCE (Y + yuv2rgb_GU ! u_and_ff + yuv2rgb_GV ! v_and_ff) 0 255,
          COERCE (Y + yuv2rgb_BU ! u_and_ff) 0 255))"

definition UYVY_PACK :: "int \<Rightarrow> int \<Rightarrow> int \<Rightarrow> int \<Rightarrow> u32" where
  "UYVY_PACK u y1 v y2 =
     (word_of_int u AND 0xFF) OR push_bit 8 (word_of_int y1 AND 0xFF)
     OR push_bit 16 (word_of_int v AND 0xFF) OR push_bit 24 (word_of_int y2 AND 0xFF)"

definition UYVY_GET_U :: "u32 \<Rightarrow> u32" where
  "UYVY_GET_U uyvy = uyvy AND 0xFF"

definition UYVY_GET_V :: "u32 \<Rightarrow> u32" where
  "UYVY_GET_V uyvy = drop_bit 16 uyvy AND 0xFF"

definition UYVY_GET_AVG_Y :: "u32 \<Rightarrow> u32" where
  "UYVY_GET_AVG_Y uyvy = drop_bit 1 ((drop_bit 24 uyvy AND 0xFF) + (drop_bit 8 uyvy AND 0xFF))"

definition rgb2yuv422_rec709 :: "int \<Rightarrow> int \<Rightarrow> int \<Rightarrow> u32" where
  "rgb2yuv422_rec709 R G B =
     (let Y = COERCE (c_div (217 * R + 732 * G + 73 * B) 1024) 0 255;
          U = COERCE (c_div (- 117 * R + (- 394) * G + 512 * B) 1024) (- 128) 127;
          V = COERCE (c_div (512 * R + (- 465) * G + (- 46) * B) 1024) (- 128) 127
      in UYVY_PACK U Y V Y)"

definition rgb2yuv422_rec601 :: "int \<Rightarrow> int \<Rightarrow> int \<Rightarrow> u32" where
  "rgb2yuv422_rec601 R G B =
     (let Y = COERCE (c_div (306 * R + 601 * G + 116 * B) 1024) 0 255;
          U = COERCE (c_div (- 172 * R + (- 337) * G + 509 * B) 1024) (- 128) 127;
          V = COERCE (c_div (509 * R + (- 427) * G + (- 82) * B) 1024) (- 128) 127
      in UYVY_PACK U Y V Y)"

definition rgb2yuv422 :: "int \<Rightarrow> int \<Rightarrow> int \<Rightarrow> u32" where
  "rgb2yuv422 R G B = rgb2yuv422_rec709 R G B"

definition uyvy_split :: "u32 \<Rightarrow> int \<times> int \<times> int" where
  "uyvy_split uyvy = (uint (UYVY_GET_AVG_Y uyvy), int8 (uint (UYVY_GET_U uyvy)), int8 (uint (UYVY_GET_V uyvy)))"

definition COMPUTE_UYVY2YRGB :: "u32 \<Rightarrow> int \<times> int \<times> int \<times> int" where
  "COMPUTE_UYVY2YRGB uyvy =
     (let Y = uint (UYVY_GET_AVG_Y uyvy); gv = unat (UYVY_GET_V uyvy); gu = unat (UYVY_GET_U uyvy)
      in (Y, COERCE (Y + yuv2rgb_RV ! gv) 0 255,
          COERCE (Y + yuv2rgb_GU ! gu + yuv2rgb_GV ! gv) 0 255,
          COERCE (Y + yuv2rgb_BU ! gu) 0 255))"

section \<open>Image buffers\<close>

definition rd_cell :: "u32 list \<Rightarrow> int \<Rightarrow> u32 option" where
  "rd_cell src i = (if 0 \<le> i \<and> i < int (length src) then Some (src ! nat i) else None)"

definition wr_cell :: "int \<Rightarrow> u32 \<Rightarrow> u32 list \<Rightarrow> u32 list option" where
  "wr_cell i v dst = (if 0 \<le> i \<and> i < int (length dst) then Some (dst[nat i := v]) else None)"

definition copy_cell :: "u32 list \<Rightarrow> int \<Rightarrow> int \<Rightarrow> u32 list \<Rightarrow> u32 list option" where
  "copy_cell src i k dst = Option.bind (rd_cell src i) (\<lambda>v. wr_cell k v dst)"

text \<open>A counting loop whose body may leave the buffers.\<close>

fun for_each :: "('i \<Rightarrow> 's \<Rightarrow> 's option) \<Rightarrow> 'i list \<Rightarrow> 's \<Rightarrow> 's option" where
  "for_each body [] s = Some s"
| "for_each body (i # is) s = Option.bind (body i s) (for_each body is)"

text \<open>The result of an operation on \<^verbatim>\<open>int\<close>, \<open>None\<close> when it overflows.\<close>

definition c_int :: "int \<Rightarrow> int option" where
  "c_int x = (if fits_int x then Some x else None)"

text \<open>The state of the inner loop is the destination and \<^verbatim>\<open>mult_srcw\<close>.\<close>

definition yuv_resize :: "u32 list \<Rightarrow> int \<Rightarrow> int \<Rightarrow> u32 list \<Rightarrow> int \<Rightarrow> int \<Rightarrow> u32 list option" where
  "yuv_resize src src_w src_h dst dst_w dst_h =
     (let srcw_half = drop_bit 1 src_w; dstw_half = drop_bit 1 dst_w
      in for_each (\<lambda>i dst.
           Option.bind (c_int (i * src_h)) (\<lambda>p.
           Option.bind (c_int (c_div p dst_h * srcw_half)) (\<lambda>src_off_part.
           Option.bind (c_int (i * dstw_half)) (\<lambda>dst_off_y.
             map_option fst (for_each (\<lambda>j (dst, mult_srcw).
                 Option.bind (c_int (src_off_part + c_div mult_srcw dst_w)) (\<lambda>s.
                 Option.bind (c_int (dst_off_y + j)) (\<lambda>k.
                 Option.bind (copy_cell src s k dst) (\<lambda>dst'.
                 map_option (Pair dst') (c_int (mult_srcw + src_w))))))
               [0..dstw_half - 1] (dst, 0))))))
         [0..dst_h - 1] dst)"

definition yuv_halfcopy :: "u32 list \<Rightarrow> u32 list \<Rightarrow> int \<Rightarrow> int \<Rightarrow> bool \<Rightarrow> u32 list option" where
  "yuv_halfcopy dst src w h top_half =
     (let w_half = drop_bit 1 w
      in for_each (\<lambda>i. for_each (\<lambda>j dst.
             (let sign = j - c_div (i * w_half) h; offset = i * w_half + j
              in if top_half \<and> sign > 0 \<or> \<not> top_half \<and> sign \<le> 0 then copy_cell src offset offset dst else Some dst))
           [0..c_div w 2 - 1]) [0..h - 1] dst)"

definition luma_word :: "u32 \<Rightarrow> u32 \<Rightarrow> u32 \<Rightarrow> u32" where
  "luma_word chroma y1 y2 = chroma OR push_bit 8 y1 OR push_bit 24 y2"

definition yuvcpy_x2 :: "u32 list \<Rightarrow> u32 list \<Rightarrow> int \<Rightarrow> u32 list option" where
  "yuvcpy_x2 dst src num_pix =
     for_each (\<lambda>k dst. Option.bind (rd_cell src k) (\<lambda>s.
       (let chroma = s AND 0x00FF00FF; luma1 = drop_bit 8 s AND 0xFF; luma2 = drop_bit 24 s AND 0xFF
        in Option.bind (wr_cell (2 * k) (luma_word chroma luma1 luma1) dst)
             (wr_cell (2 * k + 1) (luma_word chroma luma2 luma2)))))
       [0..drop_bit 1 num_pix - 1] dst"

definition yuvcpy_x3 :: "u32 list \<Rightarrow> u32 list \<Rightarrow> int \<Rightarrow> u32 list option" where
  "yuvcpy_x3 dst src num_pix =
     for_each (\<lambda>k dst. Option.bind (rd_cell src k) (\<lambda>s.
       (let chroma = s AND 0x00FF00FF; luma1 = drop_bit 8 s AND 0xFF; luma2 = drop_bit 24 s AND 0xFF
        in Option.bind (wr_cell (3 * k) (luma_word chroma luma1 luma1) dst) (\<lambda>dst.
           Option.bind (wr_cell (3 * k + 1) (luma_word chroma luma1 luma2) dst)
             (wr_cell (3 * k + 2) (luma_word chroma luma2 luma2))))))
       [0..drop_bit 1 num_pix - 1] dst"

text \<open>\<^verbatim>\<open>memcpy\<close> of \<open>n\<close> bytes, which for image lines is a number of whole words.\<close>

definition copy_words :: "u32 list \<Rightarrow> u32 list \<Rightarrow> int \<Rightarrow> u32 list option" where
  "copy_words dst src n = for_each (\<lambda>k. copy_cell src k k) [0..c_div n 4 - 1] dst"

definition yuvcpy_main :: "u32 list \<Rightarrow> u32 list \<Rightarrow> int \<Rightarrow> int \<Rightarrow> u32 list option" where
  "yuvcpy_main dst src num_pix X =
     (if X = 1 then copy_words dst src (push_bit 1 num_pix)
      else if X = 2 then yuvcpy_x2 dst src (drop_bit 1 num_pix)
      else if X = 3 then yuvcpy_x3 dst src (c_div num_pix 3)
      else Some dst)"

definition yuv422_get_pixel :: "u32 list \<Rightarrow> int \<Rightarrow> u32 option" where
  "yuv422_get_pixel buf pixoff =
     Option.bind (rd_cell buf (c_div pixoff 2)) (\<lambda>s.
       (let chroma = s AND 0x00FF00FF; luma1 = drop_bit 8 s AND 0xFF; luma2 = drop_bit 24 s AND 0xFF;
            luma = (if c_rem pixoff 2 \<noteq> 0 then luma2 else luma1)
        in Some (luma_word chroma luma luma)))"

section \<open>YUV 4:1:1\<close>

definition ALIGN32 :: "u32 \<Rightarrow> u32" where
  "ALIGN32 x = x AND NOT 3"

definition byte_at :: "memory \<Rightarrow> u32 \<Rightarrow> int" where
  "byte_at m p = uint (m p)"

definition yuv411_to_422 :: "memory \<Rightarrow> u32 \<Rightarrow> u32" where
  "yuv411_to_422 m addr =
     (let p = ALIGN32 addr; k = (p div 4) mod 3
      in if k = 0 then UYVY_PACK (byte_at m (p + 4)) (byte_at m (p + 1)) (byte_at m p) (byte_at m (p + 2))
         else if k = 1 then rd32 m p
         else if k = 2 then UYVY_PACK (byte_at m (p + 2)) (byte_at m p) (byte_at m (p + 4)) (byte_at m (p + 1))
         else 0)"

text \<open>The static variables of \<^verbatim>\<open>yuv411_to_rgb\<close>.\<close>

record yuv411_state =
  am3 :: int
  prev_addr :: u32

definition yuv411_zero :: yuv411_state where
  "yuv411_zero = \<lparr>am3 = 0, prev_addr = 0\<rparr>"

definition yuv411_next :: "u32 \<Rightarrow> yuv411_state \<Rightarrow> yuv411_state" where
  "yuv411_next addr st =
     (let a = (if addr = prev_addr st + 4 then (let a = am3 st + 1 in if a = 3 then 0 else a)
               else if addr = prev_addr st then am3 st
               else uint ((addr div 4) mod 3))
      in \<lparr>am3 = a, prev_addr = addr\<rparr>)"

definition yuv411_to_rgb :: "memory \<Rightarrow> u32 \<Rightarrow> yuv411_state \<Rightarrow> (int \<times> int \<times> int \<times> int) \<times> yuv411_state" where
  "yuv411_to_rgb m addr st =
     (let p = addr AND NOT 3; st = yuv411_next p st;
          (U, V, y) = (if am3 st = 0 then (byte_at m (p + 4), byte_at m p, byte_at m (p + 1))
                       else if am3 st = 1 then (byte_at m p, byte_at m (p + 2), byte_at m (p + 1))
                       else if am3 st = 2 then (byte_at m (p + 2), byte_at m (p + 4), byte_at m p)
                       else (0, 0, 0))
      in ((y, COERCE (y + yuv2rgb_RV ! nat V) 0 255,
           COERCE (y + yuv2rgb_GU ! nat U + yuv2rgb_GV ! nat V) 0 255,
           COERCE (y + yuv2rgb_BU ! nat U) 0 255), st))"

definition cleanup_byte :: "u32 \<Rightarrow> u32 \<Rightarrow> memory \<Rightarrow> memory" where
  "cleanup_byte bp mp m = (if m bp \<noteq> 0 \<and> m bp = m mp then m(bp := 0, mp := 0) else m)"

definition little_cleanup :: "u32 \<Rightarrow> u32 \<Rightarrow> memory \<Rightarrow> memory" where
  "little_cleanup bp mp m =
     cleanup_byte (bp + 3) (mp + 3) (cleanup_byte (bp + 2) (mp + 2) (cleanup_byte (bp + 1) (mp + 1) (cleanup_byte bp mp m)))"

definition resize_source :: "int \<Rightarrow> int \<Rightarrow> int \<Rightarrow> int \<Rightarrow> int \<Rightarrow> int \<Rightarrow> int" where
  "resize_source src_w src_h dst_w dst_h i j = i * src_h div dst_h * (src_w div 2) + j * src_w div dst_w"

text \<open>The two lumas of a packed word, and the word that has one of them twice.\<close>

definition word_luma :: "u32 \<Rightarrow> bool \<Rightarrow> u32" where
  "word_luma s second = (if second then drop_bit 24 s AND 0xFF else drop_bit 8 s AND 0xFF)"

definition word_pixel :: "u32 \<Rightarrow> bool \<Rightarrow> u32" where
  "word_pixel s second = luma_word (s AND 0x00FF00FF) (word_luma s second) (word_luma s second)"

definition rep_word :: "int \<Rightarrow> u32 list \<Rightarrow> int \<Rightarrow> u32" where
  "rep_word X src q =
     (let s = src ! nat (q div X)
      in luma_word (s AND 0x00FF00FF) (word_luma s (odd (2 * q div X))) (word_luma s (odd ((2 * q + 1) div X))))"

definition filled :: "int \<Rightarrow> u32 list \<Rightarrow> u32 list \<Rightarrow> int \<Rightarrow> u32 list \<Rightarrow> bool" where
  "filled X src dst n d \<longleftrightarrow> length d = length dst \<and> (\<forall>q. 0 \<le> q \<and> q < n \<longrightarrow> d ! nat q = rep_word X src q)"

text \<open>The first pixel of a packed word in RGB, and a sequence of calls of \<^verbatim>\<open>yuv411_to_rgb\<close>.\<close>

definition first_pixel_rgb :: "u32 \<Rightarrow> int \<times> int \<times> int \<times> int" where
  "first_pixel_rgb w =
     (let y = uint (word_luma w False)
      in (y, yuv2rgb y (uint (UYVY_GET_U w)) (uint (UYVY_GET_V w))))"

fun yuv411_calls :: "memory \<Rightarrow> u32 list \<Rightarrow> yuv411_state \<Rightarrow> (int \<times> int \<times> int \<times> int) list" where
  "yuv411_calls m [] st = []"
| "yuv411_calls m (a # as) st = (case yuv411_to_rgb m a st of (rgb, st') \<Rightarrow> rgb # yuv411_calls m as st')"

definition yuv411_ok :: "yuv411_state \<Rightarrow> bool" where
  "yuv411_ok st \<longleftrightarrow> uint (prev_addr st) mod 4 = 0 \<and> prev_addr st < 0xFFFFFFFC \<and> am3 st = uint (prev_addr st) div 4 mod 3"

section \<open>Loops over image buffers\<close>

lemma for_each_append: "for_each body (xs @ ys) s = Option.bind (for_each body xs s) (for_each body ys)"
proof (induction xs arbitrary: s)
  case (Cons x xs)
  then show ?case by (cases "body x s") simp_all
qed simp

text \<open>The rule for a counting loop with an invariant.\<close>

lemma for_each_upto:
  assumes "0 \<le> n" "I 0 s" "\<And>k s. 0 \<le> k \<Longrightarrow> k < n \<Longrightarrow> I k s \<Longrightarrow> \<exists>s'. body k s = Some s' \<and> I (k + 1) s'"
  shows "\<exists>s'. for_each body [0..n - 1] s = Some s' \<and> I (n :: int) s'"
  using assms(1,3)
proof (induction n rule: int_ge_induct)
  case base
  then show ?case using assms(2) by simp
next
  case (step n)
  then obtain s1 where s1: "for_each body [0..n - 1] s = Some s1" "I n s1" by auto
  obtain s2 where "body n s1 = Some s2" "I (n + 1) s2" using step(1) step(3) [of n s1] s1(2) by auto
  moreover have "[0..n + 1 - 1] = [0..n - 1] @ [n]" using upto_rec2 [of 0 n] step(1) by simp
  ultimately show ?case using s1(1) by (simp only: for_each_append) simp
qed

lemma rd_cell_Some: "0 \<le> i \<Longrightarrow> i < int (length src) \<Longrightarrow> rd_cell src i = Some (src ! nat i)"
  by (simp add: rd_cell_def)

lemma wr_cell_Some: "0 \<le> i \<Longrightarrow> i < int (length dst) \<Longrightarrow> wr_cell i v dst = Some (dst[nat i := v])"
  by (simp add: wr_cell_def)

lemma copy_cell_Some:
  "0 \<le> i \<Longrightarrow> i < int (length src) \<Longrightarrow> 0 \<le> k \<Longrightarrow> k < int (length dst) \<Longrightarrow>
    copy_cell src i k dst = Some (dst[nat k := src ! nat i])"
  by (simp add: copy_cell_def rd_cell_Some wr_cell_Some)

lemma row_index:
  assumes "0 \<le> i" "i < h" "0 \<le> j" "j < (w :: int)"
  shows "0 \<le> i * w + j" "i * w + j < h * w"
proof -
  have "(i + 1) * w \<le> h * w" using assms by (intro mult_right_mono) simp_all
  then show "i * w + j < h * w" using assms(4) by (simp add: algebra_simps)
  show "0 \<le> i * w + j" using assms by simp
qed

lemma row_index_eq:
  assumes "0 \<le> j" "j < (w :: int)" "0 \<le> j'" "j' < w"
  shows "i * w + j = i' * w + j' \<longleftrightarrow> i = i' \<and> j = j'"
proof
  assume e: "i * w + j = i' * w + j'"
  have q: "(c * w + d) div w = c" if "0 \<le> d" "d < w" for c d
    using that by (intro int_div_pos_eq) (simp_all add: mult.commute)
  have "i = i'" using q [OF assms(1,2), of i] q [OF assms(3,4), of i'] e by simp
  then show "i = i' \<and> j = j'" using e by simp
qed simp

section \<open>Scaling\<close>

lemma zdiv_less: "0 < b \<Longrightarrow> (a :: int) < c * b \<Longrightarrow> a div b < c"
proof (rule ccontr)
  assume a: "0 < b" "a < c * b" "\<not> a div b < c"
  then have "c * b \<le> a div b * b" by (intro mult_right_mono) simp_all
  moreover have "a div b * b \<le> a" using a(1) mult_div_mod_eq [of b a] pos_mod_sign [OF a(1), of a] mult.commute [of b] by (smt (verit))
  ultimately show False using a(2) by linarith
qed

lemma scaled_range:
  fixes src_w src_h dst_w dst_h i j :: int
  assumes "0 < src_w" "src_w mod 2 = 0" "0 < src_h" "0 < dst_w" "0 < dst_h" "0 \<le> i" "i < dst_h" "0 \<le> j" "j < dst_w div 2"
  shows "0 \<le> i * src_h div dst_h \<and> i * src_h div dst_h < src_h \<and> 0 \<le> j * src_w div dst_w \<and> j * src_w div dst_w < src_w div 2"
proof -
  have "i * src_h < dst_h * src_h" using assms by simp
  then have "i * src_h div dst_h < src_h" using assms(5) by (intro zdiv_less) (simp_all add: mult.commute)
  moreover have "0 \<le> i * src_h div dst_h" using assms by (simp add: pos_imp_zdiv_nonneg_iff)
  moreover have "j * src_w div dst_w < src_w div 2"
  proof -
    have s: "2 * (src_w div 2) = src_w" using mult_div_mod_eq [of 2 src_w] assms(2) by linarith
    have "2 * (dst_w div 2) \<le> dst_w" using mult_div_mod_eq [of 2 dst_w] pos_mod_sign [of 2 dst_w] by linarith
    then have "2 * j < dst_w" using assms(9) by linarith
    then have "2 * j * (src_w div 2) < dst_w * (src_w div 2)" using s assms(1) by (intro mult_strict_right_mono) linarith+
    then have "j * src_w < src_w div 2 * dst_w" using s by (metis mult.assoc mult.commute)
    then show ?thesis using assms(4) by (intro zdiv_less)
  qed
  moreover have "0 \<le> j * src_w div dst_w" using assms by (simp add: pos_imp_zdiv_nonneg_iff)
  ultimately show ?thesis by blast
qed

lemma resize_source_range:
  assumes "0 < src_w" "src_w mod 2 = 0" "0 < src_h" "0 < dst_w" "0 < dst_h" "0 \<le> i" "i < dst_h" "0 \<le> j" "j < dst_w div 2"
  shows "0 \<le> resize_source src_w src_h dst_w dst_h i j" "resize_source src_w src_h dst_w dst_h i j < src_h * (src_w div 2)"
  unfolding resize_source_def using row_index scaled_range [OF assms] by blast+

lemma c_int_Some: "0 \<le> x \<Longrightarrow> x < 2 ^ 31 \<Longrightarrow> c_int x = Some x"
  by (simp add: c_int_def fits_int_def)

text \<open>The words of the destination before row \<open>i\<close>, and the first \<open>j\<close> of row \<open>i\<close>, have been set to those of \<open>r\<close>.\<close>

lemma scaled_write:
  assumes ij: "0 \<le> i" "0 \<le> j" "j < W" and len: "i * W + j < int (length d)"
    and d: "\<forall>i' j'. 0 \<le> i' \<and> 0 \<le> j' \<and> j' < W \<and> (i' < i \<or> i' = i \<and> j' < j) \<longrightarrow> d ! nat (i' * W + j') = (r i' j' :: u32)"
    and k: "0 \<le> i'" "0 \<le> j'" "j' < W" "i' < i \<or> i' = i \<and> j' < j + 1"
  shows "d[nat (i * W + j) := r i j] ! nat (i' * W + j') = r i' j'"
proof -
  have W: "0 \<le> W" using ij by simp
  have pos: "0 \<le> i * W + j" "0 \<le> i' * W + j'" using ij k W by simp_all
  show ?thesis
  proof (cases "i' = i \<and> j' = j")
    case True
    then show ?thesis using pos len by (simp add: nat_less_iff)
  next
    case False
    then have "i' * W + j' \<noteq> i * W + j" using row_index_eq [OF k(2,3) ij(2,3)] by blast
    then have "nat (i' * W + j') \<noteq> nat (i * W + j)" using pos by (simp add: eq_nat_nat_iff)
    moreover have "d ! nat (i' * W + j') = r i' j'" using d k False by auto
    ultimately show ?thesis by simp
  qed
qed

lemma yuv_resize_source:
  assumes "0 < src_w" "src_w mod 2 = 0" "0 < src_h" "0 < dst_w" "0 < dst_h"
    and "int (length src) = src_h * (src_w div 2)" "int (length dst) = dst_h * (dst_w div 2)"
    and ov: "dst_h * src_h < 2 ^ 31" "dst_w div 2 * src_w < 2 ^ 31" "length src < 2 ^ 31" "length dst < 2 ^ 31"
  shows "\<exists>dst'. yuv_resize src src_w src_h dst dst_w dst_h = Some dst' \<and> length dst' = length dst
    \<and> (\<forall>i j. 0 \<le> i \<and> i < dst_h \<and> 0 \<le> j \<and> j < dst_w div 2 \<longrightarrow>
         dst' ! nat (i * (dst_w div 2) + j) = src ! nat (resize_source src_w src_h dst_w dst_h i j))"
proof -
  let ?W = "dst_w div 2" and ?r = "resize_source src_w src_h dst_w dst_h"
  define filled where "filled i j d \<longleftrightarrow> length d = length dst \<and> (\<forall>i' j'. 0 \<le> i' \<and> 0 \<le> j' \<and> j' < ?W \<and> (i' < i \<or> i' = i \<and> j' < j) \<longrightarrow> d ! nat (i' * ?W + j') = src ! nat (?r i' j'))"
    for i j :: int and d :: "u32 list"
  define cell where "cell so do j = (\<lambda>(d, mult_srcw). Option.bind (c_int (so + c_div mult_srcw dst_w)) (\<lambda>s.
      Option.bind (c_int (do + j)) (\<lambda>k. Option.bind (copy_cell src s k d) (\<lambda>d'. map_option (Pair d') (c_int (mult_srcw + src_w))))))"
    for so do j
  define body where "body i d = Option.bind (c_int (i * src_h)) (\<lambda>p.
      Option.bind (c_int (c_div p dst_h * (src_w div 2))) (\<lambda>so. Option.bind (c_int (i * ?W)) (\<lambda>do.
        map_option fst (for_each (cell so do) [0..?W - 1] (d, 0)))))" for i d
  have W0: "0 \<le> ?W" using assms(4) by simp
  have ln: "src_h * (src_w div 2) < 2 ^ 31" "dst_h * ?W < 2 ^ 31" using ov(3,4) assms(6,7) by simp_all
  have step: "\<exists>t. cell (i * src_h div dst_h * (src_w div 2)) (i * ?W) j (d, j * src_w) = Some t
      \<and> filled i (j + 1) (fst t) \<and> snd t = (j + 1) * src_w"
    if ij: "0 \<le> i" "i < dst_h" "0 \<le> j" "j < ?W" and d: "filled i j d" for i j d
  proof -
    note rng = resize_source_range [OF assms(1-5) ij] and pos = row_index [OF ij]
    have len: "length d = length dst" using d by (simp add: filled_def)
    have m: "0 \<le> j * src_w" "(j + 1) * src_w \<le> ?W * src_w" using ij assms(1) by (simp_all add: mult_right_mono)
    have e: "i * src_h div dst_h * (src_w div 2) + c_div (j * src_w) dst_w = ?r i j"
      using m assms(4) by (simp add: resize_source_def c_div_nonneg)
    have "c_int (?r i j) = Some (?r i j)" "c_int (i * ?W + j) = Some (i * ?W + j)"
      using rng pos ln by (intro c_int_Some; linarith)+
    moreover have "c_int (j * src_w + src_w) = Some ((j + 1) * src_w)"
    proof -
      have "0 \<le> (j + 1) * src_w" using ij(3) assms(1) by simp
      then have "c_int ((j + 1) * src_w) = Some ((j + 1) * src_w)" using m(2) ov(2) by (intro c_int_Some) linarith+
      then show ?thesis by (simp add: algebra_simps)
    qed
    moreover have "copy_cell src (?r i j) (i * ?W + j) d = Some (d[nat (i * ?W + j) := src ! nat (?r i j)])"
      using rng pos assms(6,7) len by (simp add: copy_cell_Some)
    ultimately have "cell (i * src_h div dst_h * (src_w div 2)) (i * ?W) j (d, j * src_w)
        = Some (d[nat (i * ?W + j) := src ! nat (?r i j)], (j + 1) * src_w)"
      unfolding cell_def by (simp add: e)
    moreover have "filled i (j + 1) (d[nat (i * ?W + j) := src ! nat (?r i j)])"
      using scaled_write [of i j ?W d "\<lambda>i j. src ! nat (?r i j)"] d ij pos assms(7) len unfolding filled_def by simp
    ultimately show ?thesis by simp
  qed
  have row: "\<exists>d'. body i d = Some d' \<and> filled (i + 1) 0 d'" if i: "0 \<le> i" "i < dst_h" "filled i 0 d" for i d
  proof -
    let ?so = "i * src_h div dst_h * (src_w div 2)"
    have p: "0 \<le> i * src_h" "i * src_h < dst_h * src_h" using i assms(3) by simp_all
    have q: "0 \<le> i * src_h div dst_h" "i * src_h div dst_h < src_h"
      using p assms(5) by (simp add: pos_imp_zdiv_nonneg_iff, intro zdiv_less) (simp_all add: mult.commute)
    have "?so \<le> src_h * (src_w div 2)" using q assms(1) by (intro mult_right_mono) simp_all
    moreover have "0 \<le> ?so" using q(1) assms(1) by simp
    moreover have "i * ?W \<le> dst_h * ?W" "0 \<le> i * ?W" using i W0 by (simp_all add: mult_right_mono)
    ultimately have c: "c_int (i * src_h) = Some (i * src_h)" "c_int ?so = Some ?so" "c_int (i * ?W) = Some (i * ?W)"
      using p ov(1) ln by (intro c_int_Some; linarith)+
    obtain t where t: "for_each (cell ?so (i * ?W)) [0..?W - 1] (d, 0) = Some t" "filled i ?W (fst t)"
      using for_each_upto [of ?W "\<lambda>j t. filled i j (fst t) \<and> snd t = j * src_w" "(d, 0)" "cell ?so (i * ?W)"] W0 i(3) step [OF i(1,2)]
      by (force simp: split_paired_all)
    have "body i d = Some (fst t)"
      unfolding body_def using c t(1) p(1) assms(5) by (simp add: c_div_nonneg)
    moreover have "filled (i + 1) 0 (fst t)" using t(2) unfolding filled_def by (auto simp: less_le)
    ultimately show ?thesis by blast
  qed
  have "filled 0 0 dst" by (auto simp: filled_def)
  then obtain d' where d': "for_each body [0..dst_h - 1] dst = Some d'" "filled dst_h 0 d'"
    using for_each_upto [of dst_h "\<lambda>i. filled i 0" dst body] row assms(5) by auto
  have "yuv_resize src src_w src_h dst dst_w dst_h = Some d'"
    using d'(1) unfolding yuv_resize_def body_def cell_def Let_def by (simp add: drop_bit_eq_div)
  then show ?thesis using d'(2) unfolding filled_def by auto
qed

lemma floor_scaled:
  assumes "0 < b"
  shows "a div b * b \<le> a" "a < (a div b + 1) * (b :: int)"
proof -
  have "a div b * b + a mod b = a" by simp
  then show "a div b * b \<le> a" "a < (a div b + 1) * b"
    using pos_mod_sign [OF assms, of a] pos_mod_bound [OF assms, of a] unfolding distrib_right by linarith+
qed

text \<open>
  C22: Scaling an image of even width, whose sizes keep the products within 32 bits, reads and writes only inside the
  two buffers and overflows nowhere. Every word of the destination is set to a word of the source:
  the one whose row and column are its own row and column scaled by the ratio of the sizes and rounded down.
\<close>

theorem yuv_resize_correct:
  assumes "0 < src_w" "src_w mod 2 = 0" "0 < src_h" "0 < dst_w" "0 < dst_h"
    and "int (length src) = src_h * (src_w div 2)" "int (length dst) = dst_h * (dst_w div 2)"
    and "dst_h * src_h < 2 ^ 31" "dst_w div 2 * src_w < 2 ^ 31" "length src < 2 ^ 31" "length dst < 2 ^ 31"
  shows "\<exists>dst'. yuv_resize src src_w src_h dst dst_w dst_h = Some dst' \<and> length dst' = length dst
    \<and> (\<forall>i j. 0 \<le> i \<and> i < dst_h \<and> 0 \<le> j \<and> j < dst_w div 2 \<longrightarrow>
         (\<exists>row col. 0 \<le> row \<and> row < src_h \<and> row * dst_h \<le> i * src_h \<and> i * src_h < (row + 1) * dst_h
           \<and> 0 \<le> col \<and> col < src_w div 2 \<and> col * dst_w \<le> j * src_w \<and> j * src_w < (col + 1) * dst_w
           \<and> dst' ! nat (i * (dst_w div 2) + j) = src ! nat (row * (src_w div 2) + col)))"
proof -
  obtain dst' where d: "yuv_resize src src_w src_h dst dst_w dst_h = Some dst'" "length dst' = length dst"
      "\<And>i j. 0 \<le> i \<Longrightarrow> i < dst_h \<Longrightarrow> 0 \<le> j \<Longrightarrow> j < dst_w div 2 \<Longrightarrow>
         dst' ! nat (i * (dst_w div 2) + j) = src ! nat (resize_source src_w src_h dst_w dst_h i j)"
    using yuv_resize_source [OF assms] by blast
  have "\<exists>row col. 0 \<le> row \<and> row < src_h \<and> row * dst_h \<le> i * src_h \<and> i * src_h < (row + 1) * dst_h
      \<and> 0 \<le> col \<and> col < src_w div 2 \<and> col * dst_w \<le> j * src_w \<and> j * src_w < (col + 1) * dst_w
      \<and> dst' ! nat (i * (dst_w div 2) + j) = src ! nat (row * (src_w div 2) + col)"
    if ij: "0 \<le> i" "i < dst_h" "0 \<le> j" "j < dst_w div 2" for i j
    using scaled_range [OF assms(1-5) ij] floor_scaled [OF assms(5), of "i * src_h"] floor_scaled [OF assms(4), of "j * src_w"]
      d(3) [OF ij]
    by (intro exI [of _ "i * src_h div dst_h"] exI [of _ "j * src_w div dst_w"]) (simp add: resize_source_def)
  then show ?thesis using d(1,2) by blast
qed

theorem yuv_resize_correct_witness:
  "\<exists>dst'. yuv_resize [1, 2, 3, 4] 4 2 [0, 0, 0, 0, 0, 0, 0, 0, 0] 6 3 = Some dst' \<and> length dst' = 9
    \<and> (\<exists>row col. 0 \<le> row \<and> row < 2 \<and> row * 3 \<le> (4 :: int) \<and> 4 < (row + 1) * 3 \<and> 0 \<le> col \<and> col < 2 \<and> col * 6 \<le> (8 :: int)
         \<and> 8 < (col + 1) * 6 \<and> dst' ! 8 = [1, 2, 3, 4] ! nat (row * 2 + col))"
proof -
  obtain dst' where d: "yuv_resize [1, 2, 3, 4] 4 2 [0, 0, 0, 0, 0, 0, 0, 0, 0] 6 3 = Some dst'" "length dst' = 9"
    and r: "\<forall>i j. 0 \<le> i \<and> i < 3 \<and> 0 \<le> j \<and> j < 3 \<longrightarrow>
         (\<exists>row col. 0 \<le> row \<and> row < 2 \<and> row * 3 \<le> i * 2 \<and> i * 2 < (row + 1) * 3
           \<and> 0 \<le> col \<and> col < 2 \<and> col * 6 \<le> j * 4 \<and> j * 4 < (col + 1) * 6
           \<and> dst' ! nat (i * 3 + j) = [1, 2, 3, 4] ! nat (row * 2 + col))"
    using yuv_resize_correct [of 4 2 6 3 "[1, 2, 3, 4]" "[0, 0, 0, 0, 0, 0, 0, 0, 0]"] by auto
  from r [rule_format, of 2 2] show ?thesis using d by auto
qed

section \<open>Packed pixels\<close>

lemma chroma_mask: "(0x00FF00FF :: u32) = mask 8 OR push_bit 16 (mask 8)"
  by (simp add: mask_eq_exp_minus_1 push_bit_eq_mult)

lemma luma_mask: "(0xFF :: u32) = mask 8"
  by (simp add: mask_eq_exp_minus_1)

lemma luma_word_chroma: "luma_word (s AND 0x00FF00FF) (word_luma s a) (word_luma s b) AND 0x00FF00FF = s AND 0x00FF00FF"
  unfolding luma_word_def word_luma_def chroma_mask luma_mask
  by (rule bit_word_eqI) (auto simp: bit_simps)

lemma luma_word_luma:
  "word_luma (luma_word (s AND 0x00FF00FF) (word_luma s a) (word_luma s b)) c = word_luma s (if c then b else a)"
  unfolding luma_word_def word_luma_def chroma_mask luma_mask
  by (rule bit_word_eqI) (auto simp: bit_simps)

lemma luma_word_self: "luma_word (s AND 0x00FF00FF) (word_luma s False) (word_luma s True) = s"
  unfolding luma_word_def word_luma_def chroma_mask luma_mask
  by (rule bit_word_eqI) (auto simp: bit_simps)

lemma word_pixel_luma_word:
  "word_pixel (luma_word (s AND 0x00FF00FF) (word_luma s a) (word_luma s b)) c = word_pixel s (if c then b else a)"
  by (simp only: word_pixel_def luma_word_chroma luma_word_luma)

lemma yuv422_get_pixel_Some:
  assumes "0 \<le> p" "p < 2 * int (length buf)"
  shows "yuv422_get_pixel buf p = Some (word_pixel (buf ! nat (p div 2)) (odd p))"
proof -
  have "rd_cell buf (c_div p 2) = Some (buf ! nat (p div 2))"
    using assms by (simp add: c_div_nonneg rd_cell_Some)
  moreover have "c_rem p 2 = p mod 2" using assms(1) by (simp add: c_rem_nonneg)
  ultimately show ?thesis
    by (simp add: yuv422_get_pixel_def word_pixel_def word_luma_def Let_def odd_iff_mod_2_eq_one)
qed

section \<open>Replicating pixels\<close>

lemma filled_0: "filled X src dst 0 dst"
  by (auto simp: filled_def)

lemma filled_write:
  assumes "filled X src dst n d" "0 \<le> n" "n < int (length dst)" "w = rep_word X src n"
  shows "wr_cell n w d = Some (d[nat n := w])" "filled X src dst (n + 1) (d[nat n := w])"
proof -
  have l: "length d = length dst" using assms(1) by (simp add: filled_def)
  then show "wr_cell n w d = Some (d[nat n := w])" using assms by (simp add: wr_cell_Some)
  have "d[nat n := w] ! nat q = rep_word X src q" if q: "0 \<le> q" "q < n + 1" for q
  proof (cases "q = n")
    case True
    then show ?thesis using assms l by (simp add: nat_less_iff)
  next
    case False
    then have "nat q \<noteq> nat n" using q assms(2) by (simp add: eq_nat_nat_iff)
    then show ?thesis using assms(1) q False by (simp add: filled_def)
  qed
  then show "filled X src dst (n + 1) (d[nat n := w])" using l by (simp add: filled_def)
qed

lemma rep_word_1: "rep_word 1 src k = src ! nat k"
  by (simp add: rep_word_def Let_def luma_word_self)

lemma rep_word_2:
  "rep_word 2 src (2 * k) = (let s = src ! nat k in luma_word (s AND 0x00FF00FF) (word_luma s False) (word_luma s False))"
  "rep_word 2 src (2 * k + 1) = (let s = src ! nat k in luma_word (s AND 0x00FF00FF) (word_luma s True) (word_luma s True))"
proof -
  have "2 * (2 * k) div 2 = 2 * k" "(2 * (2 * k) + 1) div 2 = 2 * k" "2 * (2 * k + 1) div 2 = 2 * k + 1"
    "(2 * (2 * k + 1) + 1) div 2 = 2 * k + 1" "(2 * k + 1) div 2 = k" by presburger+
  then show "rep_word 2 src (2 * k) = (let s = src ! nat k in luma_word (s AND 0x00FF00FF) (word_luma s False) (word_luma s False))"
    "rep_word 2 src (2 * k + 1) = (let s = src ! nat k in luma_word (s AND 0x00FF00FF) (word_luma s True) (word_luma s True))"
    by (simp_all add: rep_word_def Let_def)
qed

lemma rep_word_3:
  "rep_word 3 src (3 * k) = (let s = src ! nat k in luma_word (s AND 0x00FF00FF) (word_luma s False) (word_luma s False))"
  "rep_word 3 src (3 * k + 1) = (let s = src ! nat k in luma_word (s AND 0x00FF00FF) (word_luma s False) (word_luma s True))"
  "rep_word 3 src (3 * k + 2) = (let s = src ! nat k in luma_word (s AND 0x00FF00FF) (word_luma s True) (word_luma s True))"
proof -
  have e: "2 * (3 * k) div 3 = 2 * k" "(2 * (3 * k) + 1) div 3 = 2 * k" "2 * (3 * k + 1) div 3 = 2 * k"
    "(2 * (3 * k + 1) + 1) div 3 = 2 * k + 1" "2 * (3 * k + 2) div 3 = 2 * k + 1" "(2 * (3 * k + 2) + 1) div 3 = 2 * k + 1"
    "3 * k div 3 = k" "(3 * k + 1) div 3 = k" "(3 * k + 2) div 3 = k" by presburger+
  show "rep_word 3 src (3 * k) = (let s = src ! nat k in luma_word (s AND 0x00FF00FF) (word_luma s False) (word_luma s False))"
    "rep_word 3 src (3 * k + 1) = (let s = src ! nat k in luma_word (s AND 0x00FF00FF) (word_luma s False) (word_luma s True))"
    "rep_word 3 src (3 * k + 2) = (let s = src ! nat k in luma_word (s AND 0x00FF00FF) (word_luma s True) (word_luma s True))"
    by (simp_all only: rep_word_def Let_def e) simp_all
qed

lemma yuvcpy_x1_filled:
  assumes "0 \<le> n" "n \<le> int (length src)" "n \<le> int (length dst)"
  shows "\<exists>d. for_each (\<lambda>k. copy_cell src k k) [0..n - 1] dst = Some d \<and> filled 1 src dst n d"
proof (rule for_each_upto)
  fix k d
  assume k: "0 \<le> k" "k < n" "filled 1 src dst k d"
  have "k < int (length src)" "k < int (length dst)" using k(2) assms by linarith+
  then show "\<exists>d'. copy_cell src k k d = Some d' \<and> filled 1 src dst (k + 1) d'"
    using filled_write [OF k(3,1), of "src ! nat k"] k(1) by (simp add: copy_cell_def rd_cell_Some rep_word_1)
qed (use assms filled_0 in auto)

lemma yuvcpy_x2_filled:
  assumes "0 \<le> n" "n \<le> int (length src)" "2 * n \<le> int (length dst)" "drop_bit 1 num_pix = n"
  shows "\<exists>d. yuvcpy_x2 dst src num_pix = Some d \<and> filled 2 src dst (2 * n) d"
  unfolding yuvcpy_x2_def assms(4)
proof (rule for_each_upto [where I = "\<lambda>k. filled 2 src dst (2 * k)"])
  fix k d
  assume k: "0 \<le> k" "k < n" "filled 2 src dst (2 * k) d"
  let ?s = "src ! nat k"
  let ?w = "\<lambda>a b. luma_word (?s AND 0x00FF00FF) (word_luma ?s a) (word_luma ?s b)"
  have b: "k < int (length src)" "2 * k < int (length dst)" "2 * k + 1 < int (length dst)" "0 \<le> 2 * k" "0 \<le> 2 * k + 1"
    using k assms by linarith+
  note w1 = filled_write [OF k(3) b(4,2), of "?w False False"]
  note w2 = filled_write [OF w1(2) b(5,3), of "?w True True"]
  have "2 * (k + 1) = 2 * k + 1 + 1" by simp
  then show "\<exists>d'. Option.bind (rd_cell src k) (\<lambda>s.
       (let chroma = s AND 0x00FF00FF; luma1 = drop_bit 8 s AND 0xFF; luma2 = drop_bit 24 s AND 0xFF
        in Option.bind (wr_cell (2 * k) (luma_word chroma luma1 luma1) d)
             (wr_cell (2 * k + 1) (luma_word chroma luma2 luma2)))) = Some d' \<and> filled 2 src dst (2 * (k + 1)) d'"
    using w1 w2 b(1) k(1) by (simp add: rd_cell_Some rep_word_2 word_luma_def Let_def add.commute [of 2])
qed (use assms filled_0 in auto)

lemma yuvcpy_x3_filled:
  assumes "0 \<le> n" "n \<le> int (length src)" "3 * n \<le> int (length dst)" "drop_bit 1 num_pix = n"
  shows "\<exists>d. yuvcpy_x3 dst src num_pix = Some d \<and> filled 3 src dst (3 * n) d"
  unfolding yuvcpy_x3_def assms(4)
proof (rule for_each_upto [where I = "\<lambda>k. filled 3 src dst (3 * k)"])
  fix k d
  assume k: "0 \<le> k" "k < n" "filled 3 src dst (3 * k) d"
  let ?s = "src ! nat k"
  let ?w = "\<lambda>a b. luma_word (?s AND 0x00FF00FF) (word_luma ?s a) (word_luma ?s b)"
  have b: "k < int (length src)" "3 * k < int (length dst)" "3 * k + 1 < int (length dst)" "3 * k + 2 < int (length dst)"
    "0 \<le> 3 * k" "0 \<le> 3 * k + 1" "0 \<le> 3 * k + 2" using k assms by linarith+
  note w1 = filled_write [OF k(3) b(5,2), of "?w False False"]
  note w2 = filled_write [OF w1(2) b(6,3), of "?w False True"]
  have "3 * k + 1 + 1 = 3 * k + 2" by simp
  note w3 = filled_write [OF w2(2) [unfolded this] b(7,4), of "?w True True"]
  have "3 * (k + 1) = 3 * k + 2 + 1" by simp
  then show "\<exists>d'. Option.bind (rd_cell src k) (\<lambda>s.
       (let chroma = s AND 0x00FF00FF; luma1 = drop_bit 8 s AND 0xFF; luma2 = drop_bit 24 s AND 0xFF
        in Option.bind (wr_cell (3 * k) (luma_word chroma luma1 luma1) d) (\<lambda>dst.
           Option.bind (wr_cell (3 * k + 1) (luma_word chroma luma1 luma2) dst)
             (wr_cell (3 * k + 2) (luma_word chroma luma2 luma2))))) = Some d' \<and> filled 3 src dst (3 * (k + 1)) d'"
    using w1 w2 w3 b(1) k(1) by (simp add: rd_cell_Some rep_word_3 word_luma_def Let_def add.commute [of 3] add.commute [of 2])
qed (use assms filled_0 in auto)

lemma yuvcpy_main_filled:
  assumes "X = 1 \<or> X = 2 \<or> X = 3" "0 \<le> n" "n \<le> int (length src)" "X * n \<le> int (length dst)"
  shows "\<exists>d. yuvcpy_main dst src (2 * X * n) X = Some d \<and> filled X src dst (X * n) d"
proof -
  consider "X = 1" | "X = 2" | "X = 3" using assms(1) by blast
  then show ?thesis
  proof cases
    case 1
    have "c_div (push_bit 1 (2 * n)) 4 = n" using assms(2) by (simp add: push_bit_eq_mult c_div_nonneg)
    then show ?thesis using 1 yuvcpy_x1_filled [OF assms(2,3)] assms(4) by (simp add: yuvcpy_main_def copy_words_def)
  next
    case 2
    have "drop_bit 1 (drop_bit 1 (2 * X * n)) = n" using 2 by (simp add: drop_bit_eq_div)
    then show ?thesis using 2 yuvcpy_x2_filled [OF assms(2,3)] assms(4) by (simp add: yuvcpy_main_def)
  next
    case 3
    have "drop_bit 1 (c_div (2 * X * n) 3) = n" using 3 assms(2) by (simp add: drop_bit_eq_div c_div_nonneg)
    then show ?thesis using 3 yuvcpy_x3_filled [OF assms(2,3)] assms(4) by (simp add: yuvcpy_main_def)
  qed
qed

text \<open>
  C21: Copying with a horizontal factor of 1, 2 or 3 stays inside the two buffers, and pixel \<open>p\<close> of the
  destination is pixel \<open>p div X\<close> of the source, luma and chroma.
\<close>

theorem yuvcpy_replicates_pixels:
  assumes "X = 1 \<or> X = 2 \<or> X = 3" "0 \<le> n" "n \<le> int (length src)" "X * n \<le> int (length dst)"
  shows "\<exists>d. yuvcpy_main dst src (2 * X * n) X = Some d \<and> length d = length dst
    \<and> (\<forall>p. 0 \<le> p \<and> p < 2 * X * n \<longrightarrow> yuv422_get_pixel d p = yuv422_get_pixel src (p div X))"
proof -
  obtain d where d: "yuvcpy_main dst src (2 * X * n) X = Some d" "filled X src dst (X * n) d"
    using yuvcpy_main_filled [OF assms] by blast
  have X: "0 < X" using assms(1) by auto
  have "yuv422_get_pixel d p = yuv422_get_pixel src (p div X)" if p: "0 \<le> p" "p < 2 * X * n" for p
  proof -
    have l: "length d = length dst" using d(2) by (simp add: filled_def)
    have q: "p div 2 < X * n" using p(2) by (intro zdiv_less) (simp_all add: algebra_simps)
    have "p < 2 * int (length d)" using p(2) assms(4) l by (simp add: algebra_simps)
    then have "yuv422_get_pixel d p = Some (word_pixel (rep_word X src (p div 2)) (odd p))"
      using p(1) q d(2) by (simp add: yuv422_get_pixel_Some filled_def)
    moreover have "(p div 2) div X = (p div X) div 2" by (simp add: zdiv_zmult2_eq [symmetric] X mult.commute less_imp_le)
    moreover have "2 * (p div 2) = p" if "even p" using that by simp
    moreover have "2 * (p div 2) + 1 = p" if "odd p" using that by simp
    moreover have "p div X < 2 * n" using p(2) X by (intro zdiv_less) (simp_all add: algebra_simps)
    moreover have "0 \<le> p div X" using p(1) X by (simp add: pos_imp_zdiv_nonneg_iff)
    ultimately show ?thesis using assms(3)
      by (cases "odd p") (simp_all add: yuv422_get_pixel_Some rep_word_def Let_def word_pixel_luma_word)
  qed
  then show ?thesis using d by (auto simp: filled_def)
qed

theorem yuvcpy_replicates_pixels_witness:
  "\<exists>d. yuvcpy_main [0, 0, 0] [0x11223344] 6 3 = Some d \<and> length d = length [0, 0, 0 :: u32]
    \<and> (\<forall>p. 0 \<le> p \<and> p < 6 \<longrightarrow> yuv422_get_pixel d p = yuv422_get_pixel [0x11223344] (p div 3))"
  using yuvcpy_replicates_pixels [of 3 1 "[0x11223344]" "[0, 0, 0]"] by simp

section \<open>Colour of a packed pixel\<close>

lemma int8_take_bit: "take_bit 8 (int8 u) = take_bit 8 u"
  by (rule bit_eqI) (auto simp: int8_def bit_simps)

lemma take_bit_byte: "take_bit 8 (uint (w AND 0xFF :: u32)) = uint (w AND 0xFF)"
  unfolding luma_mask by (rule bit_eqI) (auto simp: bit_simps bit_uint_iff)

text \<open>
  The macro that converts a packed pixel to RGB gives what splitting the pixel and converting the
  parts gives.
\<close>

theorem compute_uyvy2yrgb_is_split:
  "COMPUTE_UYVY2YRGB uyvy = (case uyvy_split uyvy of (Y, U, V) \<Rightarrow> (Y, yuv2rgb Y U V))"
  by (simp add: COMPUTE_UYVY2YRGB_def uyvy_split_def yuv2rgb_def Let_def int8_take_bit UYVY_GET_U_def UYVY_GET_V_def
      take_bit_byte)

section \<open>YUV 4:1:1\<close>

lemma byte_word: "(word_of_int (byte_at m p) AND 0xFF :: u32) = ucast (m p)"
  unfolding luma_mask byte_at_def by (rule bit_word_eqI) (auto simp: bit_simps bit_uint_iff dest: bit_imp_le_length)

lemma pack_bytes:
  "UYVY_PACK (byte_at m u) (byte_at m y1) (byte_at m v) (byte_at m y2)
    = ucast (m u) OR push_bit 8 (ucast (m y1)) OR push_bit 16 (ucast (m v)) OR push_bit 24 (ucast (m y2))"
  by (simp only: UYVY_PACK_def byte_word)

lemma packed_fields:
  fixes a b c d :: u8
  shows "UYVY_GET_U (ucast a OR push_bit 8 (ucast b) OR push_bit 16 (ucast c) OR push_bit 24 (ucast d)) = ucast a"
    "word_luma (ucast a OR push_bit 8 (ucast b) OR push_bit 16 (ucast c) OR push_bit 24 (ucast d)) False = ucast b"
    "UYVY_GET_V (ucast a OR push_bit 8 (ucast b) OR push_bit 16 (ucast c) OR push_bit 24 (ucast d)) = ucast c"
  unfolding UYVY_GET_U_def UYVY_GET_V_def word_luma_def luma_mask
  by (rule bit_word_eqI; auto simp: bit_simps dest: bit_imp_le_length)+

lemma aligned_facts: "uint (p AND NOT 3 :: u32) mod 4 = 0"
proof -
  have "(p AND NOT 3) AND 3 = 0" by (rule bit_word_eqI) (auto simp: bit_simps)
  then have "take_bit 2 (p AND NOT 3) = 0" by (simp add: take_bit_eq_mask mask_eq_exp_minus_1)
  then have "take_bit 2 (uint (p AND NOT 3)) = 0" by (metis unsigned_0 unsigned_take_bit_eq)
  then show ?thesis by (simp add: take_bit_eq_mod)
qed

lemma am3_direct: "uint ((p :: u32) div 4 mod 3) = uint p div 4 mod 3"
  by (simp add: uint_mod uint_div)

lemma yuv411_next_ok:
  assumes "yuv411_ok st" "p < 0xFFFFFFFC" "uint p mod 4 = 0"
  shows "yuv411_ok (yuv411_next p st)" "am3 (yuv411_next p st) = uint p div 4 mod 3"
proof -
  show "am3 (yuv411_next p st) = uint p div 4 mod 3"
  proof (cases "p = prev_addr st + 4")
    case True
    let ?q = "uint (prev_addr st)"
    have "?q < 0xFFFFFFFC" using assms(1) by (simp add: yuv411_ok_def word_less_def)
    then have "uint p = ?q + 4" unfolding True by (simp add: uint_word_ariths)
    moreover have "am3 st = ?q div 4 mod 3" using assms(1) by (simp add: yuv411_ok_def)
    moreover have "(?q + 4) div 4 = ?q div 4 + 1" by simp
    moreover have "(t + 1) mod 3 = (if t mod 3 + 1 = 3 then 0 else t mod 3 + 1)" for t :: int by presburger
    ultimately show ?thesis using True by (simp add: yuv411_next_def Let_def)
  next
    case False
    then show ?thesis using assms(1) by (simp add: yuv411_next_def Let_def am3_direct yuv411_ok_def)
  qed
  then show "yuv411_ok (yuv411_next p st)" using assms(2,3) by (simp add: yuv411_ok_def yuv411_next_def Let_def)
qed

lemma yuv411_to_rgb_ok:
  assumes "yuv411_ok st" "addr < 0xFFFFFFFC"
  shows "\<exists>st'. yuv411_to_rgb m addr st = (first_pixel_rgb (yuv411_to_422 m addr), st') \<and> yuv411_ok st'"
proof -
  let ?p = "addr AND NOT 3"
  have "?p \<le> addr" by (simp add: word_and_le2)
  then have p: "?p < 0xFFFFFFFC" using assms(2) by order
  note st = yuv411_next_ok [OF assms(1) p aligned_facts]
  have k: "uint (?p div 4 mod 3) = uint ?p div 4 mod 3" by (rule am3_direct)
  have byte: "take_bit 8 (uint (m a)) = uint (m a)" for a
    using uint_lt2p [of "m a"] by (simp add: take_bit_eq_mod)
  have ub: "uint (ucast (m a) :: u32) = uint (m a)" for a
    using uint_lt2p [of "m a"] by (simp add: unsigned_ucast_eq take_bit_eq_mod)
  consider "uint ?p div 4 mod 3 = 0" | "uint ?p div 4 mod 3 = 1" | "uint ?p div 4 mod 3 = 2"
    using pos_mod_sign [of 3 "uint ?p div 4"] pos_mod_bound [of 3 "uint ?p div 4"] by linarith
  then have "fst (yuv411_to_rgb m addr st) = first_pixel_rgb (yuv411_to_422 m addr)"
  proof cases
    case 1
    then have "?p div 4 mod 3 = 0" using k by (simp add: word_uint_eq_iff)
    then show ?thesis using 1 st(2)
      by (simp add: yuv411_to_rgb_def yuv411_to_422_def ALIGN32_def Let_def first_pixel_rgb_def yuv2rgb_def pack_bytes [unfolded byte_at_def] packed_fields byte_at_def ub byte)
  next
    case 2
    then have "?p div 4 mod 3 = 1" using k by (simp add: word_uint_eq_iff)
    then show ?thesis using 2 st(2)
      by (simp add: yuv411_to_rgb_def yuv411_to_422_def ALIGN32_def Let_def first_pixel_rgb_def yuv2rgb_def rd32_def packed_fields byte_at_def ub byte)
  next
    case 3
    then have "?p div 4 mod 3 = 2" using k by (simp add: word_uint_eq_iff)
    then show ?thesis using 3 st(2)
      by (simp add: yuv411_to_rgb_def yuv411_to_422_def ALIGN32_def Let_def first_pixel_rgb_def yuv2rgb_def pack_bytes [unfolded byte_at_def] packed_fields byte_at_def ub byte)
  qed
  moreover have "snd (yuv411_to_rgb m addr st) = yuv411_next ?p st"
    by (simp add: yuv411_to_rgb_def Let_def case_prod_beta)
  ultimately show ?thesis using st(1) by (metis prod.collapse)
qed

lemma yuv411_calls_ok:
  "yuv411_ok st \<Longrightarrow> \<forall>a \<in> set addrs. a < 0xFFFFFFFC \<Longrightarrow>
    yuv411_calls m addrs st = map (\<lambda>a. first_pixel_rgb (yuv411_to_422 m a)) addrs"
proof (induction addrs arbitrary: st)
  case (Cons a addrs)
  then obtain st' where "yuv411_to_rgb m a st = (first_pixel_rgb (yuv411_to_422 m a), st')" "yuv411_ok st'"
    using yuv411_to_rgb_ok [of st a m] by auto
  then show ?case using Cons by simp
qed simp

text \<open>
  C20: Reading pixels through \<^verbatim>\<open>yuv411_to_rgb\<close>, which remembers the last address to avoid a division,
  gives for every sequence of addresses below the last word what the stateless conversion to
  YUV 4:2:2 gives.
\<close>

theorem yuv411_trick_equivalent:
  assumes "\<forall>a \<in> set addrs. a < 0xFFFFFFFC"
  shows "yuv411_calls m addrs yuv411_zero = map (\<lambda>a. first_pixel_rgb (yuv411_to_422 m a)) addrs"
  by (rule yuv411_calls_ok) (simp_all add: assms yuv411_ok_def yuv411_zero_def)

theorem yuv411_trick_equivalent_witness:
  "yuv411_calls (\<lambda>a. ucast a) [8, 12, 13, 16, 4] yuv411_zero
    = map (\<lambda>a. first_pixel_rgb (yuv411_to_422 (\<lambda>a. ucast a) a)) [8, 12, 13, 16, 4]"
  using yuv411_trick_equivalent [of "[8, 12, 13, 16, 4]" "\<lambda>a. ucast a"] by simp

text \<open>At the end of the address space the remembered remainder goes wrong: the word at 0 is read as if
  its remainder were 1.\<close>

lemma yuv411_trick_wraps:
  "am3 (yuv411_next 0 (yuv411_next 0xFFFFFFFC yuv411_zero)) = 1"
  "uint ((0 :: u32) div 4 mod 3) = 0"
  by (simp_all add: yuv411_next_def yuv411_zero_def Let_def)

end
