(* ===== verification/Spec2Isabelle.thy ===== *)
theory Spec2Isabelle
  imports ML_Math ML_Ptpbuf ML_Cbr ML_Config ML_Mem ML_Aligned ML_Reloc ML_Property
    ML_Bootflags ML_Console ML_Raw ML_Menu ML_Image
begin

text \<open>
  A verification library for the core of Magic Lantern, the add-on for Canon cameras whose sources
  are under \<^verbatim>\<open>src/src\<close>. The code runs inside Canon's firmware on a 32-bit ARM
  processor. Where the preprocessor selects between cameras, the library follows the configuration
  of the 70D (DIGIC 5) unless a theory says otherwise.

  \<^bold>\<open>Parts and how they interact.\<close>
  The memory backend (\<^verbatim>\<open>mem.c\<close>) serves every other part with guarded blocks from Canon's
  allocators. Configuration files (\<^verbatim>\<open>config.c\<close>) give the variables of all features their
  values at startup and save them at shutdown. Camera properties (\<^verbatim>\<open>property.c\<close>) are the
  channel between Canon's firmware and the features; \<^verbatim>\<open>fileprefix.c\<close> is one of their clients.
  The callback registry (\<^verbatim>\<open>ml-cbr.c\<close>) distributes events among modules. Patches of
  Canon's code (\<^verbatim>\<open>patch.c\<close>, \<^verbatim>\<open>patch_cache.c\<close>) are RAM writes, or, for code in ROM, words in
  locked cache lines (\<^verbatim>\<open>cache_hacks.c\<close>); \<^verbatim>\<open>reloc.c\<close> copies a function of the
  firmware so that the copy can be changed. PTP buffers (\<^verbatim>\<open>ptpbuf.c\<close>) carry packets to a
  computer. \<^verbatim>\<open>bootflags.c\<close> makes a card bootable, \<^verbatim>\<open>console.c\<close> shows text on the
  screen, \<^verbatim>\<open>menu.c\<close> edits the configuration variables, \<^verbatim>\<open>raw.c\<close> and \<^verbatim>\<open>imgconv.c\<close> give
  the features access to images, and \<^verbatim>\<open>imath.c\<close>, \<^verbatim>\<open>crc32.c\<close>, \<^verbatim>\<open>rand.c\<close> and the character
  classes of \<^verbatim>\<open>stdio.c\<close> are helpers.

  \<^bold>\<open>Theories.\<close>
  \<^item> \<open>ML_Prelude\<close>: C integers, the byte memory with little-endian words, pointer macros,
    array scans, and the facts on words, addresses and division that all components use. Its
    collections \<open>mem_simps\<close> and \<open>c_int_simps\<close> carry the proofs.
  \<^item> \<open>ML_Codec\<close>: the contract \<open>stream_codec\<close> of records that are written back to back and
    read again, interpreted for 32-bit words here and for PTP packets in \<open>ML_Ptpbuf\<close>.
  \<^item> \<open>ML_Math\<close>: \<^verbatim>\<open>imath.c\<close>, \<^verbatim>\<open>crc32.c\<close>, \<^verbatim>\<open>rand.c\<close>. Powers and logarithms are exact, the
    table-driven checksum is the bitwise one and detects a changed byte.
  \<^item> \<open>ML_Ptpbuf\<close>: \<^verbatim>\<open>ptpbuf.c\<close>. Packets that fit stay within their buffer, and a
    client reads them back.
  \<^item> \<open>ML_Cbr\<close>: \<^verbatim>\<open>ml-cbr.c\<close>. Linked lists in arenas are lists of nodes with index pointers.
    The well-formedness \<open>cbr_wf\<close> is kept by every operation; callbacks run in descending priority. The
    contract \<open>event_bus\<close> is what clients rely on; the registry interprets it.
  \<^item> \<open>ML_Strings\<close> and \<open>ML_Config\<close>: \<^verbatim>\<open>stdio.c\<close> in part, \<^verbatim>\<open>config.c\<close>, and the variable lookup of
    \<^verbatim>\<open>module.c\<close>. What is saved is parsed back; parsing a line in the
    static character arrays is a specification on strings, with one overrun for the longest values; the
    choice of presets stays within its tables.
  \<^item> \<open>ML_Mem\<close> and \<open>ML_Aligned\<close>: \<^verbatim>\<open>mem.c\<close>. The choice of an allocator, guard zones, the table of live
    blocks and the accounting; \<^verbatim>\<open>free\<close> undoes \<^verbatim>\<open>malloc\<close> whatever the owner wrote into the block, and a
    block with a damaged guard zone is never released.
  \<^item> \<open>ML_Cache\<close>, \<open>ML_Patch\<close>, \<open>ML_Reloc\<close>: \<^verbatim>\<open>cache_hacks.c\<close>, \<^verbatim>\<open>patch.c\<close> with
    \<^verbatim>\<open>patch_cache.c\<close>, and \<^verbatim>\<open>reloc.c\<close>. A faked cache word changes one word for the processor;
    patches can be undone, and all sequences of operations (the inductive relation
    \<open>patch_reach\<close>) keep the table well formed; hooks are wired up correctly; relocation implements the plan
    \<open>reloc_plan\<close>, its branches keep their targets, and an instruction with a fixup has the same effect as the original.
  \<^item> \<open>ML_Property\<close>: \<^verbatim>\<open>property.c\<close> and \<^verbatim>\<open>fileprefix.c\<close>. Runs of the property system are the inductive
    relation \<open>prop_run\<close>, with the reset of the registration as one of its steps; Canon's stub is only called with lengths that Canon announced.
  \<^item> \<open>ML_Bootflags\<close>: \<^verbatim>\<open>bootflags.c\<close>. Labels and checksums of FAT and exFAT cards.
  \<^item> \<open>ML_Console\<close>: \<^verbatim>\<open>console.c\<close>. The circular buffer refines a terminal with an unbounded tape.
  \<^item> \<open>ML_Raw\<close>: \<^verbatim>\<open>raw.c\<close> in part. The packed raw buffer is an array of 14-bit pixels, with the bits in the
    order of the comment in \<^verbatim>\<open>raw.h\<close>, and the channel functions read the Bayer pattern.
  \<^item> \<open>ML_Menu\<close>: the editing of numbers in \<^verbatim>\<open>menu.c\<close>. Toggling ends, and keeps values in
    their range and the caret on a digit, down to the store into the configuration variable.
  \<^item> \<open>ML_Image\<close>: \<^verbatim>\<open>imgconv.c\<close>. Scaling and copying stay within the image buffers and move the right
    pixels; the two ways to convert a packed pixel agree, and so do those for YUV 4:1:1.

  \<^bold>\<open>Correspondence.\<close>
  A C structure is a record with the fields of the source, static variables of a file are the
  fields of a state record, and a function is a definition of the same name (with a suffix or prefix
  where the name is taken in HOL) that takes and returns the state. Unsigned integers are words of their
  width and wrap; an \<^verbatim>\<open>int\<close> is an integer, with the reduction to 32 bits (\<open>s32\<close>), an error for the overflow
  (\<open>fits_int\<close>) or the proof that it stays in range where that matters; the search for preferred numbers in
  \<open>ML_Menu\<close> and the colour arithmetic of \<open>ML_Image\<close> are computed without limits. An access outside an array, a null pointer that is used, and a
  loop that does not end are values of an error type or \<open>None\<close>. Code that is not among the
  sources (Canon's allocators, file system, card driver, property manager, string formatting and
  the CP15 registers) is an argument of the definitions; the hypotheses on it are
  named predicates such as \<open>pools_in_ram\<close> and \<open>card_ok\<close>, and every property
  that uses them has a witness with a concrete instance.

  \<^bold>\<open>Bounds and fuel.\<close>
  Loops over arrays are recursions over their indices, with the sizes of the source. Walks along
  the lists of \<open>ML_Cbr\<close> carry fuel, one step more than there are nodes; in a well-formed registry they
  never run out. The main loop of \<open>reloc\<close> is a partial function, because the code spins when its
  fixup table overflows; it is shown to return otherwise. The loops of \<open>ML_Menu\<close>
  that search the next preferred number are partial functions, because they spin for a step of 0; they
  are shown to return for every other step. All other loops are total functions with termination
  measures, or recursions on lists. Semaphores and disabled interrupts make the operations atomic.

  \<^bold>\<open>Not modelled.\<close>
  \<^item> Drawing and user interface (\<^verbatim>\<open>bmp.c\<close>, the rest of \<^verbatim>\<open>menu.c\<close>, \<^verbatim>\<open>gui*.c\<close>, \<^verbatim>\<open>vram.c\<close>, fonts, overlays such as
    \<^verbatim>\<open>zebra.c\<close>, \<^verbatim>\<open>histogram.c\<close>, \<^verbatim>\<open>cropmarks.c\<close>): their effect is pixels in Canon's frame buffers.
  \<^item> Camera features (\<^verbatim>\<open>shoot.c\<close>, \<^verbatim>\<open>lens.c\<close>, \<^verbatim>\<open>focus.c\<close>, \<^verbatim>\<open>fps-engio.c\<close>, \<^verbatim>\<open>audio-*.c\<close>, \<^verbatim>\<open>movtweaks.c\<close>, \<^verbatim>\<open>hdr.c\<close>): tasks that
    wait for Canon's firmware and write undocumented registers, whose behaviour is not in the sources.
  \<^item> The rest of \<^verbatim>\<open>raw.c\<close> (finding the buffer, levels, previews) and the memory transfers of
    \<^verbatim>\<open>edmac.c\<close> and \<^verbatim>\<open>exmem.c\<close>: they drive Canon's image processor, or use floating point.
  \<^item> Tasks, logging, debugging, PTP handlers and file wrappers (\<^verbatim>\<open>tasks.c\<close>, \<^verbatim>\<open>debug.c\<close>, \<^verbatim>\<open>dm-spy.c\<close>, \<^verbatim>\<open>gdb.c\<close>,
    \<^verbatim>\<open>ptp*.c\<close>, \<^verbatim>\<open>fio-ml.c\<close>): thin layers over firmware functions and structures known only by address.
  \<^item> Boot code, stubs and other processors (\<^verbatim>\<open>boot-*.c\<close>, \<^verbatim>\<open>init.c\<close>, \<^verbatim>\<open>patch_mmu.c\<close>, \<^verbatim>\<open>patch_d6.c\<close>,
    \<^verbatim>\<open>mmu_utils.c\<close>, \<^verbatim>\<open>src/platform\<close>): assembly, addresses and page tables of other generations.
  \<^item> Modules (\<^verbatim>\<open>src/modules\<close>) and their loader, which links them with the vendored TCC.
  \<^item> The emulator \<^verbatim>\<open>src/qemu-eos\<close>, \<^verbatim>\<open>src/tcc\<close>, host tools and installers: separate programs, mostly
    vendored.
\<close>

end
